(* ===== verification/Tiny_Prelude.thy ===== *)
theory Tiny_Prelude
  imports Main "HOL-Library.Word"
begin

text \<open>
  Shared vocabulary of the development: the C integer types as words, byte strings, the
  views of a buffer through offsets that the C code takes through pointers, and the
  generic facts about them.

  A \<open>const char *buf\<close> with its length is a \<^typ>\<open>8 word list\<close>; a pointer into it is the
  offset from \<open>buf\<close>, a \<^typ>\<open>nat\<close>; the bytes between two pointers \<open>p\<close> and \<open>e\<close> are
  \<open>bslice buf p e\<close>. A function of the C code that takes a pointer and a length takes the
  list of these bytes.
\<close>

unbundle bit_operations_syntax

named_theorems evals \<open>equations that evaluate the model on closed inputs\<close>
named_theorems slice_simps \<open>rewriting of slices and searches\<close>
named_theorems flag_simps \<open>tests of bits set in flag words\<close>

type_synonym byte = "8 word"
type_synonym u8 = "8 word"
type_synonym u16 = "16 word"
type_synonym u32 = "32 word"
type_synonym u64 = "64 word"

section \<open>Byte strings\<close>

definition bytes :: "string \<Rightarrow> byte list" where
  "bytes s = map of_char s"

lemma length_bytes [simp]: "length (bytes s) = length s"
  by (simp add: bytes_def)

lemma bytes_Nil [simp]: "bytes [] = []"
  by (simp add: bytes_def)

lemma bytes_append: "bytes (s @ t) = bytes s @ bytes t"
  by (simp add: bytes_def)

text \<open>The carriage return and line feed that end a line of HTTP.\<close>

abbreviation CR :: byte where "CR \<equiv> 13"
abbreviation LF :: byte where "LF \<equiv> 10"

section \<open>Slices of a buffer\<close>

definition bslice :: "'a list \<Rightarrow> nat \<Rightarrow> nat \<Rightarrow> 'a list" where
  "bslice b p e = take (e - p) (drop p b)"

lemma length_slice [slice_simps]: "e \<le> length b \<Longrightarrow> length (bslice b p e) = e - p"
  by (simp add: bslice_def)

lemma slice_empty [simp]: "e \<le> p \<Longrightarrow> bslice b p e = []"
  by (simp add: bslice_def)

lemma nth_slice [slice_simps]: "p + i < e \<Longrightarrow> e \<le> length b \<Longrightarrow> bslice b p e ! i = b ! (p + i)"
  by (simp add: bslice_def)

lemma slice_append_left [slice_simps]: "e \<le> length b \<Longrightarrow> bslice (b @ x) p e = bslice b p e"
  by (cases "p \<le> e") (auto simp: bslice_def)

lemma bslice_Cons: "p < e \<Longrightarrow> e \<le> length b \<Longrightarrow> bslice b p e = b ! p # bslice b (Suc p) e"
proof -
  assume a: "p < e" "e \<le> length b"
  then obtain n where "e - p = Suc n" and "e - Suc p = n" by (cases "e - p") auto
  with a show ?thesis by (simp add: bslice_def Cons_nth_drop_Suc [symmetric])
qed

lemma set_slice: "e \<le> length b \<Longrightarrow> set (bslice b p e) = (\<lambda>i. b ! i) ` {p..<e}"
proof (induction "e - p" arbitrary: p)
  case 0
  then show ?case by simp
next
  case (Suc n)
  then have "p < e" by simp
  moreover have "{p..<e} = insert p {Suc p..<e}" using \<open>p < e\<close> by auto
  ultimately show ?case using Suc by (simp add: bslice_Cons)
qed

lemma list_all_slice: "e \<le> length b \<Longrightarrow> list_all P (bslice b p e) \<longleftrightarrow> (\<forall>i\<in>{p..<e}. P (b ! i))"
  by (simp add: list_all_iff set_slice)

lemma slice_split: "p \<le> m \<Longrightarrow> m \<le> e \<Longrightarrow> bslice b p e = bslice b p m @ bslice b m e"
proof -
  assume "p \<le> m" "m \<le> e"
  then have "e - p = (m - p) + (e - m)" and "drop m b = drop (m - p) (drop p b)" by simp_all
  then show ?thesis by (simp only: bslice_def take_add)
qed

lemma slice_full [simp]: "bslice b 0 (length b) = b"
  by (simp add: bslice_def)

lemma slice_append_shift [slice_simps]: "bslice (a @ b) (length a + p) (length a + e) = bslice b p e"
  by (simp add: bslice_def)

section \<open>Searching: \<open>memchr\<close>\<close>

text \<open>
  \<open>memchr b p e c\<close> is C's \<open>memchr (b + p, c, e - p)\<close>: the offset of the first \<open>c\<close> of the
  half-open range, or \<^const>\<open>None\<close> for the null pointer.
\<close>

function memchr :: "'a list \<Rightarrow> nat \<Rightarrow> nat \<Rightarrow> 'a \<Rightarrow> nat option" where
  "memchr b p e c = (if p < e then if b ! p = c then Some p else memchr b (Suc p) e c else None)"
  by pat_completeness auto
termination
  by (relation "measure (\<lambda>(b, p, e, c). e - p)") auto

declare memchr.simps [simp del, evals]

lemma all_range_step:
  "(\<forall>j. p \<le> j \<and> j < e \<longrightarrow> P j) \<longleftrightarrow> (p < e \<longrightarrow> P p \<and> (\<forall>j. Suc p \<le> j \<and> j < e \<longrightarrow> P j))"
proof (cases "p < e")
  case True
  have "p \<le> j \<longleftrightarrow> j = p \<or> Suc p \<le> j" for j by auto
  with True show ?thesis by simp blast
qed auto

lemma memchr_less: "memchr b p e c = Some i \<Longrightarrow> p \<le> i"
proof (induction b p e c rule: memchr.induct)
  case (1 b p e c)
  from "1.prems" have "i = p \<or> b ! p \<noteq> c \<and> p < e \<and> memchr b (Suc p) e c = Some i"
    by (subst (asm) memchr.simps) (auto split: if_splits)
  with "1.IH" show ?case by auto
qed

lemma memchr_Some_iff:
  "memchr b p e c = Some i \<longleftrightarrow> p \<le> i \<and> i < e \<and> b ! i = c \<and> (\<forall>j. p \<le> j \<and> j < i \<longrightarrow> b ! j \<noteq> c)"
proof (induction b p e c rule: memchr.induct)
  case (1 b p e c)
  have "memchr b p e c = Some i \<longleftrightarrow>
    p < e \<and> (b ! p = c \<and> i = p \<or> b ! p \<noteq> c \<and> memchr b (Suc p) e c = Some i)"
    by (subst memchr.simps) auto
  also have "\<dots> \<longleftrightarrow> p \<le> i \<and> i < e \<and> b ! i = c \<and> (\<forall>j. p \<le> j \<and> j < i \<longrightarrow> b ! j \<noteq> c)"
  proof (cases "p < e \<and> b ! p \<noteq> c \<and> p \<noteq> i")
    case True
    then have "p \<le> i \<longleftrightarrow> Suc p \<le> i" and "Suc p \<le> i \<Longrightarrow> p < i" by auto
    with True 1 show ?thesis using all_range_step [of p i "\<lambda>j. b ! j \<noteq> c"] by auto
  next
    case False
    with memchr_less [of b "Suc p" e c i] show ?thesis by auto
  qed
  finally show ?case .
qed

lemma memchr_None_iff: "memchr b p e c = None \<longleftrightarrow> (\<forall>j. p \<le> j \<and> j < e \<longrightarrow> b ! j \<noteq> c)"
proof (induction b p e c rule: memchr.induct)
  case (1 b p e c)
  have "memchr b p e c = None \<longleftrightarrow> (p < e \<longrightarrow> b ! p \<noteq> c \<and> memchr b (Suc p) e c = None)"
    by (subst memchr.simps) simp
  then show ?case
    using 1 all_range_step [of p e "\<lambda>j. b ! j \<noteq> c"] by auto
qed

lemma memchr_bounds: "memchr b p e c = Some i \<Longrightarrow> p \<le> i \<and> i < e \<and> b ! i = c"
  by (simp add: memchr_Some_iff)

text \<open>A search reads the range only, and a longer range finds what a shorter one found.\<close>

lemma memchr_append [slice_simps]: "e \<le> length b \<Longrightarrow> memchr (b @ x) p e c = memchr b p e c"
proof (induction b p e c rule: memchr.induct)
  case (1 b p e c)
  show ?case
    using 1 by (subst (1 2) memchr.simps) (auto simp: nth_append)
qed

lemma memchr_extend: "memchr b p e c = Some i \<Longrightarrow> e \<le> e' \<Longrightarrow> memchr b p e' c = Some i"
  by (auto simp: memchr_Some_iff)

lemma memchr_skip: "p \<le> m \<Longrightarrow> m \<le> e \<Longrightarrow> (\<forall>j. p \<le> j \<and> j < m \<longrightarrow> b ! j \<noteq> c) \<Longrightarrow>
  memchr b p e c = memchr b m e c"
proof (induction "m - p" arbitrary: p)
  case 0
  then show ?case by simp
next
  case (Suc n)
  then have "p < m" "p < e" "b ! p \<noteq> c" by auto
  moreover from this Suc have "memchr b (Suc p) e c = memchr b m e c" by auto
  ultimately show ?case by (simp add: memchr.simps [of b p])
qed

section \<open>Optional white space\<close>

text \<open>
  The two loops that strip blanks from both ends of a field value, as they stand in the
  parser (\<open>is_ows\<close>) and, spelled out, in the proxy.
\<close>

definition is_ows :: "byte \<Rightarrow> bool" where
  "is_ows c = (c = 32 \<or> c = 9)"

function trim_left :: "byte list \<Rightarrow> nat \<Rightarrow> nat \<Rightarrow> nat" where
  "trim_left b v e = (if v < e \<and> is_ows (b ! v) then trim_left b (Suc v) e else v)"
  by pat_completeness auto
termination
  by (relation "measure (\<lambda>(b, v, e). e - v)") auto

fun trim_right :: "byte list \<Rightarrow> nat \<Rightarrow> nat \<Rightarrow> nat" where
  "trim_right b v 0 = 0"
| "trim_right b v (Suc e) = (if v < Suc e \<and> is_ows (b ! e) then trim_right b v e else Suc e)"

declare trim_left.simps [simp del, evals]
declare is_ows_def [evals] bslice_def [evals] bytes_def [evals]

lemma trim_right_numeral [evals]:
  "trim_right b v (numeral k) =
     (if v < numeral k \<and> is_ows (b ! (pred_numeral k)) then trim_right b v (pred_numeral k) else numeral k)"
  by (simp add: numeral_eq_Suc)

lemma trim_left_bounds: "v \<le> e \<Longrightarrow> v \<le> trim_left b v e \<and> trim_left b v e \<le> e"
proof (induction b v e rule: trim_left.induct)
  case (1 b v e)
  then show ?case by (subst (1 2) trim_left.simps) auto
qed

lemma trim_right_bounds: "v \<le> e \<Longrightarrow> v \<le> trim_right b v e \<and> trim_right b v e \<le> e"
  by (induction b v e rule: trim_right.induct) auto

lemma trim_left_append [slice_simps]: "e \<le> length b \<Longrightarrow> trim_left (b @ x) v e = trim_left b v e"
proof (induction b v e rule: trim_left.induct)
  case (1 b v e)
  then show ?case by (subst (1 2) trim_left.simps) (auto simp: nth_append)
qed

lemma trim_right_append [slice_simps]: "e \<le> length b \<Longrightarrow> trim_right (b @ x) v e = trim_right b v e"
  by (induction b v e rule: trim_right.induct) (auto simp: nth_append)

lemma trim_left_id: "e \<le> v \<or> \<not> is_ows (b ! v) \<Longrightarrow> trim_left b v e = v"
  by (subst trim_left.simps) auto

lemma trim_left_step: "v < e \<Longrightarrow> is_ows (b ! v) \<Longrightarrow> trim_left b v e = trim_left b (Suc v) e"
  by (subst trim_left.simps) simp

lemma trim_right_id: "e \<le> v \<or> \<not> is_ows (b ! (e - 1)) \<Longrightarrow> trim_right b v e = e"
  by (cases e) auto

section \<open>Flag words\<close>

lemma flag_or_and [flag_simps]:
  "(f OR m) AND n = (f AND n) OR (m AND (n :: 'a::len word))"
  by (simp add: bit.conj_disj_distrib2)

lemma flag_or_eq_0 [flag_simps]: "(a OR b = (0 :: 'a::len word)) \<longleftrightarrow> a = 0 \<and> b = 0"
  by (metis or_eq_0_iff)

section \<open>Words read as naturals\<close>

lemma unat_of_nat_16: "n < 65536 \<Longrightarrow> unat (word_of_nat n :: u16) = n"
  by (simp add: unat_of_nat)

lemma unat_of_nat_32: "n < 4294967296 \<Longrightarrow> unat (word_of_nat n :: u32) = n"
  by (simp add: unat_of_nat)

end
