(* ===== verification/Config.thy ===== *)
theory Config
  imports Tiny_Prelude
begin

text \<open>
  The compile-time configuration \<^verbatim>\<open>src/config.h\<close>: the sizes, pool dimensions and timeouts
  the other components use, with the relations its static assertions state, and the checked
  product \<open>tiny_size_mul\<close> that sizes every pool.
\<close>

definition TINY_WORKERS :: nat where "TINY_WORKERS = 6"
definition TINY_CONNS_PER_WORKER :: nat where "TINY_CONNS_PER_WORKER = 128"
definition TINY_QUEUE_SIZE :: nat where "TINY_QUEUE_SIZE = 1024"

definition TINY_KEEPALIVE_MS :: u64 where "TINY_KEEPALIVE_MS = 15000"
definition TINY_READ_TIMEOUT_MS :: u64 where "TINY_READ_TIMEOUT_MS = 10000"
definition TINY_SEND_TIMEOUT_MS :: u64 where "TINY_SEND_TIMEOUT_MS = 30000"
definition TINY_QUEUE_TIMEOUT_MS :: u64 where "TINY_QUEUE_TIMEOUT_MS = 5000"

definition TINY_HEADER_SIZE :: nat where "TINY_HEADER_SIZE = 4096"
definition TINY_BUMP_SIZE :: nat where "TINY_BUMP_SIZE = 12288"

definition TINY_ALLOW_DOTFILES :: bool where "TINY_ALLOW_DOTFILES = False"
definition TINY_ALLOW_SYMLINKS :: bool where "TINY_ALLOW_SYMLINKS = True"

text \<open>The static assertions of the header.\<close>

lemma config_asserts:
  "1 \<le> TINY_WORKERS" "1 \<le> TINY_CONNS_PER_WORKER" "256 \<le> TINY_HEADER_SIZE"
  "TINY_QUEUE_SIZE = 2 ^ 10" "TINY_CONNS_PER_WORKER < 2 ^ 31"
  "1 \<le> TINY_KEEPALIVE_MS" "1 \<le> TINY_READ_TIMEOUT_MS" "1 \<le> TINY_SEND_TIMEOUT_MS"
  "1 \<le> TINY_QUEUE_TIMEOUT_MS"
  by (simp_all add: TINY_WORKERS_def TINY_CONNS_PER_WORKER_def TINY_HEADER_SIZE_def
      TINY_QUEUE_SIZE_def TINY_KEEPALIVE_MS_def TINY_READ_TIMEOUT_MS_def
      TINY_SEND_TIMEOUT_MS_def TINY_QUEUE_TIMEOUT_MS_def)

text \<open>\<open>size_t\<close> is 64 bits wide; \<^const>\<open>None\<close> is the return value \<open>-1\<close>.\<close>

definition tiny_size_mul :: "u64 \<Rightarrow> u64 \<Rightarrow> u64 option" where
  "tiny_size_mul a b = (if a \<noteq> 0 \<and> b > (- 1) div a then None else Some (a * b))"

lemma max_word_div_iff:
  fixes a b :: u64
  assumes "a \<noteq> 0"
  shows "(- 1) div a < b \<longleftrightarrow> 2 ^ 64 \<le> unat a * unat b"
proof -
  have pos: "0 < unat a" using assms by (simp add: unat_gt_0)
  have m: "unat (- 1 :: u64) = 2 ^ 64 - 1" by (simp add: unsigned_minus_1_eq_mask mask_eq_exp_minus_1)
  have "(- 1) div a < b \<longleftrightarrow> unat (- 1 :: u64) div unat a < unat b"
    by (simp add: word_less_nat_alt unat_div)
  also have "\<dots> \<longleftrightarrow> unat (- 1 :: u64) < unat b * unat a"
    using pos by (simp add: div_less_iff_less_mult)
  also have "\<dots> \<longleftrightarrow> 2 ^ 64 \<le> unat a * unat b"
    unfolding m by (simp add: mult.commute) arith
  finally show ?thesis .
qed

text \<open>
  The checked product is exact. \<open>tiny_size_mul\<close> succeeds exactly when the product of the two
  sizes fits in a \<open>size_t\<close>, and then stores that product, not its remainder; a pool is never
  allocated smaller than its element count times its element size.
\<close>

theorem tiny_size_mul_exact:
  "tiny_size_mul a b = Some c \<longleftrightarrow> unat a * unat b < 2 ^ 64 \<and> unat c = unat a * unat b"
proof -
  have "unat (a * b) = unat a * unat b" if "unat a * unat b < 2 ^ 64"
    using that by (simp add: unat_word_ariths)
  moreover have "c = a * b \<longleftrightarrow> unat c = unat (a * b)" by (simp add: word_unat_eq_iff)
  ultimately show ?thesis
    using max_word_div_iff [of a b]
    by (cases "a = 0") (auto simp: tiny_size_mul_def unat_eq_zero)
qed

end
