(* ===== verification/Http_Types.thy ===== *)
theory Http_Types
  imports Config
begin

text \<open>
  The data of \<^verbatim>\<open>src/http.h\<close>: parse results, header flags, I/O verdicts, phases, methods,
  slices and the parsed request. Offsets and lengths of a slice are \<open>uint16_t\<close>, so they
  are 16-bit words here, and storing a pointer difference in one truncates it.
\<close>

text \<open>The negative return codes of the parser; a success carries the number of header bytes.\<close>

datatype parse_error = PARSE_BAD | PARSE_INCOMPLETE | PARSE_UNSUPPORTED

definition HTTP_FLAG_CONNECTION_CLOSE :: u8 where "HTTP_FLAG_CONNECTION_CLOSE = 1"
definition HTTP_FLAG_CONNECTION_KEEP_ALIVE :: u8 where "HTTP_FLAG_CONNECTION_KEEP_ALIVE = 2"
definition HTTP_FLAG_TRANSFER_ENCODING :: u8 where "HTTP_FLAG_TRANSFER_ENCODING = 4"
definition HTTP_FLAG_CONTENT_LENGTH :: u8 where "HTTP_FLAG_CONTENT_LENGTH = 8"

lemmas http_flag_defs = HTTP_FLAG_CONNECTION_CLOSE_def HTTP_FLAG_CONNECTION_KEEP_ALIVE_def
  HTTP_FLAG_TRANSFER_ENCODING_def HTTP_FLAG_CONTENT_LENGTH_def

text \<open>\<open>HTTP_IO_*\<close>: what a handler asks of the worker that called it.\<close>

datatype http_io = IO_DONE | IO_WANT_READ | IO_WANT_WRITE | IO_CLOSE | IO_IDLE

datatype http_phase = PHASE_READ | PHASE_WRITE_FIXED | PHASE_WRITE_HDR | PHASE_SENDFILE

datatype http_method = METHOD_UNKNOWN | METHOD_GET | METHOD_POST | METHOD_HEAD
  | METHOD_PUT | METHOD_DELETE

record http_slice =
  s_off :: u16
  s_len :: u16

record http_request =
  req_target :: http_slice
  req_path :: http_slice
  req_query :: http_slice
  req_host :: http_slice
  req_header_block :: http_slice
  req_content_length :: u32
  req_header_bytes :: u16
  req_method :: http_method
  req_minor_version :: u8
  req_flags :: u8

definition slice0 :: http_slice where
  "slice0 = \<lparr>s_off = 0, s_len = 0\<rparr>"

text \<open>The state after \<open>memset(req, 0, sizeof(*req))\<close>; method 0 is \<open>HTTP_METHOD_UNKNOWN\<close>.\<close>

definition http_request0 :: http_request where
  "http_request0 = \<lparr>req_target = slice0, req_path = slice0, req_query = slice0,
     req_host = slice0, req_header_block = slice0, req_content_length = 0,
     req_header_bytes = 0, req_method = METHOD_UNKNOWN, req_minor_version = 0, req_flags = 0\<rparr>"

definition has_flag :: "http_request \<Rightarrow> u8 \<Rightarrow> bool" where
  "has_flag r m = (req_flags r AND m \<noteq> 0)"

text \<open>The bytes of a buffer that a stored slice denotes, and its bounds.\<close>

definition slice_of :: "byte list \<Rightarrow> http_slice \<Rightarrow> byte list" where
  "slice_of b s = take (unat (s_len s)) (drop (unat (s_off s)) b)"

definition slice_end :: "http_slice \<Rightarrow> nat" where
  "slice_end s = unat (s_off s) + unat (s_len s)"

text \<open>Storing the range between two pointers: two casts to \<open>uint16_t\<close>.\<close>

definition mk_slice :: "nat \<Rightarrow> nat \<Rightarrow> http_slice" where
  "mk_slice p e = \<lparr>s_off = word_of_nat p, s_len = word_of_nat (e - p)\<rparr>"

lemma slice_of_mk_slice [slice_simps]:
  "p \<le> e \<Longrightarrow> e < 65536 \<Longrightarrow> slice_of b (mk_slice p e) = bslice b p e"
  by (simp add: slice_of_def mk_slice_def bslice_def unat_of_nat_16 del: of_nat_diff)

lemma slice_end_mk_slice [slice_simps]:
  "p \<le> e \<Longrightarrow> e < 65536 \<Longrightarrow> slice_end (mk_slice p e) = e"
  by (simp add: slice_end_def mk_slice_def unat_of_nat_16 del: of_nat_diff)

lemma slice_end_slice0 [simp]: "slice_end slice0 = 0"
  by (simp add: slice_end_def slice0_def)

lemma slice_of_slice0 [simp]: "slice_of b slice0 = []"
  by (simp add: slice_of_def slice0_def)

declare slice0_def [evals] http_request0_def [evals] has_flag_def [evals] http_flag_defs [evals]
  slice_of_def [evals] slice_end_def [evals] mk_slice_def [evals]

end
