(* ===== verification/Http_Parser.thy ===== *)
theory Http_Parser
  imports Http_Types
begin

text \<open>
  The request parser \<^verbatim>\<open>src/http_parser.c\<close>, function by function. A parse either fails with
  a \<^typ>\<open>parse_error\<close> or returns the filled \<^typ>\<open>http_request\<close>; what the C code leaves
  in the request when it fails is not modelled, because every caller clears the request
  before it parses again and never reads it after a failure. Bytes are read from the buffer
  by offset, so a read outside the first \<open>len\<close> bytes would show in the result (see
  \<open>Http_Parser_Facts\<close>).
\<close>

definition HTTP_PARSE_MAX_LEN :: nat where "HTTP_PARSE_MAX_LEN = 65535"
definition SEEN_HOST :: u8 where "SEEN_HOST = 1"
definition SEEN_CONTENT_LENGTH :: u8 where "SEEN_CONTENT_LENGTH = 2"

section \<open>Character classes\<close>

definition ascii_lower :: "byte \<Rightarrow> byte" where
  "ascii_lower c = (if 65 \<le> c \<and> c \<le> 90 then c + (97 - 65) else c)"

fun ascii_ieq :: "byte list \<Rightarrow> byte list \<Rightarrow> nat \<Rightarrow> bool" where
  "ascii_ieq a b 0 = True"
| "ascii_ieq (x # a) (y # b) (Suc n) = (ascii_lower x = ascii_lower y \<and> ascii_ieq a b n)"
| "ascii_ieq _ _ (Suc n) = False"

definition is_tchar :: "byte \<Rightarrow> bool" where
  "is_tchar c =
     ((97 \<le> c \<and> c \<le> 122 \<or> 65 \<le> c \<and> c \<le> 90 \<or> 48 \<le> c \<and> c \<le> 57)
      \<or> c \<in> set (bytes ''!#$%&*+-.^_|~'') \<or> c = 39 \<or> c = 96)"

definition is_field_vchar :: "byte \<Rightarrow> bool" where
  "is_field_vchar c = (c = 9 \<or> 32 \<le> c \<and> c \<noteq> 127)"

definition is_target_char :: "byte \<Rightarrow> bool" where
  "is_target_char c = (32 < c \<and> c < 127)"

definition is_digit :: "byte \<Rightarrow> bool" where
  "is_digit c = (48 \<le> c \<and> c \<le> 57)"

section \<open>Line ends\<close>

text \<open>
  The offset of the CR of the first CRLF in \<open>[p, e)\<close>. A CR without its LF, or an LF before
  any CR, is bad; a missing CR or a CR as the very last byte is incomplete.
\<close>

definition find_crlf :: "byte list \<Rightarrow> nat \<Rightarrow> nat \<Rightarrow> parse_error + nat" where
  "find_crlf b p e =
     (case memchr b p e CR of
        None \<Rightarrow> if memchr b p e LF \<noteq> None then Inl PARSE_BAD else Inl PARSE_INCOMPLETE
      | Some cr \<Rightarrow>
          if cr + 1 = e then Inl PARSE_INCOMPLETE
          else if b ! (cr + 1) \<noteq> LF then Inl PARSE_BAD
          else Inr cr)"

section \<open>The request line\<close>

definition parse_method :: "byte list \<Rightarrow> http_method" where
  "parse_method m =
     (if length m = 3 then
        if m = bytes ''GET'' then METHOD_GET
        else if m = bytes ''PUT'' then METHOD_PUT else METHOD_UNKNOWN
      else if length m = 4 then
        if m = bytes ''POST'' then METHOD_POST
        else if m = bytes ''HEAD'' then METHOD_HEAD else METHOD_UNKNOWN
      else if length m = 6 then
        if m = bytes ''DELETE'' then METHOD_DELETE else METHOD_UNKNOWN
      else METHOD_UNKNOWN)"

text \<open>
  The start of the path: \<open>Inr (Some p)\<close> for an origin-form target or an absolute-form target
  with a path, \<open>Inr None\<close> for an absolute-form target without one.
\<close>

definition target_path_start :: "byte list \<Rightarrow> nat \<Rightarrow> nat \<Rightarrow> parse_error + nat option" where
  "target_path_start b t e =
     (if b ! t = 47 then Inr (Some t)
      else if e - t \<ge> 7 \<and> ascii_ieq (bslice b t e) (bytes ''http://'') 7
        then Inr (memchr b (t + 7) e 47)
      else if e - t \<ge> 8 \<and> ascii_ieq (bslice b t e) (bytes ''https://'') 8
        then Inr (memchr b (t + 8) e 47)
      else Inl PARSE_BAD)"

definition parse_request_target ::
  "byte list \<Rightarrow> nat \<Rightarrow> nat \<Rightarrow> http_request \<Rightarrow> parse_error + http_request" where
  "parse_request_target b t sp2 req =
     (case target_path_start b t sp2 of
        Inl rc \<Rightarrow> Inl rc
      | Inr None \<Rightarrow> Inr (req\<lparr>req_target := mk_slice t sp2, req_path := slice0\<rparr>)
      | Inr (Some path) \<Rightarrow>
          if \<not> list_all is_target_char (bslice b path sp2) then Inl PARSE_BAD
          else (case memchr b path sp2 63 of
             Some q \<Rightarrow> Inr (req\<lparr>req_target := mk_slice t sp2, req_path := mk_slice path q,
                                req_query := mk_slice (q + 1) sp2\<rparr>)
           | None \<Rightarrow> Inr (req\<lparr>req_target := mk_slice t sp2, req_path := mk_slice path sp2\<rparr>)))"

definition parse_version :: "byte list \<Rightarrow> nat \<Rightarrow> nat \<Rightarrow> parse_error + u8" where
  "parse_version b ver eol =
     (if eol - ver \<noteq> 8 \<or> bslice b ver (ver + 7) \<noteq> bytes ''HTTP/1.'' then Inl PARSE_BAD
      else if b ! (ver + 7) = 49 then Inr 1
      else if b ! (ver + 7) = 48 then Inr 0
      else Inl PARSE_BAD)"

definition parse_request_line ::
  "byte list \<Rightarrow> nat \<Rightarrow> nat \<Rightarrow> http_request \<Rightarrow> parse_error + http_request" where
  "parse_request_line b line eol req =
     (case memchr b line eol 32 of
        None \<Rightarrow> Inl PARSE_BAD
      | Some sp1 \<Rightarrow>
          if sp1 = line \<or> \<not> list_all is_tchar (bslice b line sp1) then Inl PARSE_BAD
          else (case memchr b (sp1 + 1) eol 32 of
             None \<Rightarrow> Inl PARSE_BAD
           | Some sp2 \<Rightarrow>
               if sp2 = sp1 + 1 then Inl PARSE_BAD
               else (case parse_request_target b (sp1 + 1) sp2
                            (req\<lparr>req_method := parse_method (bslice b line sp1)\<rparr>) of
                  Inl rc \<Rightarrow> Inl rc
                | Inr req' \<Rightarrow>
                    (case parse_version b (sp2 + 1) eol of
                       Inl rc \<Rightarrow> Inl rc
                     | Inr v \<Rightarrow> Inr (req'\<lparr>req_minor_version := v\<rparr>)))))"

section \<open>Header values\<close>

text \<open>
  The digit loop of \<open>parse_content_length\<close>, with its check that the next step does not
  exceed \<open>UINT32_MAX\<close> written as in the code (\<open>- 1\<close> is \<open>UINT32_MAX\<close>).
\<close>

fun content_length_loop :: "byte list \<Rightarrow> u32 \<Rightarrow> parse_error + u32" where
  "content_length_loop [] v = Inr v"
| "content_length_loop (c # cs) v =
     (if \<not> is_digit c then Inl PARSE_BAD
      else let d = ucast (c - 48) in
        if v > (- 1 - d) div 10 then Inl PARSE_BAD
        else content_length_loop cs (v * 10 + d))"

definition parse_content_length :: "byte list \<Rightarrow> parse_error + u32" where
  "parse_content_length p = (if p = [] then Inl PARSE_BAD else content_length_loop p 0)"

text \<open>One pass of the token loop of \<open>parse_connection\<close>: the trimmed token sets a flag.\<close>

definition trim_ows :: "byte list \<Rightarrow> byte list" where
  "trim_ows p = rev (dropWhile is_ows (rev (dropWhile is_ows p)))"

definition connection_token :: "byte list \<Rightarrow> u8 \<Rightarrow> u8" where
  "connection_token tok flags =
     (if length tok = 5 \<and> ascii_ieq tok (bytes ''close'') 5
        then flags OR HTTP_FLAG_CONNECTION_CLOSE
      else if length tok = 10 \<and> ascii_ieq tok (bytes ''keep-alive'') 10
        then flags OR HTTP_FLAG_CONNECTION_KEEP_ALIVE
      else flags)"

function parse_connection :: "byte list \<Rightarrow> u8 \<Rightarrow> u8" where
  "parse_connection p flags =
     (if p = [] then flags
      else let flags' = connection_token (trim_ows (takeWhile (\<lambda>c. c \<noteq> 44) p)) flags
           in case dropWhile (\<lambda>c. c \<noteq> 44) p of
                [] \<Rightarrow> flags'
              | _ # rest \<Rightarrow> parse_connection rest flags')"
  by pat_completeness auto
termination
proof (relation "measure (\<lambda>(p, flags). length p)", goal_cases)
  case (2 p flags x c rest)
  then show ?case
    using length_dropWhile_le [of "\<lambda>c. c \<noteq> 44" p] by simp
qed simp

declare parse_connection.simps [simp del]

definition is_host_char :: "byte \<Rightarrow> bool" where
  "is_host_char c = (97 \<le> c \<and> c \<le> 122 \<or> 65 \<le> c \<and> c \<le> 90 \<or> is_digit c \<or> c = 46 \<or> c = 45)"

definition validate_host_literal :: "byte list \<Rightarrow> bool" where
  "validate_host_literal p =
     (case memchr p 0 (length p) 93 of
        None \<Rightarrow> False
      | Some rb \<Rightarrow>
          if rb = 1 then False
          else let after = length p - (rb + 1) in
            if after = 0 then True
            else if p ! (rb + 1) \<noteq> 58 \<or> after < 2 then False
            else list_all is_digit (drop (rb + 2) p))"

definition validate_host_name :: "byte list \<Rightarrow> bool" where
  "validate_host_name p =
     (let colon = memchr p 0 (length p) 58;
          host_len = (case colon of Some i \<Rightarrow> i | None \<Rightarrow> length p)
      in if host_len = 0 then False
         else if \<not> list_all is_host_char (take host_len p) then False
         else (case colon of
                 None \<Rightarrow> True
               | Some i \<Rightarrow> if i + 1 \<ge> length p then False
                           else list_all is_digit (drop (i + 1) p)))"

definition validate_host :: "byte list \<Rightarrow> bool" where
  "validate_host p =
     (if p = [] then False
      else if \<not> list_all (\<lambda>c. 33 \<le> c \<and> c \<le> 126) p then False
      else if p ! 0 = 91 then validate_host_literal p
      else validate_host_name p)"

section \<open>Header lines\<close>

definition handle_header ::
  "byte list \<Rightarrow> byte list \<Rightarrow> nat \<Rightarrow> nat \<Rightarrow> http_request \<Rightarrow> u8 \<Rightarrow> parse_error + http_request \<times> u8" where
  "handle_header b name val val_end req seen =
     (if length name = 4 \<and> ascii_ieq name (bytes ''host'') 4 then
        if seen AND SEEN_HOST \<noteq> 0 then Inl PARSE_BAD
        else if \<not> validate_host (bslice b val val_end) then Inl PARSE_BAD
        else Inr (req\<lparr>req_host := mk_slice val val_end\<rparr>, seen OR SEEN_HOST)
      else if length name = 14 \<and> ascii_ieq name (bytes ''content-length'') 14 then
        if seen AND SEEN_CONTENT_LENGTH \<noteq> 0 then Inl PARSE_BAD
        else (case parse_content_length (bslice b val val_end) of
                Inl rc \<Rightarrow> Inl rc
              | Inr v \<Rightarrow> Inr (req\<lparr>req_content_length := v,
                              req_flags := req_flags req OR HTTP_FLAG_CONTENT_LENGTH\<rparr>,
                            seen OR SEEN_CONTENT_LENGTH))
      else if length name = 17 \<and> ascii_ieq name (bytes ''transfer-encoding'') 17 then
        Inr (req\<lparr>req_flags := req_flags req OR HTTP_FLAG_TRANSFER_ENCODING\<rparr>, seen)
      else if length name = 10 \<and> ascii_ieq name (bytes ''connection'') 10 then
        Inr (req\<lparr>req_flags := parse_connection (bslice b val val_end) (req_flags req)\<rparr>, seen)
      else Inr (req, seen))"

text \<open>The body of the header loop of \<open>parse\<close>, for the line \<open>[p, eol)\<close>.\<close>

definition header_line ::
  "byte list \<Rightarrow> nat \<Rightarrow> nat \<Rightarrow> http_request \<Rightarrow> u8 \<Rightarrow> parse_error + http_request \<times> u8" where
  "header_line b p eol req seen =
     (if is_ows (b ! p) then Inl PARSE_BAD
      else (case memchr b p eol 58 of
              None \<Rightarrow> Inl PARSE_BAD
            | Some colon \<Rightarrow>
                if colon = p \<or> \<not> list_all is_tchar (bslice b p colon) then Inl PARSE_BAD
                else let val = trim_left b (colon + 1) eol;
                         val_end = trim_right b val eol
                     in if \<not> list_all is_field_vchar (bslice b val val_end) then Inl PARSE_BAD
                        else handle_header b (bslice b p colon) val val_end req seen))"

lemma find_crlf_bounds:
  "find_crlf b p e = Inr eol \<Longrightarrow>
     p \<le> eol \<and> eol + 2 \<le> e \<and> b ! eol = CR \<and> b ! (eol + 1) = LF \<and> (\<forall>j. p \<le> j \<and> j < eol \<longrightarrow> b ! j \<noteq> CR)"
  by (auto simp: find_crlf_def memchr_Some_iff split: option.splits if_splits)

text \<open>
  The header loop from offset \<open>p\<close>; it returns the offset of the CR of the empty line, with
  the request and the set of headers seen.
\<close>

function parse_headers ::
  "byte list \<Rightarrow> nat \<Rightarrow> nat \<Rightarrow> http_request \<Rightarrow> u8 \<Rightarrow> parse_error + nat \<times> http_request \<times> u8" where
  "parse_headers b e p req seen =
     (case find_crlf b p e of
        Inl rc \<Rightarrow> Inl rc
      | Inr eol \<Rightarrow>
          if eol = p then Inr (eol, req, seen)
          else (case header_line b p eol req seen of
                  Inl rc \<Rightarrow> Inl rc
                | Inr (req', seen') \<Rightarrow> parse_headers b e (eol + 2) req' seen'))"
  by pat_completeness auto
termination
  by (relation "measure (\<lambda>(b, e, p, req, seen). e - p)") (auto dest!: find_crlf_bounds)

declare parse_headers.simps [simp del]

section \<open>The whole request\<close>

text \<open>The checks after the loop; the return value is \<open>(int32_t)req->header_bytes\<close>.\<close>

definition parse_finish ::
  "nat \<Rightarrow> nat \<Rightarrow> http_request \<Rightarrow> u8 \<Rightarrow> parse_error + nat \<times> http_request" where
  "parse_finish start eol req seen =
     (let req' = req\<lparr>req_header_block := mk_slice start eol,
                    req_header_bytes := word_of_nat (eol + 2)\<rparr>
      in if has_flag req' HTTP_FLAG_TRANSFER_ENCODING \<and> has_flag req' HTTP_FLAG_CONTENT_LENGTH
           then Inl PARSE_BAD
         else if req_minor_version req' = 1 \<and> seen AND SEEN_HOST = 0 then Inl PARSE_BAD
         else if has_flag req' HTTP_FLAG_TRANSFER_ENCODING then Inl PARSE_UNSUPPORTED
         else Inr (unat (req_header_bytes req'), req'))"

definition parse :: "byte list \<Rightarrow> nat \<Rightarrow> parse_error + nat \<times> http_request" where
  "parse b len =
     (case find_crlf b 0 len of
        Inl rc \<Rightarrow> Inl rc
      | Inr eol \<Rightarrow>
          (case parse_request_line b 0 eol http_request0 of
             Inl rc \<Rightarrow> Inl rc
           | Inr req \<Rightarrow>
               (case parse_headers b len (eol + 2) req 0 of
                  Inl rc \<Rightarrow> Inl rc
                | Inr (eol', req', seen) \<Rightarrow> parse_finish (eol + 2) eol' req' seen)))"

definition http_parse_request :: "byte list \<Rightarrow> nat \<Rightarrow> parse_error + nat \<times> http_request" where
  "http_parse_request b len =
     (if len = 0 then Inl PARSE_INCOMPLETE
      else if len > HTTP_PARSE_MAX_LEN then
        (case parse b HTTP_PARSE_MAX_LEN of
           Inl PARSE_INCOMPLETE \<Rightarrow> Inl PARSE_BAD
         | rc \<Rightarrow> rc)
      else parse b len)"

section \<open>Looking a header up again\<close>

text \<open>
  The loop of \<open>http_get_header\<close> over the header block. Its step is \<open>cr + 2\<close>, so it moves on
  even when the block does not end in a line end.
\<close>

function get_header_loop :: "byte list \<Rightarrow> nat \<Rightarrow> nat \<Rightarrow> byte list \<Rightarrow> http_slice option" where
  "get_header_loop b p e name =
     (if p < e then
        (case memchr b p e CR of
           None \<Rightarrow> None
         | Some cr \<Rightarrow>
             (case memchr b p cr 58 of
                None \<Rightarrow> None
              | Some colon \<Rightarrow>
                  if colon - p = length name \<and> ascii_ieq (bslice b p colon) name (length name)
                  then let val = trim_left b (colon + 1) cr; val_end = trim_right b val cr
                       in Some (mk_slice val val_end)
                  else get_header_loop b (cr + 2) e name))
      else None)"
  by pat_completeness auto
termination
  by (relation "measure (\<lambda>(b, p, e, name). e - p)") (auto dest: memchr_bounds)

declare get_header_loop.simps [simp del]

definition http_get_header :: "byte list \<Rightarrow> http_request \<Rightarrow> byte list \<Rightarrow> http_slice option" where
  "http_get_header b req name =
     get_header_loop b (unat (s_off (req_header_block req))) (slice_end (req_header_block req)) name"

section \<open>Evaluation\<close>

lemma ascii_ieq_numeral [evals]:
  "ascii_ieq (x # a) (y # b) (numeral k) = (ascii_lower x = ascii_lower y \<and> ascii_ieq a b (pred_numeral k))"
  "ascii_ieq [] b (numeral k) = False" "ascii_ieq a [] (numeral k) = False"
  by (simp_all add: numeral_eq_Suc)

declare http_parse_request_def [evals] parse_def [evals] HTTP_PARSE_MAX_LEN_def [evals]
  find_crlf_def [evals] parse_request_line_def [evals] parse_method_def [evals]
  parse_request_target_def [evals] target_path_start_def [evals] parse_version_def [evals]
  parse_headers.simps [evals] parse_finish_def [evals] header_line_def [evals]
  handle_header_def [evals] parse_connection.simps [evals] parse_content_length_def [evals]
  validate_host_def [evals] validate_host_literal_def [evals] validate_host_name_def [evals]
  is_host_char_def [evals] ascii_lower_def [evals] trim_ows_def [evals] connection_token_def [evals]
  is_tchar_def [evals] is_field_vchar_def [evals] is_digit_def [evals] is_target_char_def [evals]
  SEEN_HOST_def [evals] SEEN_CONTENT_LENGTH_def [evals] get_header_loop.simps [evals]
  http_get_header_def [evals]

text \<open>Two messages the witnesses use: \<open>GET / HTTP/1.0\<close>, and a 1.1 request with a query and a Host.\<close>

definition sample_get :: "byte list" where
  "sample_get = [71,69,84,32,47,32,72,84,84,80,47,49,46,48,13,10,13,10]"

definition sample_host :: "byte list" where
  "sample_host = [71,69,84,32,47,97,63,98,32,72,84,84,80,47,49,46,49,13,10,72,111,115,116,58,32,104,13,10,13,10]"

definition sample_get_request :: http_request where
  "sample_get_request = http_request0\<lparr>req_target := \<lparr>s_off = 4, s_len = 1\<rparr>,
     req_path := \<lparr>s_off = 4, s_len = 1\<rparr>, req_header_block := \<lparr>s_off = 16, s_len = 0\<rparr>,
     req_header_bytes := 18, req_method := METHOD_GET\<rparr>"

definition sample_host_request :: http_request where
  "sample_host_request = http_request0\<lparr>req_target := \<lparr>s_off = 4, s_len = 4\<rparr>,
     req_path := \<lparr>s_off = 4, s_len = 2\<rparr>, req_query := \<lparr>s_off = 7, s_len = 1\<rparr>,
     req_host := \<lparr>s_off = 25, s_len = 1\<rparr>, req_header_block := \<lparr>s_off = 19, s_len = 9\<rparr>,
     req_header_bytes := 30, req_method := METHOD_GET, req_minor_version := 1\<rparr>"

lemma sample_text:
  "sample_get = bytes ''GET / HTTP/1.0'' @ [CR, LF, CR, LF]"
  "sample_host = bytes ''GET /a?b HTTP/1.1'' @ [CR, LF] @ bytes ''Host: h'' @ [CR, LF, CR, LF]"
  by (simp_all add: sample_get_def sample_host_def bytes_def)

lemma length_samples [simp]: "length sample_get = 18" "length sample_host = 30"
  by (simp_all add: sample_get_def sample_host_def)

lemma sample_get_parse: "http_parse_request sample_get 18 = Inr (18, sample_get_request)"
  by (simp add: sample_get_def sample_get_request_def evals)

lemma sample_host_parse: "http_parse_request sample_host 30 = Inr (30, sample_host_request)"
  by (simp add: sample_host_def sample_host_request_def evals)

end
