(* ===== verification/Http_Parser_Facts.thy ===== *)
theory Http_Parser_Facts
  imports Http_Parser
begin

text \<open>
  Facts about the request parser: it reads the first \<open>len\<close> bytes only, a verdict is not
  changed by bytes that arrive later (an LF without a CR apart), every slice it stores lies inside
  the header section, the header section ends at the first empty line, and header lines leave the
  parts of the request line alone.
\<close>

section \<open>Reading inside the buffer\<close>

lemma find_crlf_append [slice_simps]: "e \<le> length b \<Longrightarrow> find_crlf (b @ x) p e = find_crlf b p e"
  by (auto simp: find_crlf_def slice_simps nth_append split: option.splits dest!: memchr_bounds)

lemma target_path_start_append [slice_simps]:
  "t < e \<Longrightarrow> e \<le> length b \<Longrightarrow> target_path_start (b @ x) t e = target_path_start b t e"
  by (simp add: target_path_start_def slice_simps nth_append)

lemma target_path_start_bounds:
  "target_path_start b t e = Inr (Some p) \<Longrightarrow> t < e \<Longrightarrow> t \<le> p \<and> p < e \<and> b ! p = 47"
  by (auto simp: target_path_start_def split: if_splits dest: memchr_bounds)

lemma parse_request_target_append [slice_simps]:
  assumes "t < e" and "e \<le> length b"
  shows "parse_request_target (b @ x) t e req = parse_request_target b t e req"
  using assms target_path_start_bounds [of b t e]
  by (auto simp: parse_request_target_def slice_simps split: sum.splits option.splits)

lemma parse_version_append [slice_simps]:
  "eol \<le> length b \<Longrightarrow> parse_version (b @ x) v eol = parse_version b v eol"
  by (auto simp: parse_version_def slice_simps nth_append)

lemma parse_request_line_append [slice_simps]:
  assumes "eol \<le> length b"
  shows "parse_request_line (b @ x) l eol req = parse_request_line b l eol req"
  using assms unfolding parse_request_line_def
  by (auto simp: slice_simps split: option.split sum.split dest!: memchr_bounds)

lemma handle_header_append [slice_simps]:
  "ve \<le> length b \<Longrightarrow> handle_header (b @ x) name v ve req seen = handle_header b name v ve req seen"
  unfolding handle_header_def by (simp only: slice_append_left)

lemma value_bounds:
  assumes "colon < eol"
  shows "colon < trim_left b (colon + 1) eol \<and> trim_left b (colon + 1) eol \<le> eol
    \<and> trim_left b (colon + 1) eol \<le> trim_right b (trim_left b (colon + 1) eol) eol
    \<and> trim_right b (trim_left b (colon + 1) eol) eol \<le> eol"
  using trim_left_bounds [of "colon + 1" eol b] trim_right_bounds [of _ eol b] assms by fastforce

lemma header_line_append [slice_simps]:
  assumes "p < eol" and "eol \<le> length b"
  shows "header_line (b @ x) p eol req seen = header_line b p eol req seen"
proof -
  have "trim_right b (trim_left b (colon + 1) eol) eol \<le> length b" if "colon < eol" for colon
    using value_bounds [OF that, of b] assms by linarith
  then show ?thesis
    using assms unfolding header_line_def
    by (auto simp: slice_simps nth_append Let_def split: option.split dest!: memchr_bounds)
qed

lemma parse_headers_append [slice_simps]:
  "e \<le> length b \<Longrightarrow> parse_headers (b @ x) e p req seen = parse_headers b e p req seen"
proof (induction b e p req seen rule: parse_headers.induct)
  case (1 b e p req seen)
  show ?case
  proof (cases "find_crlf b p e")
    case (Inl rc)
    with 1 show ?thesis by (simp add: parse_headers.simps slice_simps)
  next
    case (Inr eol)
    then have eol: "p \<le> eol" "eol \<le> length b" using find_crlf_bounds [OF Inr] 1 by auto
    have "parse_headers (b @ x) e (eol + 2) r s = parse_headers b e (eol + 2) r s"
      if "eol \<noteq> p" and "header_line b p eol req seen = Inr (r, s)" for r s
      using 1 Inr that by auto
    moreover have "header_line (b @ x) p eol req seen = header_line b p eol req seen"
      if "eol \<noteq> p"
      using eol that by (simp add: header_line_append)
    ultimately show ?thesis
      using Inr 1 by (auto simp: parse_headers.simps [of _ _ p] slice_simps split: sum.split)
  qed
qed

lemma parse_append:
  assumes "len \<le> length b"
  shows "parse (b @ x) len = parse b len"
proof (cases "find_crlf b 0 len")
  case (Inl rc)
  with assms show ?thesis by (simp add: parse_def slice_simps)
next
  case (Inr eol)
  then have "eol \<le> length b" using find_crlf_bounds [OF Inr] assms by simp
  with Inr assms show ?thesis by (auto simp: parse_def slice_simps split: sum.split)
qed

text \<open>
  C1. The parser never reads past the bytes it was given: its result on a buffer does not
  change whatever stands in memory after the first \<open>len\<close> bytes.
\<close>

theorem http_parse_request_no_overread:
  assumes "len \<le> length b"
  shows "http_parse_request (b @ x) len = http_parse_request b len"
  using assms by (simp add: http_parse_request_def parse_append HTTP_PARSE_MAX_LEN_def)

lemma http_parse_request_no_overread_witness:
  "http_parse_request (sample_get @ [0, 1]) 18 = http_parse_request sample_get 18"
  by (rule http_parse_request_no_overread) simp

section \<open>Verdicts are stable under later bytes\<close>

lemma find_crlf_Inr_iff:
  "find_crlf b p e = Inr eol \<longleftrightarrow> memchr b p e CR = Some eol \<and> eol + 1 \<noteq> e \<and> b ! (eol + 1) = LF"
  by (auto simp: find_crlf_def split: option.split)

lemma find_crlf_extend:
  assumes "find_crlf b p e = Inr eol" and "e \<le> e'"
  shows "find_crlf b p e' = Inr eol"
  using assms find_crlf_bounds [OF assms(1)] memchr_extend [of b p e CR eol e']
  by (simp add: find_crlf_Inr_iff)

text \<open>
  The header loop by cases and, for a run that succeeds, by induction on the lines it read.
\<close>

lemma parse_headers_elim [consumes 1, case_names bad stop reject step]:
  assumes "parse_headers b e p req seen = R"
    and "\<And>rc. find_crlf b p e = Inl rc \<Longrightarrow> R = Inl rc \<Longrightarrow> P"
    and "find_crlf b p e = Inr p \<Longrightarrow> R = Inr (p, req, seen) \<Longrightarrow> P"
    and "\<And>eol rc. find_crlf b p e = Inr eol \<Longrightarrow> p < eol \<Longrightarrow> header_line b p eol req seen = Inl rc \<Longrightarrow>
          R = Inl rc \<Longrightarrow> P"
    and "\<And>eol r s. find_crlf b p e = Inr eol \<Longrightarrow> p < eol \<Longrightarrow> header_line b p eol req seen = Inr (r, s) \<Longrightarrow>
          parse_headers b e (eol + 2) r s = R \<Longrightarrow> P"
  shows P
proof (cases "find_crlf b p e")
  case (Inl rc)
  with assms(1,2) show P by (simp add: parse_headers.simps [of b e p])
next
  case (Inr eol)
  show P
  proof (cases "eol = p")
    case True
    with Inr assms(1,3) show P by (simp add: parse_headers.simps [of b e p])
  next
    case False
    with find_crlf_bounds [OF Inr] have lt: "p < eol" by simp
    show P
    proof (cases "header_line b p eol req seen")
      case (Inl rc)
      with \<open>find_crlf b p e = Inr eol\<close> False assms(1) have "R = Inl rc"
        by (simp add: parse_headers.simps [of b e p])
      with Inl lt \<open>find_crlf b p e = Inr eol\<close> show P by (intro assms(4))
    next
      case (Inr rs)
      with \<open>find_crlf b p e = Inr eol\<close> False assms(1)
      have "parse_headers b e (eol + 2) (fst rs) (snd rs) = R"
        by (simp add: parse_headers.simps [of b e p] split: prod.splits)
      with Inr lt \<open>find_crlf b p e = Inr eol\<close> show P by (intro assms(5)) auto
    qed
  qed
qed

lemma parse_headers_stop: "find_crlf b p e = Inr p \<Longrightarrow> parse_headers b e p req seen = Inr (p, req, seen)"
  by (simp add: parse_headers.simps [of b e p])

lemma parse_headers_step:
  "find_crlf b p e = Inr eol \<Longrightarrow> p < eol \<Longrightarrow> header_line b p eol req seen = Inr (r, s) \<Longrightarrow>
     parse_headers b e p req seen = parse_headers b e (eol + 2) r s"
  by (simp add: parse_headers.simps [of b e p])

lemma parse_headers_induct [consumes 1, case_names stop step]:
  assumes "parse_headers b e p req seen = Inr r"
    and stop: "\<And>p req seen. find_crlf b p e = Inr p \<Longrightarrow> Q p req seen (p, req, seen)"
    and step: "\<And>p req seen eol req' seen' r. find_crlf b p e = Inr eol \<Longrightarrow> p < eol \<Longrightarrow>
      header_line b p eol req seen = Inr (req', seen') \<Longrightarrow>
      parse_headers b e (eol + 2) req' seen' = Inr r \<Longrightarrow> Q (eol + 2) req' seen' r \<Longrightarrow> Q p req seen r"
  shows "Q p req seen r"
  using assms(1)
proof (induction "e - p" arbitrary: p req seen rule: less_induct)
  case less
  from less.prems show ?case
  proof (cases rule: parse_headers_elim)
    case stop
    then show ?thesis by (auto intro: assms(2))
  next
    case (step eol r' s')
    moreover from this have "e - (eol + 2) < e - p" using find_crlf_bounds [of b p e eol] by linarith
    ultimately show ?thesis using less.hyps by (blast intro: assms(3))
  qed simp_all
qed

lemma parse_headers_extend:
  assumes "parse_headers b e p req seen = Inr r" and "e \<le> e'"
  shows "parse_headers b e' p req seen = Inr r"
  using assms(1)
proof (induction rule: parse_headers_induct)
  case (stop p req seen)
  then show ?case by (simp add: parse_headers_stop find_crlf_extend [OF _ assms(2)])
next
  case (step p req seen eol req' seen' r)
  then show ?case by (simp add: parse_headers_step [OF find_crlf_extend [OF _ assms(2)]])
qed

text \<open>The verdicts that are final: a request, or one the server does not support.\<close>

definition final_verdict :: "parse_error + 'a \<Rightarrow> bool" where
  "final_verdict r = (case r of Inl rc \<Rightarrow> rc = PARSE_UNSUPPORTED | Inr _ \<Rightarrow> True)"

lemma content_length_loop_error: "content_length_loop p v = Inl rc \<Longrightarrow> rc = PARSE_BAD"
  by (induction p v rule: content_length_loop.induct) (auto simp: Let_def split: if_splits)

lemma header_line_error: "header_line b p eol req seen = Inl rc \<Longrightarrow> rc = PARSE_BAD"
  unfolding header_line_def handle_header_def parse_content_length_def
  by (auto simp: Let_def split: if_splits option.splits sum.splits dest: content_length_loop_error)

lemma find_crlf_error: "find_crlf b p e = Inl rc \<Longrightarrow> rc \<noteq> PARSE_UNSUPPORTED"
  by (auto simp: find_crlf_def split: option.splits if_splits)

lemma parse_headers_error: "parse_headers b e p req seen = Inl rc \<Longrightarrow> rc \<noteq> PARSE_UNSUPPORTED"
proof (induction b e p req seen rule: parse_headers.induct)
  case (1 b e p req seen)
  from "1.prems" show ?case
  proof (cases rule: parse_headers_elim)
    case (step eol r s)
    with 1 show ?thesis by auto
  qed (auto dest: find_crlf_error header_line_error)
qed

lemma parse_version_error: "parse_version b v eol = Inl rc \<Longrightarrow> rc = PARSE_BAD"
  by (simp add: parse_version_def split: if_splits)

lemma target_path_start_error: "target_path_start b t e = Inl rc \<Longrightarrow> rc = PARSE_BAD"
  by (simp add: target_path_start_def split: if_splits)

lemma parse_request_target_error: "parse_request_target b t e req = Inl rc \<Longrightarrow> rc = PARSE_BAD"
  unfolding parse_request_target_def
  by (auto split: sum.splits option.splits if_splits dest: target_path_start_error)

lemma parse_request_line_error: "parse_request_line b l eol req = Inl rc \<Longrightarrow> rc = PARSE_BAD"
  unfolding parse_request_line_def
  by (auto split: option.splits sum.splits if_splits
      dest: parse_version_error parse_request_target_error)

text \<open>What a final verdict of \<open>parse\<close> went through.\<close>

lemma parse_final_iff:
  assumes "final_verdict r"
  shows "parse b len = r \<longleftrightarrow>
    (\<exists>eol req eol' req' seen. find_crlf b 0 len = Inr eol
       \<and> parse_request_line b 0 eol http_request0 = Inr req
       \<and> parse_headers b len (eol + 2) req 0 = Inr (eol', req', seen)
       \<and> parse_finish (eol + 2) eol' req' seen = r)"
  using assms
  by (auto simp: parse_def final_verdict_def split: sum.splits
      dest: find_crlf_error parse_headers_error parse_request_line_error)

lemma parse_extend:
  assumes "parse b len = r" and "final_verdict r" and "len \<le> len'"
  shows "parse b len' = r"
proof -
  from assms(1) obtain eol req eol' req' seen where *: "find_crlf b 0 len = Inr eol"
    "parse_request_line b 0 eol http_request0 = Inr req"
    "parse_headers b len (eol + 2) req 0 = Inr (eol', req', seen)"
    "parse_finish (eol + 2) eol' req' seen = r"
    unfolding parse_final_iff [OF assms(2)] by blast
  note find_crlf_extend [OF *(1) assms(3)] parse_headers_extend [OF *(3) assms(3)]
  with * show ?thesis unfolding parse_final_iff [OF assms(2)] by blast
qed

text \<open>
  A request found malformed stays malformed, too, unless the reason is an LF without a CR before it:
  \<open>find_crlf\<close> sees that only as long as no CR has arrived.
\<close>

definition lone_lf :: "byte list \<Rightarrow> nat \<Rightarrow> bool" where
  "lone_lf b len = (\<exists>i < len. b ! i = LF \<and> (i = 0 \<or> b ! (i - 1) \<noteq> CR))"

lemma lone_lf_mono: "lone_lf b n \<Longrightarrow> n \<le> m \<Longrightarrow> lone_lf b m"
  by (auto simp: lone_lf_def intro: less_le_trans)

lemma lone_lf_eval: "lone_lf b len = list_ex (\<lambda>i. b ! i = LF \<and> (i = 0 \<or> b ! (i - 1) \<noteq> CR)) [0..<len]"
  by (auto simp: lone_lf_def list_ex_iff)

text \<open>A line starts at the start of the buffer or after an LF.\<close>

definition line_start :: "byte list \<Rightarrow> nat \<Rightarrow> bool" where
  "line_start b p = (p = 0 \<or> b ! (p - 1) = LF)"

lemma find_crlf_line_start: "find_crlf b p e = Inr eol \<Longrightarrow> line_start b (eol + 2)"
  using find_crlf_bounds [of b p e eol] by (simp add: line_start_def)

lemma find_crlf_bad_extend:
  assumes bad: "find_crlf b p e = Inl PARSE_BAD" and lf: "\<not> lone_lf b e" and start: "line_start b p" and "e \<le> e'"
  shows "find_crlf b p e' = Inl PARSE_BAD"
proof (cases "memchr b p e CR")
  case (Some cr)
  with bad have "cr + 1 \<noteq> e" "b ! (cr + 1) \<noteq> LF" by (auto simp: find_crlf_def split: if_splits)
  moreover have "cr < e" using memchr_bounds [OF Some] by simp
  ultimately show ?thesis using memchr_extend [OF Some assms(4)] assms(4) by (simp add: find_crlf_def)
next
  case None
  with bad obtain i where lf_at: "memchr b p e LF = Some i" by (auto simp: find_crlf_def split: if_splits)
  note i = memchr_bounds [OF lf_at]
  with lf have cr: "0 < i" "b ! (i - 1) = CR" by (auto simp: lone_lf_def)
  have "i = p"
  proof (rule ccontr)
    assume "i \<noteq> p"
    then have "p \<le> i - 1" "i - 1 < e" using i by auto
    with None cr(2) show False by (auto simp: memchr_None_iff)
  qed
  with start cr show ?thesis by (simp add: line_start_def)
qed

lemma parse_headers_bad_extend:
  assumes "parse_headers b e p req seen = Inl PARSE_BAD" and "\<not> lone_lf b e" and "line_start b p" and "e \<le> e'"
  shows "parse_headers b e' p req seen = Inl PARSE_BAD"
  using assms
proof (induction b e p req seen rule: parse_headers.induct)
  case (1 b e p req seen)
  note ext = find_crlf_extend [OF _ "1.prems"(4)]
  from "1.prems"(1) show ?case
  proof (cases rule: parse_headers_elim)
    case (bad rc)
    then show ?thesis using find_crlf_bad_extend [OF _ "1.prems"(2-4)] by (simp add: parse_headers.simps [of b e'])
  next
    case (reject eol rc)
    then show ?thesis using ext [OF reject(1)] by (simp add: parse_headers.simps [of b e'])
  next
    case (step eol r s)
    have "parse_headers b e' (eol + 2) r s = Inl PARSE_BAD"
      by (rule "1.IH") (use step find_crlf_line_start [OF step(1)] "1.prems"(2,4) in auto)
    then show ?thesis using parse_headers_step [OF ext [OF step(1)] step(2,3)] by simp
  qed simp
qed

lemma parse_bad_extend:
  assumes "parse b len = Inl PARSE_BAD" and "\<not> lone_lf b len" and "len \<le> len'"
  shows "parse b len' = Inl PARSE_BAD"
proof (cases "find_crlf b 0 len")
  case (Inl rc)
  then have "find_crlf b 0 len' = Inl PARSE_BAD"
    using assms find_crlf_bad_extend [of b 0 len len'] by (simp add: parse_def line_start_def)
  then show ?thesis by (simp add: parse_def)
next
  case (Inr eol)
  note eol = find_crlf_extend [OF Inr assms(3)] and start = find_crlf_line_start [OF Inr]
  show ?thesis
  proof (cases "parse_request_line b 0 eol http_request0")
    case (Inl rc)
    then show ?thesis using assms(1) \<open>find_crlf b 0 len = Inr eol\<close> eol by (simp add: parse_def)
  next
    case (Inr req)
    show ?thesis
    proof (cases "parse_headers b len (eol + 2) req 0")
      case bad: (Inl rc)
      then have "rc = PARSE_BAD" using assms(1) \<open>find_crlf b 0 len = Inr eol\<close> Inr by (simp add: parse_def)
      from parse_headers_bad_extend [OF bad [unfolded this] assms(2) start assms(3)]
      show ?thesis using eol Inr by (simp add: parse_def)
    next
      case ok: (Inr r)
      then show ?thesis using assms(1) \<open>find_crlf b 0 len = Inr eol\<close> Inr eol parse_headers_extend [OF ok assms(3)]
        by (simp add: parse_def split: prod.splits)
    qed
  qed
qed

text \<open>
  C2. Bytes that arrive later never change a verdict other than "incomplete": once the first \<open>len\<close>
  bytes make a complete request, one with a transfer coding the server does not support, or a malformed
  one, every longer read of the same stream gives the same verdict, the same header length and the same
  request. The one exception is a malformed request with an LF that has no CR before it
  (\<open>lone_lf\<close>), whose verdict does depend on how the reads split the stream: see
  \<open>lone_lf_verdict_depends_on_reads\<close> below.
\<close>

theorem http_parse_request_stable:
  assumes "http_parse_request b len = r" and "r \<noteq> Inl PARSE_INCOMPLETE"
    and "r = Inl PARSE_BAD \<longrightarrow> \<not> lone_lf b len" and "len \<le> len'"
  shows "http_parse_request b len' = r"
proof -
  let ?cap = "\<lambda>n. if n > HTTP_PARSE_MAX_LEN then HTTP_PARSE_MAX_LEN else n"
  have len: "len \<noteq> 0" using assms(1,2) by (cases "len = 0") (simp_all add: http_parse_request_def)
  have cap: "?cap len \<le> ?cap len'" "?cap len \<le> len" using assms(4) by auto
  consider (capped) "HTTP_PARSE_MAX_LEN < len" | (same) "len \<le> HTTP_PARSE_MAX_LEN" by linarith
  then show ?thesis
  proof cases
    case capped
    then show ?thesis using assms(1,4) by (simp add: http_parse_request_def)
  next
    case same
    then have parse: "parse b len = r" using assms(1) len by (simp add: http_parse_request_def)
    have "parse b (?cap len') = r"
    proof (cases "r = Inl PARSE_BAD")
      case True
      then show ?thesis using parse_bad_extend [of b len "?cap len'"] parse assms(3,4) same by simp
    next
      case False
      then have "final_verdict r" using assms(2)
        by (cases r) (auto simp: final_verdict_def intro: parse_error.exhaust)
      then show ?thesis using parse_extend [of b len r "?cap len'"] parse assms(4) same by simp
    qed
    then show ?thesis using assms(2,4) len
      by (auto simp: http_parse_request_def split: sum.splits parse_error.splits)
  qed
qed

text \<open>A complete request, and a malformed one: \<open>GET x HTTP/1.0\<close>.\<close>

lemma http_parse_request_stable_witness:
  "http_parse_request sample_get 100 = Inr (18, sample_get_request)
    \<and> http_parse_request (bytes ''GET x HTTP/1.0'' @ [CR, LF, CR, LF]) 18 = Inl PARSE_BAD"
proof
  show "http_parse_request sample_get 100 = Inr (18, sample_get_request)"
    by (rule http_parse_request_stable [OF sample_get_parse]) simp_all
  let ?b = "bytes ''GET x HTTP/1.0'' @ [CR, LF, CR, LF]"
  have bad: "http_parse_request ?b 16 = Inl PARSE_BAD" by (simp add: bytes_def evals)
  have "\<not> lone_lf ?b 16" by (simp add: lone_lf_eval bytes_def upt_rec [of 0] upt_rec [of "Suc 0"] flip: numeral_2_eq_2)
  then show "http_parse_request ?b 18 = Inl PARSE_BAD" by (intro http_parse_request_stable [OF bad]) simp_all
qed

section \<open>Where the slices lie\<close>

text \<open>All slices of a request end at or before offset \<open>n\<close>.\<close>

definition req_within :: "nat \<Rightarrow> http_request \<Rightarrow> bool" where
  "req_within n r = (slice_end (req_target r) \<le> n \<and> slice_end (req_path r) \<le> n
     \<and> slice_end (req_query r) \<le> n \<and> slice_end (req_host r) \<le> n
     \<and> slice_end (req_header_block r) \<le> n)"

lemma req_within_mono: "req_within m r \<Longrightarrow> m \<le> n \<Longrightarrow> req_within n r"
  by (auto simp: req_within_def)

lemma req_within_0 [simp]: "req_within n http_request0"
  by (simp add: req_within_def http_request0_def)

lemma parse_request_target_within:
  assumes "parse_request_target b t e req = Inr r" and "t < e" and "e < 65536"
    and "req_within e req"
  shows "req_within e r"
  using assms target_path_start_bounds [of b t e]
  by (auto simp: parse_request_target_def req_within_def slice_simps
      split: sum.splits option.splits if_splits dest!: memchr_bounds)

lemma parse_request_line_Inr:
  assumes "parse_request_line b l eol req = Inr r"
  obtains sp1 sp2 r' v where "memchr b l eol 32 = Some sp1" "sp1 \<noteq> l"
    "list_all is_tchar (bslice b l sp1)" "memchr b (sp1 + 1) eol 32 = Some sp2" "sp2 \<noteq> sp1 + 1"
    "parse_request_target b (sp1 + 1) sp2
       (req\<lparr>req_method := parse_method (bslice b l sp1)\<rparr>) = Inr r'"
    "parse_version b (sp2 + 1) eol = Inr v" "r = r'\<lparr>req_minor_version := v\<rparr>"
proof -
  from assms obtain sp1 where sp1: "memchr b l eol 32 = Some sp1" "sp1 \<noteq> l"
    "list_all is_tchar (bslice b l sp1)"
    unfolding parse_request_line_def by (simp split: option.splits if_splits)
  from assms this obtain sp2 where sp2: "memchr b (sp1 + 1) eol 32 = Some sp2" "sp2 \<noteq> sp1 + 1"
    unfolding parse_request_line_def by (simp split: option.splits if_splits)
  obtain r' where r': "parse_request_target b (sp1 + 1) sp2
       (req\<lparr>req_method := parse_method (bslice b l sp1)\<rparr>) = Inr r'"
    using assms sp1 sp2 unfolding parse_request_line_def by (simp split: sum.splits)
  obtain v where v: "parse_version b (sp2 + 1) eol = Inr v"
    using assms sp1 sp2 r' unfolding parse_request_line_def by (simp split: sum.splits)
  have "r = r'\<lparr>req_minor_version := v\<rparr>"
    using assms sp1 sp2 r' v unfolding parse_request_line_def by simp
  with sp1 sp2 r' v that show ?thesis by blast
qed

lemma parse_request_line_within:
  assumes "parse_request_line b l eol http_request0 = Inr r" and "eol < 65536"
  shows "req_within eol r"
proof -
  from assms(1) obtain sp1 sp2 v r' where sp: "memchr b l eol 32 = Some sp1"
      "memchr b (sp1 + 1) eol 32 = Some sp2" "sp2 \<noteq> sp1 + 1"
    and t: "parse_request_target b (sp1 + 1) sp2
              (http_request0\<lparr>req_method := parse_method (bslice b l sp1)\<rparr>) = Inr r'"
    and r: "r = r'\<lparr>req_minor_version := v\<rparr>"
    by (rule parse_request_line_Inr)
  from sp memchr_bounds [OF sp(1)] memchr_bounds [OF sp(2)] assms(2)
  have "sp1 + 1 < sp2" "sp2 < eol" by auto
  moreover have "req_within sp2 (http_request0\<lparr>req_method := parse_method (bslice b l sp1)\<rparr>)"
    by (simp add: req_within_def http_request0_def)
  ultimately have "req_within sp2 r'"
    using parse_request_target_within [OF t] assms(2) by linarith
  with \<open>sp2 < eol\<close> have "req_within eol r'" by (auto elim: req_within_mono)
  then show ?thesis unfolding r by (simp add: req_within_def)
qed

lemma header_line_Inr:
  assumes "header_line b p eol req seen = Inr (r, s)"
  obtains colon where "memchr b p eol 58 = Some colon"
    and "handle_header b (bslice b p colon) (trim_left b (colon + 1) eol)
           (trim_right b (trim_left b (colon + 1) eol) eol) req seen = Inr (r, s)"
proof (cases "memchr b p eol 58")
  case None
  with assms show ?thesis by (simp add: header_line_def split: if_splits)
next
  case (Some colon)
  with assms that show ?thesis by (simp add: header_line_def Let_def split: if_splits)
qed

lemma header_line_within:
  assumes "header_line b p eol req seen = Inr (r, s)" and "p < eol" and "eol < 65536"
    and "req_within p req"
  shows "req_within eol r"
proof -
  from assms(1) obtain colon where c: "memchr b p eol 58 = Some colon"
    and h: "handle_header b (bslice b p colon) (trim_left b (colon + 1) eol)
              (trim_right b (trim_left b (colon + 1) eol) eol) req seen = Inr (r, s)"
    by (rule header_line_Inr)
  from memchr_bounds [OF c] have "colon < eol" by simp
  note v = value_bounds [OF this, of b]
  from h v assms(2-) show ?thesis
    unfolding handle_header_def
    by (auto simp: req_within_def slice_end_mk_slice split: if_splits sum.splits)
qed

lemma parse_headers_within:
  assumes "parse_headers b e p req seen = Inr (eol, r, s)"
    and "req_within p req" and "e < 65538"
  shows "p \<le> eol \<and> find_crlf b eol e = Inr eol \<and> req_within eol r"
  using assms(1,2)
proof (induction p req seen "(eol, r, s)" rule: parse_headers_induct)
  case stop
  then show ?case by simp
next
  case (step p req seen eol' req' seen')
  from find_crlf_bounds [OF step(1)] assms(3) have "eol' < 65536" by simp
  with step have "req_within eol' req'" by (auto intro: header_line_within)
  then have "req_within (eol' + 2) req'" by (rule req_within_mono) simp
  with step show ?case by auto
qed

lemma parse_finish_Inr:
  assumes "parse_finish start eol req seen = Inr (n, r)" and "eol + 2 < 65536"
  shows "n = eol + 2" "unat (req_header_bytes r) = n"
    "r = req\<lparr>req_header_block := mk_slice start eol, req_header_bytes := word_of_nat (eol + 2)\<rparr>"
    "\<not> has_flag r HTTP_FLAG_TRANSFER_ENCODING"
    "req_minor_version r = 1 \<Longrightarrow> seen AND SEEN_HOST \<noteq> 0"
  using assms unat_of_nat_16 [OF assms(2)]
  by (auto simp: parse_finish_def Let_def has_flag_def simp del: of_nat_add split: if_splits)

text \<open>What an accepted request went through, in one rule.\<close>

lemma http_parse_request_elim:
  assumes "http_parse_request b len = Inr (n, r)"
  obtains len' eol req eol' req' seen
  where "len' = min len HTTP_PARSE_MAX_LEN" "find_crlf b 0 len' = Inr eol"
    "parse_request_line b 0 eol http_request0 = Inr req"
    "parse_headers b len' (eol + 2) req 0 = Inr (eol', req', seen)"
    "parse_finish (eol + 2) eol' req' seen = Inr (n, r)"
proof -
  let ?len = "min len HTTP_PARSE_MAX_LEN"
  have "parse b ?len = Inr (n, r)"
    using assms by (auto simp: http_parse_request_def min_def split: if_splits sum.splits parse_error.splits)
  then show ?thesis
    using that [of ?len] by (auto simp: parse_final_iff [of "Inr (n, r)"] final_verdict_def)
qed

text \<open>The offsets an accepted request rests on.\<close>

lemma http_parse_request_offsets:
  assumes "http_parse_request b len = Inr (n, r)"
  obtains eol eol' req req' seen where
    "find_crlf b 0 (min len 65535) = Inr eol"
    "parse_request_line b 0 eol http_request0 = Inr req"
    "parse_headers b (min len 65535) (eol + 2) req 0 = Inr (eol', req', seen)"
    "parse_finish (eol + 2) eol' req' seen = Inr (n, r)"
    "n = eol' + 2" "eol + 2 \<le> eol'" "n \<le> min len 65535" "req_within eol' req'" "req_within eol req"
    "find_crlf b eol' (min len 65535) = Inr eol'"
proof -
  from assms obtain eol req eol' req' seen where *:
    "find_crlf b 0 (min len 65535) = Inr eol"
    "parse_request_line b 0 eol http_request0 = Inr req"
    "parse_headers b (min len 65535) (eol + 2) req 0 = Inr (eol', req', seen)"
    "parse_finish (eol + 2) eol' req' seen = Inr (n, r)"
    by (rule http_parse_request_elim) (simp add: HTTP_PARSE_MAX_LEN_def)
  from find_crlf_bounds [OF *(1)] have "eol < 65536" by simp
  with *(2) have w: "req_within eol req" by (rule parse_request_line_within)
  then have "req_within (eol + 2) req" by (rule req_within_mono) simp
  with parse_headers_within [OF *(3)]
  have h: "eol + 2 \<le> eol'" "find_crlf b eol' (min len 65535) = Inr eol'" "req_within eol' req'"
    by simp_all
  from find_crlf_bounds [OF h(2)] have le: "eol' + 2 \<le> min len 65535" by simp
  then have n: "n = eol' + 2" using parse_finish_Inr(1) [OF *(4)] by simp
  then have "n \<le> min len 65535" using le by simp
  from that [OF * n h(1) this h(3) w h(2)] show ?thesis .
qed

text \<open>
  C3. Every offset of an accepted request lies inside the bytes that were parsed. The return
  value is the stored header length, the header section does not exceed the input or
  \<open>UINT16_MAX\<close>, no \<open>uint16_t\<close> cast has truncated an offset, and target, path, query, host
  and header block all end inside the header section, which ends in an empty line.
\<close>

theorem http_parse_request_bounds:
  assumes "http_parse_request b len = Inr (n, r)"
  shows "n = unat (req_header_bytes r) \<and> n \<le> len \<and> n \<le> 65535 \<and> 4 \<le> n \<and> req_within n r
    \<and> slice_end (req_header_block r) = n - 2 \<and> b ! (n - 2) = CR \<and> b ! (n - 1) = LF"
proof -
  from assms obtain eol eol' req req' seen where
    f: "parse_finish (eol + 2) eol' req' seen = Inr (n, r)" and n: "n = eol' + 2"
    and le: "eol + 2 \<le> eol'" "n \<le> min len 65535" and w: "req_within eol' req'"
    and c: "find_crlf b eol' (min len 65535) = Inr eol'"
    by (rule http_parse_request_offsets)
  from n le have lt: "eol' + 2 < 65536" by simp
  note fin = parse_finish_Inr [OF f lt]
  have "slice_end (mk_slice (eol + 2) eol') = eol'" using le lt by (simp add: slice_end_mk_slice)
  with fin(3) w n have "req_within n r" "slice_end (req_header_block r) = n - 2"
    by (simp_all add: req_within_def)
  with fin(2) n le find_crlf_bounds [OF c] show ?thesis by simp
qed

lemma http_parse_request_bounds_witness:
  "req_within 18 sample_get_request \<and> slice_end (req_header_block sample_get_request) = 16"
  using http_parse_request_bounds [OF sample_get_parse] by simp

section \<open>Framing\<close>

text \<open>Inside the header lines no line end is followed by another one.\<close>

lemma parse_headers_no_blank:
  assumes "parse_headers b e p req seen = Inr (eol, r, s)"
  shows "\<forall>i. p \<le> i \<and> i + 2 < eol \<and> b ! i = CR \<longrightarrow> b ! (i + 2) \<noteq> CR"
  using assms
proof (induction p req seen "(eol, r, s)" rule: parse_headers_induct)
  case stop
  then show ?case by auto
next
  case (step p req seen m req' seen')
  note m = find_crlf_bounds [OF step(1)]
  have next_line: "b ! (m + 2) \<noteq> CR" if "m + 2 < eol"
  proof
    assume "b ! (m + 2) = CR"
    with step(4) that show False
      by (cases rule: parse_headers_elim) (use find_crlf_bounds [of b "m + 2" e] in fastforce)+
  qed
  show ?case
  proof (intro allI impI)
    fix i
    assume i: "p \<le> i \<and> i + 2 < eol \<and> b ! i = CR"
    then consider "i < m" | "i = m" | "i = m + 1" | "m + 2 \<le> i" by linarith
    then show "b ! (i + 2) \<noteq> CR"
    proof cases
      case 4
      with i step(5) show ?thesis by blast
    qed (use i m next_line in auto)
  qed
qed

lemma parse_headers_prev_line:
  assumes "parse_headers b e p req seen = Inr (eol, r, s)"
    and "2 \<le> p" "b ! (p - 2) = CR" "b ! (p - 1) = LF"
  shows "b ! (eol - 2) = CR \<and> b ! (eol - 1) = LF"
  using assms
proof (induction p req seen "(eol, r, s)" rule: parse_headers_induct)
  case stop
  then show ?case by simp
next
  case (step p req seen m req' seen')
  then show ?case using find_crlf_bounds [OF step(1)] by simp
qed

lemma bslice4:
  assumes "k + 4 \<le> length b"
  shows "bslice b k (k + 4) = [b ! k, b ! (k + 1), b ! (k + 2), b ! (k + 3)]"
  using assms by (simp add: bslice_Cons [of k] bslice_Cons [of "Suc k"] bslice_Cons [of "Suc (Suc k)"]
      bslice_Cons [of "Suc (Suc (Suc k))"] numeral_eq_Suc)

text \<open>
  The header section of an accepted request ends at the first empty line of the input:
  its last four bytes are CRLF CRLF, and no CRLF CRLF ends earlier. The length the server
  skips before it reads the next pipelined request is therefore the one RFC 9112 prescribes.
\<close>

theorem http_parse_request_first_blank_line:
  assumes "http_parse_request b len = Inr (n, r)" and "len \<le> length b"
  shows "bslice b (n - 4) n = [CR, LF, CR, LF]
    \<and> (\<forall>k. 4 \<le> k \<and> k < n \<longrightarrow> bslice b (k - 4) k \<noteq> [CR, LF, CR, LF])"
proof -
  from assms(1) obtain eol eol' req req' seen where
    c: "find_crlf b 0 (min len 65535) = Inr eol"
    and h: "parse_headers b (min len 65535) (eol + 2) req 0 = Inr (eol', req', seen)"
    and n: "n = eol' + 2" and le: "eol + 2 \<le> eol'" "n \<le> min len 65535"
    and c': "find_crlf b eol' (min len 65535) = Inr eol'"
    by (rule http_parse_request_offsets)
  note first = find_crlf_bounds [OF c] and last = find_crlf_bounds [OF c']
  have prev: "b ! (eol' - 2) = CR \<and> b ! (eol' - 1) = LF"
    using parse_headers_prev_line [OF h] first by simp
  have at: "n - 4 = eol' - 2" "eol' - 2 + 4 = n" "eol' - 2 + 1 = eol' - 1" "eol' - 2 + 2 = eol'"
    "eol' - 2 + 3 = eol' + 1" "n \<le> length b"
    using n le assms(2) by auto
  from bslice4 [of "eol' - 2" b] have "bslice b (n - 4) n = [CR, LF, CR, LF]"
    using prev last unfolding at by (simp add: at)
  moreover have "bslice b i (i + 4) \<noteq> [CR, LF, CR, LF]" if "i + 4 < n" for i
  proof
    assume "bslice b i (i + 4) = [CR, LF, CR, LF]"
    then have cr: "b ! i = CR" "b ! (i + 2) = CR"
      using bslice4 [of i b] that n le assms(2) by simp_all
    then consider "i = eol" | "i = eol + 1" | "eol + 2 \<le> i" using first by force
    then show False
    proof cases
      case 1
      from h cr(2) that n 1 show False
        by (cases rule: parse_headers_elim)
          (use find_crlf_bounds [of b "eol + 2" "min len 65535"] in fastforce)+
    next
      case 2
      with cr(1) first show False by simp
    next
      case 3
      with parse_headers_no_blank [OF h] cr that n show False by auto
    qed
  qed
  then have "bslice b (k - 4) k \<noteq> [CR, LF, CR, LF]" if "4 \<le> k \<and> k < n" for k
    using that by (metis le_add_diff_inverse2)
  ultimately show ?thesis by blast
qed

lemma http_parse_request_first_blank_line_witness:
  "bslice sample_host 26 30 = [CR, LF, CR, LF] \<and> bslice sample_host 15 19 \<noteq> [CR, LF, CR, LF]"
  using http_parse_request_first_blank_line [OF sample_host_parse]
  by (auto dest: spec [of _ 19])

section \<open>What header lines leave alone\<close>

definition same_request_line :: "http_request \<Rightarrow> http_request \<Rightarrow> bool" where
  "same_request_line r r' = (req_target r = req_target r' \<and> req_path r = req_path r'
     \<and> req_query r = req_query r' \<and> req_method r = req_method r'
     \<and> req_minor_version r = req_minor_version r')"

definition host_seen_valid :: "byte list \<Rightarrow> http_request \<Rightarrow> u8 \<Rightarrow> bool" where
  "host_seen_valid b r seen = (seen AND SEEN_HOST = 0 \<or> validate_host (slice_of b (req_host r)))"

lemma handle_header_keeps:
  assumes "handle_header b name v ve req seen = Inr (r, s)" and "v \<le> ve" and "ve < 65536"
    and "host_seen_valid b req seen"
  shows "same_request_line req r \<and> host_seen_valid b r s"
  using assms unfolding handle_header_def
  by (auto simp: same_request_line_def host_seen_valid_def slice_of_mk_slice flag_simps
      SEEN_HOST_def SEEN_CONTENT_LENGTH_def split: if_splits sum.splits)

lemma parse_headers_keeps:
  assumes "parse_headers b e p req seen = Inr (eol, r, s)"
    and "e < 65538" and "host_seen_valid b req seen"
  shows "same_request_line req r \<and> host_seen_valid b r s"
  using assms(1,3)
proof (induction p req seen "(eol, r, s)" rule: parse_headers_induct)
  case stop
  then show ?case by (simp add: same_request_line_def)
next
  case (step p req seen m req' seen')
  from step(3) obtain colon where c: "memchr b p m 58 = Some colon"
    and h: "handle_header b (bslice b p colon) (trim_left b (colon + 1) m)
              (trim_right b (trim_left b (colon + 1) m) m) req seen = Inr (req', seen')"
    by (rule header_line_Inr)
  from memchr_bounds [OF c] have "colon < m" by simp
  note v = value_bounds [OF this, of b]
  have "m < 65536" using find_crlf_bounds [OF step(1)] assms(2) by simp
  with v have "same_request_line req req' \<and> host_seen_valid b req' seen'"
    using handle_header_keeps [OF h _ _ step(6)] by linarith
  with step(5) show ?case by (simp add: same_request_line_def)
qed

section \<open>\<open>Content-Length\<close>\<close>

text \<open>The number a string of decimal digits denotes.\<close>

definition decimal :: "byte list \<Rightarrow> nat" where
  "decimal p = foldl (\<lambda>v c. v * 10 + (unat c - 48)) 0 p"

lemma decimal_Nil [simp]: "decimal [] = 0"
  by (simp add: decimal_def)

lemma foldl_decimal_mono: "v \<le> foldl (\<lambda>v (c :: byte). v * 10 + (unat c - 48)) (v :: nat) p"
proof (induction p arbitrary: v)
  case (Cons c p)
  have "v \<le> v * 10 + (unat c - 48)" by simp
  also have "\<dots> \<le> foldl (\<lambda>v c. v * 10 + (unat c - 48)) (v * 10 + (unat c - 48)) p" by (rule Cons)
  finally show ?case by simp
qed simp

lemma unat_digit:
  assumes "is_digit c"
  shows "unat (ucast (c - 48) :: u32) = unat c - 48 \<and> unat c - 48 \<le> 9"
proof -
  have c: "48 \<le> unat c" "unat c \<le> 57" using assms by (simp_all add: is_digit_def word_le_nat_alt)
  then have "unat (c - 48) = unat c - 48" by (simp add: unat_sub word_le_nat_alt)
  with c show ?thesis by (simp add: unsigned_ucast_eq take_bit_nat_eq_self_iff) linarith
qed

text \<open>The guard of the loop is exact: it fails just when the next value does not fit.\<close>

lemma content_length_guard:
  fixes v d :: u32
  assumes "unat d \<le> 9"
  shows "(- 1 - d) div 10 < v \<longleftrightarrow> 2 ^ 32 \<le> unat v * 10 + unat d"
    and "unat v * 10 + unat d < 2 ^ 32 \<Longrightarrow> unat (v * 10 + d) = unat v * 10 + unat d"
proof -
  have m: "unat (- 1 :: u32) = 2 ^ 32 - 1"
    by (simp add: unsigned_minus_1_eq_mask mask_eq_exp_minus_1)
  have "d \<le> - 1" by simp
  then have "unat (- 1 - d) = 2 ^ 32 - 1 - unat d" by (simp only: unat_sub m)
  then show "(- 1 - d) div 10 < v \<longleftrightarrow> 2 ^ 32 \<le> unat v * 10 + unat d"
    using assms by (simp add: word_less_nat_alt unat_div) arith
  show "unat (v * 10 + d) = unat v * 10 + unat d" if "unat v * 10 + unat d < 2 ^ 32"
    using that by (simp add: unat_word_ariths)
qed

lemma content_length_loop_iff:
  "content_length_loop p v = Inr n \<longleftrightarrow>
     list_all is_digit p \<and> foldl (\<lambda>v c. v * 10 + (unat c - 48)) (unat v) p < 2 ^ 32
     \<and> unat n = foldl (\<lambda>v c. v * 10 + (unat c - 48)) (unat v) p"
proof (induction p v rule: content_length_loop.induct)
  case (1 v)
  then show ?case using unsigned_less [of v] by (auto simp: word_unat_eq_iff)
next
  case (2 c cs v)
  show ?case
  proof (cases "is_digit c")
    case False
    then show ?thesis by simp
  next
    case True
    let ?d = "ucast (c - 48) :: u32"
    note d = unat_digit [OF True] and guard = content_length_guard [of ?d v]
    show ?thesis
    proof (cases "v > (- 1 - ?d) div 10")
      case over: True
      then have "2 ^ 32 \<le> unat v * 10 + (unat c - 48)" using guard d by simp
      then have "\<not> foldl (\<lambda>v c. v * 10 + (unat c - 48)) (unat v * 10 + (unat c - 48)) cs < 2 ^ 32"
        using foldl_decimal_mono [of "unat v * 10 + (unat c - 48)" cs] by linarith
      with over True show ?thesis by (simp add: Let_def)
    next
      case False
      with guard d have "unat (v * 10 + ?d) = unat v * 10 + (unat c - 48)" by simp
      with "2.IH" [of ?d] False True show ?thesis by (simp add: Let_def)
    qed
  qed
qed

text \<open>
  \<open>parse_content_length\<close> is exact: it returns \<open>n\<close> just when the value is a non-empty
  string of digits that denotes \<open>n\<close>, and rejects everything else, in particular every number
  that does not fit 32 bits. The overflow test before each multiplication neither wraps nor
  rejects a value in range.
\<close>

theorem parse_content_length_exact:
  "parse_content_length p = Inr n \<longleftrightarrow>
     p \<noteq> [] \<and> list_all is_digit p \<and> decimal p < 2 ^ 32 \<and> unat n = decimal p"
  by (simp add: parse_content_length_def content_length_loop_iff decimal_def)

section \<open>A gap in the check of the target\<close>

text \<open>\<open>GET http://a\<close>, a bare line feed, \<open>X:y HTTP/1.0\<close> and the two line ends.\<close>

definition sample_lf :: "byte list" where
  "sample_lf = [71,69,84,32,104,116,116,112,58,47,47,97,10,88,58,121,32,72,84,84,80,47,49,46,48,13,10,13,10]"

text \<open>
  The check of the request target has a gap. \<open>is_target_char\<close> is applied to the path and
  the query only, so an absolute-form target whose authority holds a bare line feed is accepted,
  and the stored target slice, which the proxy forwards, carries that line feed: here a target
  that a lenient upstream reads as a request line followed by a header line \<open>X:y\<close>.
\<close>

theorem absolute_target_accepts_bare_lf:
  "\<exists>r. http_parse_request sample_lf 29 = Inr (29, r)
    \<and> slice_of sample_lf (req_target r) = bytes ''http://a'' @ [LF] @ bytes ''X:y''
    \<and> \<not> list_all is_target_char (slice_of sample_lf (req_target r))"
  by (simp add: sample_lf_def evals)

text \<open>
  The verdict on such a request depends on how the stream is split into reads. If a read ends behind the
  bare line feed, no CR has been seen and the request is malformed; if it ends later, the CR of the
  request line hides the line feed and the request is accepted.
\<close>

theorem lone_lf_verdict_depends_on_reads:
  "lone_lf sample_lf 13 \<and> http_parse_request sample_lf 13 = Inl PARSE_BAD
    \<and> (\<exists>r. http_parse_request sample_lf 29 = Inr (29, r))"
proof (intro conjI)
  show "lone_lf sample_lf 13" by (simp add: lone_lf_eval sample_lf_def upt_rec [of 0] upt_rec [of "Suc 0"] flip: numeral_2_eq_2)
qed (simp_all add: sample_lf_def evals)

end
