(* ===== verification/Http_Grammar.thy ===== *)
theory Http_Grammar
  imports Http_Parser_Facts
begin

text \<open>
  The abstract side of the request parser: requests as structured values, their wire form
  \<open>render_request\<close>, and the meaning of a header list (\<open>abs_headers\<close>) in terms of options,
  naturals and booleans. The refinement theorem at the end states that the byte parser
  computes exactly this meaning on every rendered request, whatever bytes follow it.
\<close>

section \<open>Abstract requests and their wire form\<close>

record abs_request =
  a_method :: "byte list"
  a_path :: "byte list"
  a_query :: "byte list option"
  a_minor :: nat
  a_headers :: "(byte list \<times> byte list) list"

definition render_target :: "abs_request \<Rightarrow> byte list" where
  "render_target a = a_path a @ (case a_query a of None \<Rightarrow> [] | Some q \<Rightarrow> 63 # q)"

definition render_header :: "byte list \<times> byte list \<Rightarrow> byte list" where
  "render_header h = fst h @ [58, 32] @ snd h"

definition render_line :: "abs_request \<Rightarrow> byte list" where
  "render_line a = a_method a @ [32] @ render_target a @ [32]
     @ bytes ''HTTP/1.'' @ [if a_minor a = 1 then 49 else 48]"

definition render_headers :: "(byte list \<times> byte list) list \<Rightarrow> byte list" where
  "render_headers hs = concat (map (\<lambda>h. render_header h @ [CR, LF]) hs)"

definition render_request :: "abs_request \<Rightarrow> byte list" where
  "render_request a = render_line a @ [CR, LF] @ render_headers (a_headers a) @ [CR, LF]"

definition wf_header :: "byte list \<times> byte list \<Rightarrow> bool" where
  "wf_header h = (fst h \<noteq> [] \<and> list_all is_tchar (fst h) \<and> list_all is_field_vchar (snd h)
     \<and> (snd h \<noteq> [] \<longrightarrow> \<not> is_ows (hd (snd h)) \<and> \<not> is_ows (last (snd h))))"

definition wf_request :: "abs_request \<Rightarrow> bool" where
  "wf_request a = (a_method a \<noteq> [] \<and> list_all is_tchar (a_method a)
     \<and> a_path a \<noteq> [] \<and> hd (a_path a) = 47 \<and> list_all is_target_char (render_target a)
     \<and> 63 \<notin> set (a_path a) \<and> a_minor a \<le> 1 \<and> list_all wf_header (a_headers a)
     \<and> length (render_request a) \<le> HTTP_PARSE_MAX_LEN)"

section \<open>The meaning of a header list\<close>

record abs_state =
  m_host :: "byte list option"
  m_length :: "nat option"
  m_te :: bool
  m_close :: bool
  m_keep :: bool

definition abs_state0 :: abs_state where
  "abs_state0 = \<lparr>m_host = None, m_length = None, m_te = False, m_close = False, m_keep = False\<rparr>"

definition lower :: "byte list \<Rightarrow> byte list" where
  "lower = map ascii_lower"

text \<open>The comma-separated tokens of a \<open>Connection\<close> value, without the blanks around them.\<close>

function conn_tokens :: "byte list \<Rightarrow> byte list list" where
  "conn_tokens p = (if p = [] then []
     else trim_ows (takeWhile (\<lambda>c. c \<noteq> 44) p)
       # (case dropWhile (\<lambda>c. c \<noteq> 44) p of [] \<Rightarrow> [] | _ # rest \<Rightarrow> conn_tokens rest))"
  by pat_completeness auto
termination
proof (relation "measure length", goal_cases)
  case (2 p c rest)
  then show ?case using length_dropWhile_le [of "\<lambda>c. c \<noteq> 44" p] by simp
qed simp

declare conn_tokens.simps [simp del]

definition has_token :: "byte list \<Rightarrow> string \<Rightarrow> bool" where
  "has_token v t = (bytes t \<in> set (map lower (conn_tokens v)))"

definition abs_header :: "byte list \<times> byte list \<Rightarrow> abs_state \<Rightarrow> abs_state option" where
  "abs_header h m =
     (if lower (fst h) = bytes ''host'' then
        if m_host m \<noteq> None \<or> \<not> validate_host (snd h) then None
        else Some (m\<lparr>m_host := Some (snd h)\<rparr>)
      else if lower (fst h) = bytes ''content-length'' then
        if m_length m \<noteq> None \<or> snd h = [] \<or> \<not> list_all is_digit (snd h) \<or> 2 ^ 32 \<le> decimal (snd h)
        then None else Some (m\<lparr>m_length := Some (decimal (snd h))\<rparr>)
      else if lower (fst h) = bytes ''transfer-encoding'' then Some (m\<lparr>m_te := True\<rparr>)
      else if lower (fst h) = bytes ''connection'' then
        Some (m\<lparr>m_close := m_close m \<or> has_token (snd h) ''close'',
               m_keep := m_keep m \<or> has_token (snd h) ''keep-alive''\<rparr>)
      else Some m)"

fun abs_headers :: "(byte list \<times> byte list) list \<Rightarrow> abs_state \<Rightarrow> abs_state option" where
  "abs_headers [] m = Some m"
| "abs_headers (h # hs) m = (case abs_header h m of None \<Rightarrow> None | Some m' \<Rightarrow> abs_headers hs m')"

text \<open>The verdict on a request: an error, or the meaning of its headers.\<close>

definition abs_parse :: "abs_request \<Rightarrow> parse_error + abs_state" where
  "abs_parse a =
     (case abs_headers (a_headers a) abs_state0 of
        None \<Rightarrow> Inl PARSE_BAD
      | Some m \<Rightarrow>
          if m_te m \<and> m_length m \<noteq> None then Inl PARSE_BAD
          else if a_minor a = 1 \<and> m_host m = None then Inl PARSE_BAD
          else if m_te m then Inl PARSE_UNSUPPORTED
          else Inr m)"

section \<open>Comparison without case\<close>

lemma ascii_ieq_iff: "length a = n \<Longrightarrow> length b = n \<Longrightarrow> ascii_ieq a b n \<longleftrightarrow> lower a = lower b"
  by (induction a b n rule: ascii_ieq.induct) (auto simp: lower_def)

lemma lower_eq_length: "lower a = lower b \<Longrightarrow> length a = length b"
  unfolding lower_def by (rule map_eq_imp_length_eq)

lemma ieq_literal:
  assumes "lower lit = lit" and "length lit = k"
  shows "length a = k \<and> ascii_ieq a lit k \<longleftrightarrow> lower a = lit"
  using assms ascii_ieq_iff [of a k lit] lower_eq_length [of a lit] by auto

lemma lower_literals:
  "lower (bytes ''host'') = bytes ''host''"
  "lower (bytes ''content-length'') = bytes ''content-length''"
  "lower (bytes ''transfer-encoding'') = bytes ''transfer-encoding''"
  "lower (bytes ''connection'') = bytes ''connection''"
  "lower (bytes ''close'') = bytes ''close''"
  "lower (bytes ''keep-alive'') = bytes ''keep-alive''"
  by (simp_all add: lower_def bytes_def ascii_lower_def)

lemma ieq_literals:
  "length n = 4 \<and> ascii_ieq n (bytes ''host'') 4 \<longleftrightarrow> lower n = bytes ''host''"
  "length n = 14 \<and> ascii_ieq n (bytes ''content-length'') 14 \<longleftrightarrow> lower n = bytes ''content-length''"
  "length n = 17 \<and> ascii_ieq n (bytes ''transfer-encoding'') 17 \<longleftrightarrow> lower n = bytes ''transfer-encoding''"
  "length n = 10 \<and> ascii_ieq n (bytes ''connection'') 10 \<longleftrightarrow> lower n = bytes ''connection''"
  "length n = 5 \<and> ascii_ieq n (bytes ''close'') 5 \<longleftrightarrow> lower n = bytes ''close''"
  "length n = 10 \<and> ascii_ieq n (bytes ''keep-alive'') 10 \<longleftrightarrow> lower n = bytes ''keep-alive''"
  by (rule ieq_literal, simp add: lower_literals, simp)+

section \<open>Finding the parts of a rendered request\<close>

text \<open>A search that starts at a part of the buffer and stops at the first byte after it.\<close>

lemma nth_part: "b = pre @ xs @ ys \<Longrightarrow> i < length xs \<Longrightarrow> b ! (length pre + i) = xs ! i"
  by (simp add: nth_append)

lemma part_no_byte:
  assumes "b = pre @ xs @ ys" and "c \<notin> set xs" and "length pre \<le> j" and "j < length pre + length xs"
  shows "b ! j \<noteq> c"
proof -
  from assms(3,4) obtain i where i: "j = length pre + i" "i < length xs"
    by (metis le_add_diff_inverse nat_add_left_cancel_less)
  with nth_part [OF assms(1) i(2)] assms(2) show ?thesis by auto
qed

lemma memchr_hit:
  assumes "b = pre @ xs @ c # ys" and "c \<notin> set xs" and "length pre + length xs < e"
  shows "memchr b (length pre) e c = Some (length pre + length xs)"
proof -
  have "b ! (length pre + length xs) = c" using assms(1) by (simp add: nth_append)
  with part_no_byte [OF assms(1,2)] assms(3) show ?thesis by (auto simp: memchr_Some_iff)
qed

lemma memchr_miss:
  assumes "b = pre @ xs @ ys" and "c \<notin> set xs" and "e = length pre + length xs"
  shows "memchr b (length pre) e c = None"
  using part_no_byte [OF assms(1,2)] assms(3) by (auto simp: memchr_None_iff)

lemma bslice_part: "b = pre @ xs @ ys \<Longrightarrow> bslice b (length pre) (length pre + length xs) = xs"
  by (simp add: bslice_def)

lemma find_crlf_part:
  assumes "b = pre @ xs @ [CR, LF] @ ys" and "CR \<notin> set xs" and "length pre + length xs + 2 \<le> e"
  shows "find_crlf b (length pre) e = Inr (length pre + length xs)"
proof -
  have "memchr b (length pre) e CR = Some (length pre + length xs)"
    using assms by (intro memchr_hit) auto
  moreover have "b ! (length pre + length xs + 1) = LF" using assms(1) by (simp add: nth_append)
  ultimately show ?thesis using assms(3) by (simp add: find_crlf_Inr_iff)
qed

lemma trim_left_part:
  assumes "b = pre @ xs @ ys" and "xs \<noteq> [] \<longrightarrow> \<not> is_ows (hd xs)"
  shows "trim_left b (length pre) (length pre + length xs) = length pre"
  using assms by (intro trim_left_id) (cases xs, auto simp: nth_append)

lemma trim_right_part:
  assumes "b = pre @ xs @ ys" and "xs \<noteq> [] \<longrightarrow> \<not> is_ows (last xs)"
  shows "trim_right b (length pre) (length pre + length xs) = length pre + length xs"
proof (intro trim_right_id)
  have "\<not> is_ows (b ! (length pre + length xs - 1))" if "xs \<noteq> []"
  proof -
    from that have "length xs - 1 < length xs" and "length pre + (length xs - 1) = length pre + length xs - 1"
      by (cases xs; simp)+
    then show ?thesis
      using nth_part [OF assms(1), of "length xs - 1"] that assms(2) by (simp add: last_conv_nth)
  qed
  then show "length pre + length xs \<le> length pre \<or> \<not> is_ows (b ! (length pre + length xs - 1))"
    by auto
qed

section \<open>One header line\<close>

lemma field_chars_no_CR: "list_all is_field_vchar v \<Longrightarrow> CR \<notin> set v"
  by (auto simp: list_all_iff is_field_vchar_def)

lemma tchar_facts:
  assumes "list_all is_tchar n"
  shows "CR \<notin> set n" "58 \<notin> set n" "32 \<notin> set n" "n \<noteq> [] \<Longrightarrow> \<not> is_ows (hd n)"
proof -
  have "\<not> is_tchar CR" "\<not> is_tchar 58" "\<not> is_tchar 32" "\<not> is_tchar 9"
    by (simp_all add: is_tchar_def bytes_def)
  with assms show "CR \<notin> set n" "58 \<notin> set n" "32 \<notin> set n" "n \<noteq> [] \<Longrightarrow> \<not> is_ows (hd n)"
    by (auto simp: list_all_iff is_ows_def) (metis hd_in_set)+
qed

text \<open>How the colon search and the two trimming loops take a rendered header apart.\<close>

lemma header_part:
  assumes b: "b = pre @ render_header h @ ys" and wf: "wf_header h"
  defines "p \<equiv> length pre" and "eol \<equiv> length pre + length (render_header h)"
    and "v \<equiv> length pre + length (fst h) + 2"
  shows "memchr b p eol 58 = Some (p + length (fst h))" "bslice b p (p + length (fst h)) = fst h"
    "trim_left b (p + length (fst h) + 1) eol = v" "trim_right b v eol = eol" "bslice b v eol = snd h"
    "v \<le> eol"
proof -
  let ?n = "fst h" and ?v = "snd h"
  have eol: "eol = v + length ?v" by (simp add: render_header_def eol_def v_def)
  have b1: "b = pre @ ?n @ 58 # 32 # ?v @ ys" using b by (simp add: render_header_def)
  then have b2: "b = (pre @ ?n @ [58, 32]) @ ?v @ ys" by simp
  have v2: "length (pre @ ?n @ [58, 32]) = v" by (simp add: v_def)
  have n: "list_all is_tchar ?n" and v: "?v \<noteq> [] \<longrightarrow> \<not> is_ows (hd ?v)" "?v \<noteq> [] \<longrightarrow> \<not> is_ows (last ?v)"
    using wf by (auto simp: wf_header_def)
  show "memchr b p eol 58 = Some (p + length ?n)"
    using memchr_hit [OF b1 tchar_facts(2) [OF n], of eol] unfolding p_def eol v_def by simp
  show "bslice b p (p + length ?n) = ?n" unfolding p_def by (rule bslice_part [OF b1])
  have "b ! (p + length ?n + 1) = 32" unfolding p_def b1 by (simp add: nth_append)
  then have "trim_left b (p + length ?n + 1) eol = trim_left b (p + length ?n + 2) eol"
    using trim_left_step [of "p + length ?n + 1" eol b] eol by (simp add: is_ows_def p_def v_def)
  also have "\<dots> = v" using trim_left_part [OF b2 v(1)] unfolding v2 eol by (simp add: p_def v_def)
  finally show "trim_left b (p + length ?n + 1) eol = v" .
  show "trim_right b v eol = eol" using trim_right_part [OF b2 v(2)] unfolding v2 eol .
  show "bslice b v eol = ?v" using bslice_part [OF b2] unfolding v2 eol .
  show "v \<le> eol" unfolding eol by simp
qed

lemma header_line_part:
  assumes b: "b = pre @ render_header h @ ys" and wf: "wf_header h"
  shows "header_line b (length pre) (length pre + length (render_header h)) req seen =
    handle_header b (fst h) (length pre + length (fst h) + 2) (length pre + length (render_header h)) req seen"
proof -
  have n: "fst h \<noteq> []" "list_all is_tchar (fst h)" and v: "list_all is_field_vchar (snd h)"
    using wf by (auto simp: wf_header_def)
  have b1: "b = pre @ fst h @ 58 # 32 # snd h @ ys" using b by (simp add: render_header_def)
  have "\<not> is_ows (b ! length pre)"
    using tchar_facts(4) [OF n(2,1)] n(1) nth_part [OF b1, of 0] by (simp add: hd_conv_nth)
  then show ?thesis using header_part [OF b wf] n v by (simp add: header_line_def)
qed

section \<open>Simulation of the header loop\<close>

lemma connection_token_flags:
  "connection_token t f AND HTTP_FLAG_CONNECTION_CLOSE = 0 \<longleftrightarrow>
     f AND HTTP_FLAG_CONNECTION_CLOSE = 0 \<and> lower t \<noteq> bytes ''close''"
  "connection_token t f AND HTTP_FLAG_CONNECTION_KEEP_ALIVE = 0 \<longleftrightarrow>
     f AND HTTP_FLAG_CONNECTION_KEEP_ALIVE = 0 \<and> lower t \<noteq> bytes ''keep-alive''"
  "connection_token t f AND HTTP_FLAG_TRANSFER_ENCODING = f AND HTTP_FLAG_TRANSFER_ENCODING"
  "connection_token t f AND HTTP_FLAG_CONTENT_LENGTH = f AND HTTP_FLAG_CONTENT_LENGTH"
proof -
  have "bytes ''close'' \<noteq> bytes ''keep-alive''" by (simp add: bytes_def)
  then show "connection_token t f AND HTTP_FLAG_CONNECTION_CLOSE = 0 \<longleftrightarrow>
     f AND HTTP_FLAG_CONNECTION_CLOSE = 0 \<and> lower t \<noteq> bytes ''close''"
  "connection_token t f AND HTTP_FLAG_CONNECTION_KEEP_ALIVE = 0 \<longleftrightarrow>
     f AND HTTP_FLAG_CONNECTION_KEEP_ALIVE = 0 \<and> lower t \<noteq> bytes ''keep-alive''"
  "connection_token t f AND HTTP_FLAG_TRANSFER_ENCODING = f AND HTTP_FLAG_TRANSFER_ENCODING"
  "connection_token t f AND HTTP_FLAG_CONTENT_LENGTH = f AND HTTP_FLAG_CONTENT_LENGTH"
    unfolding connection_token_def ieq_literals http_flag_defs by (auto simp: flag_simps)
qed

lemma parse_connection_fold: "parse_connection p f = fold connection_token (conn_tokens p) f"
proof (induction p f rule: parse_connection.induct)
  case (1 p f)
  show ?case
  proof (cases "p = []")
    case True
    then show ?thesis by (simp add: parse_connection.simps conn_tokens.simps)
  next
    case False
    show ?thesis
    proof (cases "dropWhile (\<lambda>c. c \<noteq> 44) p")
      case Nil
      with False show ?thesis
        by (simp add: parse_connection.simps [of p] conn_tokens.simps [of p] Let_def del: dropWhile_eq_Nil_conv)
    next
      case (Cons c rest)
      from "1.IH" [OF False refl Cons] Cons False show ?thesis
        by (simp add: parse_connection.simps [of p] conn_tokens.simps [of p] Let_def)
    qed
  qed
qed

lemma fold_connection_token_flags:
  "fold connection_token ts f AND HTTP_FLAG_CONNECTION_CLOSE = 0 \<longleftrightarrow>
     f AND HTTP_FLAG_CONNECTION_CLOSE = 0 \<and> bytes ''close'' \<notin> lower ` set ts"
  "fold connection_token ts f AND HTTP_FLAG_CONNECTION_KEEP_ALIVE = 0 \<longleftrightarrow>
     f AND HTTP_FLAG_CONNECTION_KEEP_ALIVE = 0 \<and> bytes ''keep-alive'' \<notin> lower ` set ts"
  "fold connection_token ts f AND HTTP_FLAG_TRANSFER_ENCODING = f AND HTTP_FLAG_TRANSFER_ENCODING"
  "fold connection_token ts f AND HTTP_FLAG_CONTENT_LENGTH = f AND HTTP_FLAG_CONTENT_LENGTH"
  by (induction ts arbitrary: f) (auto simp: connection_token_flags)

lemmas parse_connection_flags =
  fold_connection_token_flags [of "conn_tokens p" f for p f, folded parse_connection_fold]

text \<open>The concrete request and seen-set represent the abstract state \<open>m\<close>.\<close>

definition rep :: "byte list \<Rightarrow> http_request \<Rightarrow> u8 \<Rightarrow> abs_state \<Rightarrow> bool" where
  "rep b r seen m =
     ((case m_host m of None \<Rightarrow> seen AND SEEN_HOST = 0
       | Some h \<Rightarrow> seen AND SEEN_HOST \<noteq> 0 \<and> slice_of b (req_host r) = h)
    \<and> (case m_length m of None \<Rightarrow> seen AND SEEN_CONTENT_LENGTH = 0 \<and> \<not> has_flag r HTTP_FLAG_CONTENT_LENGTH
       | Some n \<Rightarrow> seen AND SEEN_CONTENT_LENGTH \<noteq> 0 \<and> has_flag r HTTP_FLAG_CONTENT_LENGTH
           \<and> unat (req_content_length r) = n)
    \<and> (has_flag r HTTP_FLAG_TRANSFER_ENCODING \<longleftrightarrow> m_te m)
    \<and> (has_flag r HTTP_FLAG_CONNECTION_CLOSE \<longleftrightarrow> m_close m)
    \<and> (has_flag r HTTP_FLAG_CONNECTION_KEEP_ALIVE \<longleftrightarrow> m_keep m))"


lemma parse_content_length_eq:
  "parse_content_length p = (if p = [] \<or> \<not> list_all is_digit p \<or> 2 ^ 32 \<le> decimal p
     then Inl PARSE_BAD else Inr (word_of_nat (decimal p)))"
proof (cases "p = [] \<or> \<not> list_all is_digit p \<or> 2 ^ 32 \<le> decimal p")
  case True
  show ?thesis
  proof (cases "parse_content_length p")
    case (Inl rc)
    then have "rc = PARSE_BAD"
      by (auto simp: parse_content_length_def split: if_splits dest: content_length_loop_error)
    with Inl True show ?thesis by simp
  next
    case (Inr n)
    with True content_length_loop_iff [of p 0 n] show ?thesis
      by (auto simp: parse_content_length_def decimal_def split: if_splits)
  qed
next
  case False
  then have "unat (word_of_nat (decimal p) :: u32) = decimal p" by (simp add: unat_of_nat_32)
  with False content_length_loop_iff [of p 0 "word_of_nat (decimal p)"] show ?thesis
    by (auto simp: parse_content_length_def decimal_def)
qed

lemma handle_header_sim:
  assumes v: "bslice b v ve = snd h" and le: "v \<le> ve" "ve < 65536" and rep: "rep b req seen m"
  shows "case abs_header h m of
      None \<Rightarrow> handle_header b (fst h) v ve req seen = Inl PARSE_BAD
    | Some m' \<Rightarrow> \<exists>r s. handle_header b (fst h) v ve req seen = Inr (r, s) \<and> rep b r s m'"
proof -
  consider (host) "lower (fst h) = bytes ''host''"
    | (len) "lower (fst h) = bytes ''content-length''"
    | (te) "lower (fst h) = bytes ''transfer-encoding''"
    | (conn) "lower (fst h) = bytes ''connection''"
    | (other) "lower (fst h) \<notin> {bytes ''host'', bytes ''content-length'',
        bytes ''transfer-encoding'', bytes ''connection''}"
    by blast
  then show ?thesis
  proof cases
    case host
    with rep le v show ?thesis
      unfolding handle_header_def abs_header_def ieq_literals rep_def
      by (auto simp: slice_of_mk_slice flag_simps SEEN_HOST_def SEEN_CONTENT_LENGTH_def
          has_flag_def split: option.splits)
  next
    case len
    then have "lower (fst h) \<noteq> bytes ''host''" by (simp add: bytes_def)
    note dispatch = len this
    have pcl: "parse_content_length (snd h) = (if snd h = [] \<or> \<not> list_all is_digit (snd h)
        \<or> 2 ^ 32 \<le> decimal (snd h) then Inl PARSE_BAD else Inr (word_of_nat (decimal (snd h))))"
      by (rule parse_content_length_eq)
    show ?thesis
    proof (cases "m_length m = None \<and> snd h \<noteq> [] \<and> list_all is_digit (snd h) \<and> decimal (snd h) < 2 ^ 32")
      case True
      then have "unat (word_of_nat (decimal (snd h)) :: u32) = decimal (snd h)"
        by (simp add: unat_of_nat_32)
      with True dispatch rep v pcl show ?thesis
        unfolding handle_header_def abs_header_def ieq_literals rep_def
        by (auto simp: flag_simps SEEN_HOST_def SEEN_CONTENT_LENGTH_def
            has_flag_def http_flag_defs split: option.splits)
    next
      case False
      with dispatch rep v pcl show ?thesis
        unfolding handle_header_def abs_header_def ieq_literals rep_def
        by (auto split: option.splits)
    qed
  next
    case te
    then have "lower (fst h) \<noteq> bytes ''host''" "lower (fst h) \<noteq> bytes ''content-length''"
      by (simp_all add: bytes_def)
    with te rep show ?thesis
      unfolding handle_header_def abs_header_def ieq_literals rep_def
      by (auto simp: flag_simps has_flag_def http_flag_defs split: option.splits)
  next
    case conn
    then have "lower (fst h) \<noteq> bytes ''host''" "lower (fst h) \<noteq> bytes ''content-length''"
      "lower (fst h) \<noteq> bytes ''transfer-encoding''"
      by (simp_all add: bytes_def)
    with conn rep v show ?thesis
      unfolding handle_header_def abs_header_def ieq_literals rep_def has_token_def
      by (auto simp: has_flag_def parse_connection_flags split: option.splits)
  next
    case other
    with rep show ?thesis
      unfolding handle_header_def abs_header_def ieq_literals by simp
  qed
qed
lemma render_headers_Cons [simp]:
  "render_headers (h # hs) = render_header h @ [CR, LF] @ render_headers hs"
  by (simp add: render_headers_def)

lemma render_headers_Nil [simp]: "render_headers [] = []"
  by (simp add: render_headers_def)

lemma render_header_no_CR: "wf_header h \<Longrightarrow> CR \<notin> set (render_header h) \<and> render_header h \<noteq> []"
  using tchar_facts(1) field_chars_no_CR by (auto simp: wf_header_def render_header_def)

lemma parse_headers_sim:
  assumes "b = pre @ render_headers hs @ [CR, LF] @ ys" and "list_all wf_header hs"
    and "length pre + length (render_headers hs) + 2 \<le> e" and "e < 65538" and "rep b req seen m"
  shows "case abs_headers hs m of
      None \<Rightarrow> parse_headers b e (length pre) req seen = Inl PARSE_BAD
    | Some m' \<Rightarrow> \<exists>r s. parse_headers b e (length pre) req seen
          = Inr (length pre + length (render_headers hs), r, s) \<and> rep b r s m'"
  using assms
proof (induction hs arbitrary: pre req seen m)
  case Nil
  then have "find_crlf b (length pre) e = Inr (length pre)"
    using find_crlf_part [of b pre "[]" ys e] by simp
  with Nil show ?case by (simp add: parse_headers_stop)
next
  case (Cons h hs)
  let ?p = "length pre" and ?l = "length (render_header h)"
  let ?pre' = "pre @ render_header h @ [CR, LF]"
  have wf: "wf_header h" and len: "?p + ?l + 2 \<le> e" using Cons.prems by simp_all
  have b1: "b = pre @ render_header h @ [CR, LF] @ (render_headers hs @ [CR, LF] @ ys)"
    using Cons.prems(1) by simp
  have line: "find_crlf b ?p e = Inr (?p + ?l)" and ne: "?p < ?p + ?l"
    using find_crlf_part [OF b1] render_header_no_CR [OF wf] len by simp_all
  note hl = header_line_part [OF b1 wf] and v = header_part(5) [OF b1 wf]
  have le: "?p + length (fst h) + 2 \<le> ?p + ?l" "?p + ?l < 65536"
    using len Cons.prems(4) by (simp_all add: render_header_def)
  note sim = handle_header_sim [OF v le Cons.prems(5)]
  show ?case
  proof (cases "abs_header h m")
    case None
    with sim hl have "header_line b ?p (?p + ?l) req seen = Inl PARSE_BAD" by simp
    with line ne None show ?thesis by (simp add: parse_headers.simps [of b e ?p])
  next
    case (Some m')
    with sim hl obtain r s where rs: "header_line b ?p (?p + ?l) req seen = Inr (r, s)" "rep b r s m'"
      by auto
    have step: "parse_headers b e ?p req seen = parse_headers b e (length ?pre') r s"
      using parse_headers_step [OF line ne rs(1)] by (simp add: add.assoc)
    have b2: "b = ?pre' @ render_headers hs @ [CR, LF] @ ys" using Cons.prems(1) by simp
    have "length ?pre' + length (render_headers hs) + 2 \<le> e"
      using Cons.prems(3) by simp
    from Cons.IH [OF b2 _ this Cons.prems(4) rs(2)] Cons.prems(2)
    show ?thesis unfolding step using Some by (simp add: add.assoc split: option.splits)
  qed
qed

section \<open>The request line\<close>

lemma target_chars:
  assumes "list_all is_target_char t"
  shows "CR \<notin> set t" "32 \<notin> set t"
  using assms by (auto simp: list_all_iff is_target_char_def)

lemma render_line_no_CR:
  assumes "wf_request a"
  shows "CR \<notin> set (render_line a)"
  using assms tchar_facts(1) target_chars(1)
  by (auto simp: wf_request_def render_line_def bytes_def)

lemma parse_target_part:
  assumes b: "b = pre @ render_target a @ ys" and wf: "wf_request a"
    and small: "length pre + length (render_target a) < 65536" and q0: "req_query req = slice0"
  shows "\<exists>r. parse_request_target b (length pre) (length pre + length (render_target a)) req = Inr r
    \<and> slice_of b (req_target r) = render_target a \<and> slice_of b (req_path r) = a_path a
    \<and> slice_of b (req_query r) = (case a_query a of None \<Rightarrow> [] | Some q \<Rightarrow> q)
    \<and> req_method r = req_method req \<and> req_flags r = req_flags req"
proof -
  let ?p = "length pre" and ?e = "length pre + length (render_target a)"
  have path: "a_path a \<noteq> []" "hd (a_path a) = 47" and chars: "list_all is_target_char (render_target a)"
    and q: "63 \<notin> set (a_path a)" using wf by (auto simp: wf_request_def)
  have tgt: "bslice b ?p ?e = render_target a" by (rule bslice_part [OF b])
  have "b ! ?p = 47" using b path by (cases "a_path a") (auto simp: render_target_def nth_append)
  then have st: "target_path_start b ?p ?e = Inr (Some ?p)" by (simp add: target_path_start_def)
  show ?thesis
  proof (cases "a_query a")
    case None
    then have t: "render_target a = a_path a" by (simp add: render_target_def)
    then have "memchr b ?p ?e 63 = None" using memchr_miss [OF b] q by simp
    then show ?thesis using st chars tgt t None q0 small
      by (simp add: parse_request_target_def slice_of_mk_slice)
  next
    case (Some qs)
    then have t: "render_target a = a_path a @ 63 # qs" by (simp add: render_target_def)
    then have b1: "b = pre @ a_path a @ 63 # (qs @ ys)" and b2: "b = (pre @ a_path a @ [63]) @ qs @ ys"
      using b by simp_all
    have "memchr b ?p ?e 63 = Some (?p + length (a_path a))" using memchr_hit [OF b1 q] t by simp
    moreover have "bslice b ?p (?p + length (a_path a)) = a_path a" by (rule bslice_part [OF b1])
    moreover have "bslice b (?p + length (a_path a) + 1) ?e = qs" using bslice_part [OF b2] t by (simp add: add.assoc)
    ultimately show ?thesis using st chars tgt t Some small
      by (simp add: parse_request_target_def slice_of_mk_slice)
  qed
qed

lemma parse_line_part:
  assumes b: "b = render_line a @ ys" and wf: "wf_request a"
  shows "\<exists>r. parse_request_line b 0 (length (render_line a)) http_request0 = Inr r
    \<and> slice_of b (req_target r) = render_target a \<and> slice_of b (req_path r) = a_path a
    \<and> slice_of b (req_query r) = (case a_query a of None \<Rightarrow> [] | Some q \<Rightarrow> q)
    \<and> req_method r = parse_method (a_method a) \<and> unat (req_minor_version r) = a_minor a
    \<and> req_flags r = 0"
proof -
  let ?m = "a_method a" and ?t = "render_target a" and ?d = "if a_minor a = 1 then 49 else 48 :: byte"
  let ?sp1 = "length ?m" and ?sp2 = "length ?m + 1 + length ?t" and ?eol = "length (render_line a)"
  have m: "?m \<noteq> []" "list_all is_tchar ?m" and minor: "a_minor a \<le> 1"
    and chars: "list_all is_target_char ?t" and t: "?t \<noteq> []"
    using wf by (auto simp: wf_request_def render_target_def)
  have b1: "b = [] @ ?m @ 32 # (?t @ [32] @ bytes ''HTTP/1.'' @ [?d] @ ys)"
    and b2: "b = (?m @ [32]) @ ?t @ 32 # (bytes ''HTTP/1.'' @ [?d] @ ys)"
    and b3: "b = (?m @ [32] @ ?t @ [32]) @ bytes ''HTTP/1.'' @ ([?d] @ ys)"
    and b4: "b = (?m @ [32] @ ?t @ [32] @ bytes ''HTTP/1.'') @ [?d] @ ys"
    using b by (simp_all add: render_line_def)
  have eol: "?eol = ?sp2 + 9" by (simp add: render_line_def)
  have "memchr b 0 ?eol 32 = Some ?sp1"
    using memchr_hit [OF b1 tchar_facts(3) [OF m(2)], of ?eol] eol by simp
  moreover have "bslice b 0 ?sp1 = ?m" using bslice_part [OF b1] by simp
  moreover have "memchr b (?sp1 + 1) ?eol 32 = Some ?sp2"
    using memchr_hit [OF b2 target_chars(2) [OF chars], of ?eol] eol by simp
  moreover have "?sp2 < 65536"
    using wf by (simp add: wf_request_def render_request_def render_line_def HTTP_PARSE_MAX_LEN_def)
  then obtain r where "parse_request_target b (?sp1 + 1) ?sp2
      (http_request0\<lparr>req_method := parse_method ?m\<rparr>) = Inr r"
    and r: "slice_of b (req_target r) = ?t" "slice_of b (req_path r) = a_path a"
    "slice_of b (req_query r) = (case a_query a of None \<Rightarrow> [] | Some q \<Rightarrow> q)"
    "req_method r = parse_method ?m" "req_flags r = 0"
    using parse_target_part [of b "?m @ [32]" a "32 # (bytes ''HTTP/1.'' @ [?d] @ ys)"
        "http_request0\<lparr>req_method := parse_method ?m\<rparr>"] b2 wf
    by (auto simp: http_request0_def)
  moreover have "parse_version b (?sp2 + 1) ?eol = Inr (if a_minor a = 1 then 1 else 0)"
  proof -
    define k where "k = ?sp2 + 1"
    have "length (?m @ [32] @ ?t @ [32]) = k" "length (?m @ [32] @ ?t @ [32] @ bytes ''HTTP/1.'') = k + 7"
      by (simp_all add: k_def)
    with bslice_part [OF b3] nth_part [OF b4, of 0]
    have "bslice b k (k + 7) = bytes ''HTTP/1.''" "b ! (k + 7) = ?d"
      by (simp_all add: numeral_eq_Suc)
    moreover have "?eol = k + 8" using eol by (simp add: k_def)
    ultimately show ?thesis unfolding k_def [symmetric] by (simp add: parse_version_def)
  qed
  ultimately have "parse_request_line b 0 ?eol http_request0
      = Inr (r\<lparr>req_minor_version := if a_minor a = 1 then 1 else 0\<rparr>)"
    using m t by (simp add: parse_request_line_def)
  with r minor show ?thesis by (auto simp: le_Suc_eq)
qed

section \<open>Refinement\<close>

text \<open>The parsed request \<open>r\<close> says what the abstract request and its meaning \<open>m\<close> say.\<close>

definition represents :: "byte list \<Rightarrow> http_request \<Rightarrow> abs_request \<Rightarrow> abs_state \<Rightarrow> bool" where
  "represents b r a m =
     (req_method r = parse_method (a_method a) \<and> slice_of b (req_target r) = render_target a
    \<and> slice_of b (req_path r) = a_path a
    \<and> slice_of b (req_query r) = (case a_query a of None \<Rightarrow> [] | Some q \<Rightarrow> q)
    \<and> unat (req_minor_version r) = a_minor a
    \<and> slice_of b (req_header_block r) = render_headers (a_headers a)
    \<and> (m_host m \<noteq> None \<longrightarrow> slice_of b (req_host r) = the (m_host m))
    \<and> (has_flag r HTTP_FLAG_CONTENT_LENGTH \<longleftrightarrow> m_length m \<noteq> None)
    \<and> (m_length m \<noteq> None \<longrightarrow> unat (req_content_length r) = the (m_length m))
    \<and> (has_flag r HTTP_FLAG_CONNECTION_CLOSE \<longleftrightarrow> m_close m)
    \<and> (has_flag r HTTP_FLAG_CONNECTION_KEEP_ALIVE \<longleftrightarrow> m_keep m))"

lemma parse_finish_sim:
  assumes rep: "rep b r s m" and minor: "unat (req_minor_version r) = k"
  shows "parse_finish start eol r s =
    (if m_te m \<and> m_length m \<noteq> None then Inl PARSE_BAD
     else if k = 1 \<and> m_host m = None then Inl PARSE_BAD
     else if m_te m then Inl PARSE_UNSUPPORTED
     else Inr (unat (word_of_nat (eol + 2) :: u16),
       r\<lparr>req_header_block := mk_slice start eol, req_header_bytes := word_of_nat (eol + 2)\<rparr>))"
proof -
  have "has_flag r HTTP_FLAG_CONTENT_LENGTH \<longleftrightarrow> m_length m \<noteq> None"
    "has_flag r HTTP_FLAG_TRANSFER_ENCODING \<longleftrightarrow> m_te m" "s AND SEEN_HOST = 0 \<longleftrightarrow> m_host m = None"
    using rep by (auto simp: rep_def split: option.splits)
  moreover have "req_minor_version r = 1 \<longleftrightarrow> k = 1" using minor by (auto simp: word_unat_eq_iff)
  ultimately show ?thesis by (simp add: parse_finish_def Let_def has_flag_def)
qed

lemma http_parse_request_sim:
  assumes wf: "wf_request a" and len: "length (render_request a) \<le> len" and small: "len \<le> HTTP_PARSE_MAX_LEN"
  shows "case abs_parse a of
      Inl e \<Rightarrow> http_parse_request (render_request a @ rest) len = Inl e
    | Inr m \<Rightarrow> \<exists>r. http_parse_request (render_request a @ rest) len = Inr (length (render_request a), r)
        \<and> represents (render_request a @ rest) r a m
        \<and> req_header_block r = mk_slice (length (render_line a) + 2)
            (length (render_line a) + 2 + length (render_headers (a_headers a)))"
proof -
  let ?b = "render_request a @ rest" and ?l = "length (render_line a)" and ?hs = "a_headers a"
  let ?eol' = "?l + 2 + length (render_headers ?hs)"
  have n: "length (render_request a) = ?eol' + 2" by (simp add: render_request_def)
  have b1: "?b = [] @ render_line a @ [CR, LF] @ (render_headers ?hs @ [CR, LF] @ rest)"
    and b2: "?b = (render_line a @ [CR, LF]) @ render_headers ?hs @ [CR, LF] @ rest"
    by (simp_all add: render_request_def)
  have first: "find_crlf ?b 0 len = Inr ?l"
    using find_crlf_part [OF b1 render_line_no_CR [OF wf]] len n by simp
  obtain r where line: "parse_request_line ?b 0 ?l http_request0 = Inr r"
    and r: "slice_of ?b (req_target r) = render_target a" "slice_of ?b (req_path r) = a_path a"
      "slice_of ?b (req_query r) = (case a_query a of None \<Rightarrow> [] | Some q \<Rightarrow> q)"
      "req_method r = parse_method (a_method a)" "unat (req_minor_version r) = a_minor a" "req_flags r = 0"
    using parse_line_part [of ?b a "[CR, LF] @ render_headers ?hs @ [CR, LF] @ rest"] b1 wf by auto
  have rep0: "rep ?b r 0 abs_state0" using r(6) by (simp add: rep_def abs_state0_def has_flag_def)
  have hs: "list_all wf_header ?hs" using wf by (simp add: wf_request_def)
  have e: "length (render_line a @ [CR, LF]) + length (render_headers ?hs) + 2 \<le> len" "len < 65538"
    using len n small by (simp_all add: HTTP_PARSE_MAX_LEN_def)
  note sim = parse_headers_sim [OF b2 hs e rep0]
  have run: "http_parse_request ?b len = parse ?b len"
    using len small n by (simp add: http_parse_request_def)
  show ?thesis
  proof (cases "abs_headers ?hs abs_state0")
    case None
    with sim have "parse_headers ?b len (?l + 2) r 0 = Inl PARSE_BAD" by simp
    with None first line show ?thesis by (simp add: run parse_def abs_parse_def)
  next
    case (Some m)
    with sim obtain r' s where h: "parse_headers ?b len (?l + 2) r 0 = Inr (?eol', r', s)" "rep ?b r' s m"
      by auto
    from parse_headers_keeps [OF h(1) e(2)] have same: "same_request_line r r'"
      by (simp add: host_seen_valid_def)
    then have minor: "unat (req_minor_version r') = a_minor a" using r by (simp add: same_request_line_def)
    have parse: "parse ?b len = parse_finish (?l + 2) ?eol' r' s" using first line h(1) by (simp add: parse_def)
    have lt: "?eol' + 2 < 65536" using len small n by (simp add: HTTP_PARSE_MAX_LEN_def)
    have block: "bslice ?b (?l + 2) ?eol' = render_headers ?hs" using bslice_part [OF b2] by simp
    show ?thesis
      using Some parse_finish_sim [OF h(2) minor, of "?l + 2" ?eol'] unat_of_nat_16 [OF lt] n same r minor h(2) block lt
      by (auto simp: run parse abs_parse_def represents_def same_request_line_def rep_def has_flag_def
          slice_of_mk_slice split: option.splits)
  qed
qed

text \<open>
  C5. The parser implements the message grammar. On the wire form of any well-formed request,
  with any bytes after it, \<open>http_parse_request\<close> gives the verdict of the abstract semantics:
  the same error, or a request of exactly the rendered length whose method, target, path,
  query, version, header block, Host, Content-Length and Connection flags are those of the
  abstract request.
\<close>

theorem http_parse_request_refines:
  assumes wf: "wf_request a" and len: "length (render_request a) \<le> len" and small: "len \<le> HTTP_PARSE_MAX_LEN"
  shows "case abs_parse a of
      Inl e \<Rightarrow> http_parse_request (render_request a @ rest) len = Inl e
    | Inr m \<Rightarrow> \<exists>r. http_parse_request (render_request a @ rest) len = Inr (length (render_request a), r)
        \<and> represents (render_request a @ rest) r a m"
  using http_parse_request_sim [OF assms, of rest] by (auto split: sum.splits)

text \<open>
  Two messages the witnesses use: \<open>GET /a?b HTTP/1.1\<close> with a \<open>Host\<close>, which is served, and the
  same without one, which is refused.
\<close>

definition abs_sample :: abs_request where
  "abs_sample = \<lparr>a_method = bytes ''GET'', a_path = bytes ''/a'', a_query = Some (bytes ''b''), a_minor = 1,
     a_headers = [(bytes ''Host'', bytes ''h'')]\<rparr>"

definition abs_sample_bare :: abs_request where
  "abs_sample_bare = \<lparr>a_method = bytes ''GET'', a_path = bytes ''/'', a_query = None, a_minor = 1,
     a_headers = []\<rparr>"

lemma render_sample: "render_request abs_sample = sample_host"
  by (simp add: abs_sample_def sample_text render_request_def render_line_def render_target_def
      render_headers_def render_header_def bytes_def)

lemma wf_sample: "wf_request abs_sample"
  unfolding wf_request_def render_sample
  by (simp add: abs_sample_def render_target_def wf_header_def bytes_def is_tchar_def is_target_char_def
      is_field_vchar_def is_ows_def HTTP_PARSE_MAX_LEN_def)

lemma parse_sample:
  "abs_parse abs_sample = Inr (abs_state0\<lparr>m_host := Some (bytes ''h'')\<rparr>)"
  by (simp add: abs_sample_def abs_parse_def abs_header_def abs_state0_def lower_def bytes_def evals)

lemma http_parse_request_refines_witness:
  "(\<exists>r. http_parse_request (sample_host @ sample_get) 48 = Inr (30, r)
      \<and> represents (sample_host @ sample_get) r abs_sample (abs_state0\<lparr>m_host := Some (bytes ''h'')\<rparr>))
   \<and> http_parse_request (render_request abs_sample_bare) 18 = Inl PARSE_BAD"
proof
  have len: "length (render_request abs_sample) \<le> 48" "(48 :: nat) \<le> HTTP_PARSE_MAX_LEN"
    by (simp_all add: render_sample HTTP_PARSE_MAX_LEN_def)
  show "\<exists>r. http_parse_request (sample_host @ sample_get) 48 = Inr (30, r)
      \<and> represents (sample_host @ sample_get) r abs_sample (abs_state0\<lparr>m_host := Some (bytes ''h'')\<rparr>)"
    using http_parse_request_refines [OF wf_sample len, of sample_get]
    by (simp add: parse_sample render_sample)
  have wf: "wf_request abs_sample_bare" and len: "length (render_request abs_sample_bare) = 18"
    and verdict: "abs_parse abs_sample_bare = Inl PARSE_BAD"
    by (simp_all add: abs_sample_bare_def wf_request_def render_request_def render_line_def render_target_def
        render_headers_def bytes_def is_tchar_def is_target_char_def HTTP_PARSE_MAX_LEN_def abs_parse_def
        abs_state0_def)
  show "http_parse_request (render_request abs_sample_bare) 18 = Inl PARSE_BAD"
    using http_parse_request_refines [OF wf, of 18 "[]"] by (simp add: len verdict HTTP_PARSE_MAX_LEN_def)
qed

section \<open>Looking a header up\<close>

definition abs_lookup :: "(byte list \<times> byte list) list \<Rightarrow> byte list \<Rightarrow> byte list option" where
  "abs_lookup hs name = map_option snd (find (\<lambda>h. lower (fst h) = lower name) hs)"

lemma get_header_loop_part:
  assumes "b = pre @ render_headers hs @ ys" and "list_all wf_header hs"
    and "length pre + length (render_headers hs) < 65536"
  shows "map_option (slice_of b)
      (get_header_loop b (length pre) (length pre + length (render_headers hs)) name) = abs_lookup hs name"
  using assms
proof (induction hs arbitrary: pre)
  case Nil
  then show ?case by (subst get_header_loop.simps) (simp add: abs_lookup_def)
next
  case (Cons h hs)
  let ?p = "length pre" and ?eol = "length pre + length (render_header h)" and ?k = "length (fst h)"
  let ?pre' = "pre @ render_header h @ [CR, LF]" and ?e = "length pre + length (render_headers (h # hs))"
  have wf: "wf_header h" using Cons.prems by simp
  have b1: "b = pre @ render_header h @ CR # (LF # render_headers hs @ ys)" using Cons.prems(1) by simp
  have lt: "?p < ?e" "?eol < 65536" using Cons.prems(3) by simp_all
  note part = header_part [OF b1 wf]
  have cr: "memchr b ?p ?e CR = Some ?eol"
    using memchr_hit [OF b1 conjunct1 [OF render_header_no_CR [OF wf]]] by simp
  have same: "?k = length name \<and> ascii_ieq (fst h) name (length name) \<longleftrightarrow> lower (fst h) = lower name"
    using ascii_ieq_iff [of "fst h" "length name" name] lower_eq_length [of "fst h" name] by auto
  have rest: "map_option (slice_of b) (get_header_loop b (?eol + 2) ?e name) = abs_lookup hs name"
    using Cons.IH [of ?pre'] Cons.prems by (simp add: add.assoc)
  have val: "slice_of b (mk_slice (?p + ?k + 2) ?eol) = snd h"
    using part(5,6) lt by (simp add: slice_of_mk_slice)
  show ?case
    using cr part(1-4) rest val same lt
    by (subst get_header_loop.simps) (simp add: abs_lookup_def Let_def)
qed

text \<open>
  Header lookup agrees with the message. On a request parsed from a rendered message,
  \<open>http_get_header\<close> returns the value of the first header whose name matches without case,
  and nothing when there is none.
\<close>

theorem http_get_header_finds:
  assumes wf: "wf_request a" and len: "length (render_request a) \<le> len" and small: "len \<le> HTTP_PARSE_MAX_LEN"
    and parsed: "http_parse_request (render_request a @ rest) len = Inr (n, r)"
  shows "map_option (slice_of (render_request a @ rest)) (http_get_header (render_request a @ rest) r name)
    = abs_lookup (a_headers a) name"
proof -
  let ?b = "render_request a @ rest" and ?l = "length (render_line a @ [CR, LF])"
  let ?e = "?l + length (render_headers (a_headers a))"
  have b: "?b = (render_line a @ [CR, LF]) @ render_headers (a_headers a) @ [CR, LF] @ rest"
    by (simp add: render_request_def)
  have hb: "req_header_block r = mk_slice ?l ?e"
    using http_parse_request_sim [OF wf len small, of rest] parsed by (auto split: sum.splits)
  have e: "?e < 65536" using len small by (simp add: render_request_def HTTP_PARSE_MAX_LEN_def)
  have hs: "list_all wf_header (a_headers a)" using wf by (simp add: wf_request_def)
  have "slice_end (req_header_block r) = ?e" unfolding hb using e by (simp add: slice_end_mk_slice)
  moreover have "unat (s_off (req_header_block r)) = ?l"
    unfolding hb mk_slice_def using unat_of_nat_16 [of ?l] e by simp
  ultimately show ?thesis
    using get_header_loop_part [OF b hs e] by (simp add: http_get_header_def)
qed

text \<open>The lookup of \<open>HOST\<close> in the sample request.\<close>

lemma http_get_header_finds_witness:
  "\<exists>n r. http_parse_request (sample_host @ []) 30 = Inr (n, r)
    \<and> map_option (slice_of (sample_host @ [])) (http_get_header (sample_host @ []) r (bytes ''HOST''))
      = Some (bytes ''h'')"
proof -
  have len: "length (render_request abs_sample) \<le> 30" "(30 :: nat) \<le> HTTP_PARSE_MAX_LEN"
    by (simp_all add: render_sample HTTP_PARSE_MAX_LEN_def)
  have "abs_lookup (a_headers abs_sample) (bytes ''HOST'') = Some (bytes ''h'')"
    by (simp add: abs_lookup_def abs_sample_def lower_def bytes_def ascii_lower_def)
  with http_get_header_finds [OF wf_sample len, of "[]" 30 sample_host_request "bytes ''HOST''"]
  show ?thesis by (simp add: render_sample sample_host_parse)
qed

end
