(* ===== verification/Http_Accepted.thy ===== *)
theory Http_Accepted
  imports Http_Grammar
begin

text \<open>
  The converse of the refinement in \<open>Http_Grammar\<close>: what the bytes of an accepted request look like.
  Every accepted request is a method token, a target, a version and header lines of the message
  grammar, and the parsed request says what they say. The parser checks of the authority of an
  absolute-form target only that it holds no space, slash or CR; \<open>target_ok\<close> says no more of it.
\<close>

section \<open>The two trimming loops\<close>

lemma trim_left_ows: "v \<le> i \<Longrightarrow> i < trim_left b v e \<Longrightarrow> is_ows (b ! i)"
proof (induction b v e rule: trim_left.induct)
  case (1 b v e)
  show ?case
  proof (cases "v < e \<and> is_ows (b ! v)")
    case True
    then have "trim_left b v e = trim_left b (Suc v) e" by (simp add: trim_left_step)
    then show ?thesis using 1 True by (cases "i = v") auto
  next
    case False
    then have "trim_left b v e = v" by (intro trim_left_id) auto
    then show ?thesis using "1.prems" by simp
  qed
qed

lemma trim_left_stop: "trim_left b v e < e \<Longrightarrow> \<not> is_ows (b ! trim_left b v e)"
proof (induction b v e rule: trim_left.induct)
  case (1 b v e)
  show ?case
  proof (cases "v < e \<and> is_ows (b ! v)")
    case True
    then have "trim_left b v e = trim_left b (Suc v) e" by (simp add: trim_left_step)
    then show ?thesis using 1 True by simp
  next
    case False
    then have "trim_left b v e = v" by (intro trim_left_id) auto
    then show ?thesis using "1.prems" False by simp
  qed
qed

lemma trim_right_ows: "trim_right b v e \<le> i \<Longrightarrow> i < e \<Longrightarrow> is_ows (b ! i)"
proof (induction b v e rule: trim_right.induct)
  case (2 b v e)
  then show ?case by (cases "i = e") (auto split: if_splits)
qed simp

lemma trim_right_stop: "v < trim_right b v e \<Longrightarrow> \<not> is_ows (b ! (trim_right b v e - 1))"
  by (induction b v e rule: trim_right.induct) auto

section \<open>Header lines\<close>

text \<open>A line of the header section: the field \<open>h\<close>, with optional white space around its value.\<close>

definition field_line :: "byte list \<Rightarrow> byte list \<times> byte list \<Rightarrow> bool" where
  "field_line l h = (wf_header h \<and> (\<exists>w1 w2. l = fst h @ [58] @ w1 @ snd h @ w2 \<and> list_all is_ows (w1 @ w2)))"

lemma hd_slice: "p < e \<Longrightarrow> e \<le> length b \<Longrightarrow> hd (bslice b p e) = b ! p"
  by (simp add: bslice_Cons)

lemma last_slice: "p < e \<Longrightarrow> e \<le> length b \<Longrightarrow> last (bslice b p e) = b ! (e - 1)"
proof -
  assume e: "p < e" "e \<le> length b"
  then have "bslice b p e = bslice b p (e - 1) @ bslice b (e - 1) e" by (intro slice_split) auto
  moreover have "bslice b (e - 1) e = [b ! (e - 1)]" using e bslice_Cons [of "e - 1" e b] by simp
  ultimately show ?thesis by simp
qed

lemma header_line_field:
  assumes line: "header_line b p eol req seen = Inr (r, s)" and eol: "eol \<le> length b" "eol < 65536"
    and rep: "rep b req seen m"
  obtains h m' where "field_line (bslice b p eol) h" "abs_header h m = Some m'" "rep b r s m'"
proof -
  obtain colon where colon: "memchr b p eol 58 = Some colon"
    using line by (cases "memchr b p eol 58") (auto simp: header_line_def split: if_splits)
  define v where "v = trim_left b (colon + 1) eol"
  define ve where "ve = trim_right b v eol"
  let ?h = "(bslice b p colon, bslice b v ve)"
  from line colon have name: "colon \<noteq> p" "list_all is_tchar (bslice b p colon)"
    and chars: "list_all is_field_vchar (bslice b v ve)"
    and handle: "handle_header b (fst ?h) v ve req seen = Inr (r, s)"
    by (auto simp: header_line_def v_def ve_def Let_def split: if_splits)
  note c = memchr_bounds [OF colon]
  have b: "p < colon" "colon < v" "v \<le> ve" "ve \<le> eol" "v \<le> eol"
    using c name(1) value_bounds [of colon eol b] by (auto simp: v_def ve_def)
  have "bslice b p eol = bslice b p colon @ bslice b colon eol" using b by (intro slice_split) auto
  also have "bslice b colon eol = 58 # bslice b (Suc colon) eol" using c eol by (simp add: bslice_Cons)
  also have "bslice b (Suc colon) eol = bslice b (Suc colon) v @ bslice b v eol" using b by (intro slice_split) auto
  also have "bslice b v eol = bslice b v ve @ bslice b ve eol" using b by (intro slice_split) auto
  finally have split: "bslice b p eol = fst ?h @ [58] @ bslice b (Suc colon) v @ snd ?h @ bslice b ve eol" by simp
  have ows: "list_all is_ows (bslice b (Suc colon) v @ bslice b ve eol)"
    using trim_left_ows [of "colon + 1" _ b eol] trim_right_ows [of b v eol] b eol
    by (auto simp: list_all_slice v_def ve_def)
  have "wf_header ?h"
  proof -
    have "bslice b p colon \<noteq> []" using b eol by (simp add: bslice_Cons)
    moreover have "\<not> is_ows (hd (bslice b v ve))" "\<not> is_ows (last (bslice b v ve))" if "bslice b v ve \<noteq> []"
    proof -
      have lt: "v < ve" using that by (cases "v < ve") (auto simp: bslice_def)
      then show "\<not> is_ows (hd (bslice b v ve))" using trim_left_stop [of b "colon + 1" eol, folded v_def] b eol
        by (simp add: hd_slice)
      show "\<not> is_ows (last (bslice b v ve))" using trim_right_stop [of v b eol, folded ve_def] lt b eol
        by (simp add: last_slice)
    qed
    ultimately show ?thesis using name(2) chars by (simp add: wf_header_def)
  qed
  with split ows have line: "field_line (bslice b p eol) ?h" unfolding field_line_def by blast
  have "ve < 65536" using b eol by simp
  note sim = handle_header_sim [of b v ve ?h, OF _ b(3) this rep]
  from sim handle obtain m' where "abs_header ?h m = Some m'" "rep b r s m'" by (auto split: option.splits)
  with line show ?thesis by (rule that)
qed

text \<open>The header loop took apart a sequence of such lines, and accumulated their meaning.\<close>

definition crlf_lines :: "byte list list \<Rightarrow> byte list" where
  "crlf_lines ls = concat (map (\<lambda>l. l @ [CR, LF]) ls)"

lemma parse_headers_range:
  assumes "parse_headers b e p req seen = Inr (eol, r, s)"
  shows "p \<le> eol \<and> eol \<le> e"
  using assms
proof (induction p req seen "(eol, r, s)" rule: parse_headers_induct)
  case stop
  then show ?case using find_crlf_bounds [OF stop] by simp
next
  case (step p req seen k req' seen')
  then show ?case by simp
qed

lemma parse_headers_lines:
  assumes "parse_headers b e p req seen = Inr (eol, r, s)" and "e \<le> length b" and "e < 65538" and "rep b req seen m"
  shows "\<exists>ls hs m'. bslice b p eol = crlf_lines ls \<and> list_all2 field_line ls hs
    \<and> abs_headers hs m = Some m' \<and> rep b r s m'"
  using assms(1,4)
proof (induction p req seen "(eol, r, s)" arbitrary: m rule: parse_headers_induct)
  case stop
  show ?case by (intro exI [of _ "[]"] exI [of _ m]) (use stop in \<open>simp add: crlf_lines_def bslice_def\<close>)
next
  case (step p req seen k req' seen')
  note k = find_crlf_bounds [OF step(1)]
  obtain h m1 where h: "field_line (bslice b p k) h" "abs_header h m = Some m1" "rep b req' seen' m1"
    by (rule header_line_field [OF step(3) _ _ step(6)]) (use k assms(2,3) in auto)
  from step(5) [OF h(3)] obtain ls hs m' where rest: "bslice b (k + 2) eol = crlf_lines ls" "list_all2 field_line ls hs"
    "abs_headers hs m1 = Some m'" "rep b r s m'" by blast
  have "k + 2 \<le> eol" "eol \<le> length b"
    using parse_headers_range [OF step(4)] k assms(2) by auto
  then have "bslice b p eol = bslice b p k @ bslice b k eol" "bslice b k eol = bslice b k (k + 2) @ bslice b (k + 2) eol"
    using k by (intro slice_split; simp)+
  moreover have "bslice b k (k + 2) = [CR, LF]"
    using k assms(2) by (simp add: bslice_Cons [of k] bslice_Cons [of "Suc k"])
  ultimately have "bslice b p eol = crlf_lines (bslice b p k # ls)" using rest(1) by (simp add: crlf_lines_def)
  then show ?case
    by (intro exI [of _ "bslice b p k # ls"] exI [of _ "h # hs"] exI [of _ m']) (use h rest in simp)
qed

section \<open>The request line\<close>

text \<open>The scheme and the authority of an absolute-form target.\<close>

definition absolute :: "byte list \<Rightarrow> bool" where
  "absolute t = (\<exists>scheme authority. t = scheme @ authority \<and> 47 \<notin> set authority
     \<and> lower scheme \<in> {bytes ''http://'', bytes ''https://''})"

text \<open>
  A target with its path and query. An origin-form target is the path and the query; an absolute-form one
  has a scheme and an authority before them and may have no path. Path and query are visible
  ASCII characters.
\<close>

definition target_ok :: "byte list \<Rightarrow> byte list \<Rightarrow> byte list \<Rightarrow> bool" where
  "target_ok t path query = (t \<noteq> [] \<and> 32 \<notin> set t \<and> CR \<notin> set t
     \<and> (\<exists>pre q. t = pre @ path @ q \<and> (pre = [] \<or> absolute pre)
         \<and> (path = [] \<and> q = [] \<or> path \<noteq> [] \<and> hd path = 47) \<and> 63 \<notin> set path
         \<and> (q = [] \<and> query = [] \<or> q = 63 # query) \<and> list_all is_target_char (path @ q)))"

lemma ascii_ieq_prefix: "ascii_ieq a b n \<Longrightarrow> length b = n \<Longrightarrow> lower (take n a) = lower b"
  by (induction a b n rule: ascii_ieq.induct) (auto simp: lower_def)

lemma scheme_prefix:
  assumes ieq: "ascii_ieq (bslice b t e) lit n" and lit: "length lit = n" "lower lit = lit" "lit \<in> {bytes ''http://'', bytes ''https://''}"
    and "n \<le> e - t" and m: "t + n \<le> m" "m \<le> e" "e \<le> length b" and slash: "\<forall>j. t + n \<le> j \<and> j < m \<longrightarrow> b ! j \<noteq> 47"
  shows "absolute (bslice b t m)"
proof -
  have "take n (bslice b t e) = bslice b t (t + n)" using assms(5) by (simp add: bslice_def min_def)
  then have "lower (bslice b t (t + n)) = lit" using ascii_ieq_prefix [OF ieq lit(1)] lit(2) by simp
  moreover have "bslice b t m = bslice b t (t + n) @ bslice b (t + n) m" using m by (intro slice_split) auto
  moreover have "47 \<notin> set (bslice b (t + n) m)" using slash m by (auto simp: set_slice)
  ultimately show ?thesis using lit(3) unfolding absolute_def by blast
qed

lemma target_path_start_absolute:
  assumes "target_path_start b t e = Inr st" and "t < e" and "e \<le> length b"
  shows "case st of None \<Rightarrow> absolute (bslice b t e)
    | Some p \<Rightarrow> t \<le> p \<and> p < e \<and> b ! p = 47 \<and> (p = t \<or> absolute (bslice b t p))"
proof -
  have lits: "lower (bytes ''http://'') = bytes ''http://''" "lower (bytes ''https://'') = bytes ''https://''"
    "length (bytes ''http://'') = 7" "length (bytes ''https://'') = 8"
    by (simp_all add: lower_def bytes_def ascii_lower_def)
  have abs: "case memchr b (t + n) e 47 of None \<Rightarrow> absolute (bslice b t e)
      | Some p \<Rightarrow> t \<le> p \<and> p < e \<and> b ! p = 47 \<and> (p = t \<or> absolute (bslice b t p))"
    if "ascii_ieq (bslice b t e) lit n" "length lit = n" "lower lit = lit" "lit \<in> {bytes ''http://'', bytes ''https://''}" "n \<le> e - t"
    for lit n
  proof (cases "memchr b (t + n) e 47")
    case None
    have "absolute (bslice b t e)"
      by (rule scheme_prefix [OF that]) (use that(5) assms(2,3) None in \<open>auto simp: memchr_None_iff\<close>)
    with None show ?thesis by simp
  next
    case (Some p)
    then have p: "t + n \<le> p" "p < e" "b ! p = 47" "\<forall>j. t + n \<le> j \<and> j < p \<longrightarrow> b ! j \<noteq> 47"
      by (auto simp: memchr_Some_iff)
    have "absolute (bslice b t p)" by (rule scheme_prefix [OF that]) (use p assms(3) in auto)
    with Some p show ?thesis by simp
  qed
  consider (origin) "b ! t = 47" "st = Some t"
    | (http) "7 \<le> e - t" "ascii_ieq (bslice b t e) (bytes ''http://'') 7" "st = memchr b (t + 7) e 47"
    | (https) "8 \<le> e - t" "ascii_ieq (bslice b t e) (bytes ''https://'') 8" "st = memchr b (t + 8) e 47"
    using assms(1) by (auto simp: target_path_start_def split: if_splits)
  then show ?thesis
  proof cases
    case origin
    then show ?thesis using assms(2) by simp
  next
    case http
    show ?thesis unfolding http(3) by (rule abs [OF http(2) lits(3,1) _ http(1)]) simp
  next
    case https
    show ?thesis unfolding https(3) by (rule abs [OF https(2) lits(4,2) _ https(1)]) simp
  qed
qed

lemma parse_request_target_accepted:
  assumes run: "parse_request_target b t e req = Inr r" and t: "t < e" "e < 65536" "e \<le> length b"
    and chars: "32 \<notin> set (bslice b t e)" "CR \<notin> set (bslice b t e)" and q0: "req_query req = slice0"
  shows "slice_of b (req_target r) = bslice b t e
    \<and> target_ok (bslice b t e) (slice_of b (req_path r)) (slice_of b (req_query r))
    \<and> req_method r = req_method req \<and> req_flags r = req_flags req"
proof -
  have ne: "bslice b t e \<noteq> []" using t by (simp add: bslice_Cons)
  obtain st where st: "target_path_start b t e = Inr st"
    using run by (cases "target_path_start b t e") (auto simp: parse_request_target_def)
  note shape = target_path_start_absolute [OF st t(1,3)]
  show ?thesis
  proof (cases st)
    case None
    have "target_ok (bslice b t e) [] []"
      unfolding target_ok_def using ne chars shape None by (intro conjI exI [of _ "bslice b t e"] exI [of _ "[]"]) auto
    then show ?thesis using run st None t q0 by (auto simp: parse_request_target_def slice_of_mk_slice)
  next
    case (Some p)
    then have p: "t \<le> p" "p < e" "b ! p = 47" "p = t \<or> absolute (bslice b t p)" using shape by auto
    have vis: "list_all is_target_char (bslice b p e)" using run st Some by (simp add: parse_request_target_def split: if_splits)
    have split: "bslice b t e = bslice b t p @ bslice b p e" using p by (intro slice_split) auto
    have pre: "bslice b t p = [] \<or> absolute (bslice b t p)" using p(4) by (auto simp: bslice_def)
    show ?thesis
    proof (cases "memchr b p e 63")
      case None
      then have "63 \<notin> set (bslice b p e)" using t by (auto simp: set_slice memchr_None_iff)
      moreover have "bslice b p e \<noteq> []" "hd (bslice b p e) = 47" using p t by (simp_all add: bslice_Cons)
      ultimately have "target_ok (bslice b t e) (bslice b p e) []"
        unfolding target_ok_def using ne chars pre vis split
        by (intro conjI exI [of _ "bslice b t p"] exI [of _ "[]"]) auto
      then show ?thesis using run st Some None vis t p q0 by (auto simp: parse_request_target_def slice_of_mk_slice)
    next
      case q: (Some q)
      then have qb: "p \<le> q" "q < e" "b ! q = 63" "\<forall>j. p \<le> j \<and> j < q \<longrightarrow> b ! j \<noteq> 63"
        by (auto simp: memchr_Some_iff)
      then have lt: "p < q" using p(3) by (cases "p = q") auto
      have "bslice b p e = bslice b p q @ bslice b q e" using lt qb by (intro slice_split) auto
      moreover have "bslice b q e = 63 # bslice b (q + 1) e" using qb t by (simp add: bslice_Cons)
      ultimately have pq: "bslice b p e = bslice b p q @ 63 # bslice b (q + 1) e" by simp
      have "63 \<notin> set (bslice b p q)" using qb t by (auto simp: set_slice)
      moreover have "bslice b p q \<noteq> []" "hd (bslice b p q) = 47" using lt p t qb by (simp_all add: bslice_Cons)
      ultimately have "target_ok (bslice b t e) (bslice b p q) (bslice b (q + 1) e)"
        unfolding target_ok_def using ne chars pre vis split pq
        by (intro conjI exI [of _ "bslice b t p"] exI [of _ "63 # bslice b (q + 1) e"]) auto
      then show ?thesis using run st Some q vis t p qb by (auto simp: parse_request_target_def slice_of_mk_slice)
    qed
  qed
qed

lemma parse_version_text:
  assumes "parse_version b v eol = Inr d" and "eol \<le> length b"
  shows "bslice b v eol = bytes ''HTTP/1.'' @ [48 + d] \<and> d \<le> 1"
proof -
  have len: "eol = v + 8" and pre: "bslice b v (v + 7) = bytes ''HTTP/1.''" and d: "b ! (v + 7) = 48 + d" "d \<le> 1"
    using assms(1) by (auto simp: parse_version_def split: if_splits)
  have "bslice b v eol = bslice b v (v + 7) @ bslice b (v + 7) eol" using len by (intro slice_split) auto
  moreover have "bslice b (v + 7) eol = [b ! (v + 7)]" using len assms(2) bslice_Cons [of "v + 7" eol b] by (simp add: bslice_def)
  ultimately show ?thesis using pre d by simp
qed

lemma parse_request_line_accepted:
  assumes line: "parse_request_line b 0 eol http_request0 = Inr r" and eol: "eol < 65536" "eol \<le> length b"
    and cr: "\<forall>j < eol. b ! j \<noteq> CR"
  obtains meth where "bslice b 0 eol = meth @ [32] @ slice_of b (req_target r) @ [32] @ bytes ''HTTP/1.'' @ [48 + req_minor_version r]"
    "meth \<noteq> []" "list_all is_tchar meth" "req_method r = parse_method meth"
    "target_ok (slice_of b (req_target r)) (slice_of b (req_path r)) (slice_of b (req_query r))"
    "req_minor_version r \<le> 1" "req_flags r = 0"
proof -
  from line obtain sp1 sp2 v r' where sp: "memchr b 0 eol 32 = Some sp1" "sp1 \<noteq> 0" "list_all is_tchar (bslice b 0 sp1)"
      "memchr b (sp1 + 1) eol 32 = Some sp2" "sp2 \<noteq> sp1 + 1"
    and t: "parse_request_target b (sp1 + 1) sp2 (http_request0\<lparr>req_method := parse_method (bslice b 0 sp1)\<rparr>) = Inr r'"
    and v: "parse_version b (sp2 + 1) eol = Inr v" and r: "r = r'\<lparr>req_minor_version := v\<rparr>"
    by (rule parse_request_line_Inr)
  have s: "0 < sp1" "sp1 + 1 < sp2" "sp2 < eol" "b ! sp1 = 32" "b ! sp2 = 32"
    using memchr_bounds [OF sp(1)] memchr_bounds [OF sp(4)] sp(2,5) by auto
  have no: "32 \<notin> set (bslice b (sp1 + 1) sp2)" "CR \<notin> set (bslice b (sp1 + 1) sp2)"
    using sp(4) cr s eol by (auto simp: set_slice memchr_Some_iff)
  note tgt = parse_request_target_accepted [OF t s(2) _ _ no]
  have tgt: "slice_of b (req_target r') = bslice b (sp1 + 1) sp2"
    "target_ok (bslice b (sp1 + 1) sp2) (slice_of b (req_path r')) (slice_of b (req_query r'))"
    "req_method r' = parse_method (bslice b 0 sp1)" "req_flags r' = 0"
    using tgt s eol by (simp_all add: http_request0_def)
  have "bslice b 0 eol = bslice b 0 sp1 @ bslice b sp1 eol" using s by (intro slice_split) auto
  also have "bslice b sp1 eol = 32 # bslice b (sp1 + 1) eol" using s eol by (simp add: bslice_Cons [of sp1])
  also have "bslice b (sp1 + 1) eol = bslice b (sp1 + 1) sp2 @ bslice b sp2 eol" using s by (intro slice_split) auto
  also have "bslice b sp2 eol = 32 # bslice b (sp2 + 1) eol" using s eol by (simp add: bslice_Cons [of sp2])
  finally have "bslice b 0 eol = bslice b 0 sp1 @ [32] @ slice_of b (req_target r) @ [32] @ bytes ''HTTP/1.'' @ [48 + req_minor_version r]"
    using parse_version_text [OF v eol(2)] tgt(1) by (simp add: r)
  moreover have "bslice b 0 sp1 \<noteq> []" using s eol by (simp add: bslice_Cons)
  ultimately show ?thesis using that [of "bslice b 0 sp1"] sp(3) tgt parse_version_text [OF v eol(2)] by (simp add: r)
qed

section \<open>The whole request\<close>

text \<open>What the parsed request says about the connection and the body, next to the meaning of the fields.\<close>

definition says :: "byte list \<Rightarrow> http_request \<Rightarrow> abs_state \<Rightarrow> bool" where
  "says b r m =
     ((m_host m \<noteq> None \<longrightarrow> slice_of b (req_host r) = the (m_host m))
    \<and> (has_flag r HTTP_FLAG_CONTENT_LENGTH \<longleftrightarrow> m_length m \<noteq> None)
    \<and> (m_length m \<noteq> None \<longrightarrow> unat (req_content_length r) = the (m_length m))
    \<and> (has_flag r HTTP_FLAG_TRANSFER_ENCODING \<longleftrightarrow> m_te m)
    \<and> (has_flag r HTTP_FLAG_CONNECTION_CLOSE \<longleftrightarrow> m_close m)
    \<and> (has_flag r HTTP_FLAG_CONNECTION_KEEP_ALIVE \<longleftrightarrow> m_keep m))"

text \<open>A Host with a meaning is valid.\<close>

lemma abs_headers_host:
  "abs_headers hs m = Some m' \<Longrightarrow> (\<forall>h. m_host m = Some h \<longrightarrow> validate_host h) \<Longrightarrow> m_host m' = Some h \<Longrightarrow> validate_host h"
proof (induction hs arbitrary: m)
  case (Cons x hs)
  obtain m1 where m1: "abs_header x m = Some m1" "abs_headers hs m1 = Some m'" using Cons.prems(1) by (auto split: option.splits)
  have "\<forall>h. m_host m1 = Some h \<longrightarrow> validate_host h"
    using m1(1) Cons.prems(2) by (auto simp: abs_header_def split: if_splits)
  with Cons.IH [OF m1(2)] Cons.prems(3) show ?case by blast
qed simp

text \<open>
  C4. Soundness of the parser. The first \<open>n\<close> bytes of an accepted request are a non-empty method token, a
  target, \<open>HTTP/1.0\<close> or \<open>HTTP/1.1\<close>, a sequence of header lines, each a token, a colon and a clean value
  with optional white space around it, and an empty line. The parsed request names that method, that
  target with its path and query, that version and that header block. The header lines have a meaning:
  at most one Host, and a valid one, and at most one Content-Length, of digits and below \<open>2 ^ 32\<close>; the request
  reports exactly those values and the Connection tokens. There is no transfer coding, and a 1.1
  request has its Host. Of the authority of an absolute-form target nothing is checked but that it has no
  space, slash or CR.
\<close>

theorem http_parse_request_accepted:
  assumes "http_parse_request b len = Inr (n, r)" and "len \<le> length b"
  shows "\<exists>meth ls hs m. take n b = meth @ [32] @ slice_of b (req_target r) @ [32] @ bytes ''HTTP/1.''
        @ [48 + req_minor_version r] @ [CR, LF] @ crlf_lines ls @ [CR, LF]
    \<and> meth \<noteq> [] \<and> list_all is_tchar meth \<and> req_method r = parse_method meth
    \<and> target_ok (slice_of b (req_target r)) (slice_of b (req_path r)) (slice_of b (req_query r))
    \<and> req_minor_version r \<le> 1 \<and> slice_of b (req_header_block r) = crlf_lines ls
    \<and> list_all2 field_line ls hs \<and> abs_headers hs abs_state0 = Some m \<and> says b r m
    \<and> \<not> m_te m \<and> (req_minor_version r = 1 \<longrightarrow> m_host m \<noteq> None)
    \<and> (m_host m \<noteq> None \<longrightarrow> validate_host (slice_of b (req_host r)))"
proof -
  from assms(1) obtain eol eol' req req' seen where
    c: "find_crlf b 0 (min len 65535) = Inr eol"
    and l: "parse_request_line b 0 eol http_request0 = Inr req"
    and h: "parse_headers b (min len 65535) (eol + 2) req 0 = Inr (eol', req', seen)"
    and f: "parse_finish (eol + 2) eol' req' seen = Inr (n, r)"
    and n: "n = eol' + 2" and le: "eol + 2 \<le> eol'" "n \<le> min len 65535"
    and c': "find_crlf b eol' (min len 65535) = Inr eol'"
    by (rule http_parse_request_offsets)
  have lt: "eol < 65536" "eol \<le> length b" "eol' + 2 < 65536" "n \<le> length b" using le n assms(2) by simp_all
  note first = find_crlf_bounds [OF c] and last = find_crlf_bounds [OF c']
  obtain meth where line: "bslice b 0 eol = meth @ [32] @ slice_of b (req_target req) @ [32] @ bytes ''HTTP/1.'' @ [48 + req_minor_version req]"
    "meth \<noteq> []" "list_all is_tchar meth" "req_method req = parse_method meth"
    "target_ok (slice_of b (req_target req)) (slice_of b (req_path req)) (slice_of b (req_query req))"
    "req_minor_version req \<le> 1" "req_flags req = 0"
    by (rule parse_request_line_accepted [OF l lt(1,2)]) (use first in auto)
  have "rep b req 0 abs_state0" using line(7) by (simp add: rep_def abs_state0_def has_flag_def)
  with parse_headers_lines [OF h] assms(2) obtain ls hs m where hs: "bslice b (eol + 2) eol' = crlf_lines ls"
    "list_all2 field_line ls hs" "abs_headers hs abs_state0 = Some m" "rep b req' seen m" by force
  have "same_request_line req req'" using parse_headers_keeps [OF h] by (simp add: host_seen_valid_def)
  then have same: "req_target r = req_target req" "req_path r = req_path req" "req_query r = req_query req"
    "req_method r = req_method req" "req_minor_version r = req_minor_version req"
    using parse_finish_Inr(3) [OF f lt(3)] by (simp_all add: same_request_line_def)
  note fin = parse_finish_Inr [OF f lt(3)]
  have says: "says b r m" "(seen AND SEEN_HOST \<noteq> 0) = (m_host m \<noteq> None)"
    using hs(4) by (auto simp: says_def rep_def fin(3) has_flag_def split: option.splits)
  have "\<not> m_te m" using fin(4) says(1) by (simp add: says_def)
  have crlf: "bslice b k (k + 2) = [CR, LF]" if "b ! k = CR" "b ! (k + 1) = LF" "k + 2 \<le> length b" for k
    using that by (simp add: bslice_Cons [of k] bslice_Cons [of "Suc k"])
  have "take n b = bslice b 0 eol @ bslice b eol n" using slice_split [of 0 eol n b] n le by (simp add: bslice_def)
  also have "bslice b eol n = bslice b eol (eol + 2) @ bslice b (eol + 2) n" using n le by (intro slice_split) auto
  also have "bslice b (eol + 2) n = bslice b (eol + 2) eol' @ bslice b eol' n" using n le by (intro slice_split) auto
  finally have "take n b = bslice b 0 eol @ [CR, LF] @ crlf_lines ls @ [CR, LF]"
    using crlf [of eol] crlf [of eol'] first last hs(1) n lt le by simp
  moreover have "slice_of b (req_header_block r) = crlf_lines ls"
    using hs(1) le lt by (simp add: fin(3) slice_of_mk_slice)
  moreover have "req_minor_version r = 1 \<longrightarrow> m_host m \<noteq> None" using fin(5) says(2) by blast
  moreover have "m_host m \<noteq> None \<longrightarrow> validate_host (slice_of b (req_host r))"
    using abs_headers_host [OF hs(3)] says(1) by (auto simp: says_def abs_state0_def)
  ultimately show ?thesis using line hs(2,3) says(1) \<open>\<not> m_te m\<close> unfolding same
    by (intro exI [of _ meth] exI [of _ ls] exI [of _ hs] exI [of _ m]) simp
qed

lemma http_parse_request_accepted_witness:
  "\<exists>meth ls hs m. sample_host = meth @ bytes '' /a?b HTTP/1.1'' @ [CR, LF] @ crlf_lines ls @ [CR, LF]
    \<and> meth \<noteq> [] \<and> list_all is_tchar meth \<and> parse_method meth = METHOD_GET
    \<and> target_ok (bytes ''/a?b'') (bytes ''/a'') (bytes ''b'') \<and> crlf_lines ls = bytes ''Host: h'' @ [CR, LF]
    \<and> list_all2 field_line ls hs \<and> abs_headers hs abs_state0 = Some m
    \<and> m_host m = Some (bytes ''h'') \<and> validate_host (bytes ''h'') \<and> m_length m = None \<and> \<not> m_te m"
proof -
  let ?r = sample_host_request
  have parts: "slice_of sample_host (req_target ?r) = bytes ''/a?b''" "slice_of sample_host (req_path ?r) = bytes ''/a''"
    "slice_of sample_host (req_query ?r) = bytes ''b''" "slice_of sample_host (req_header_block ?r) = bytes ''Host: h'' @ [CR, LF]"
    "slice_of sample_host (req_host ?r) = bytes ''h''" "req_method ?r = METHOD_GET" "req_minor_version ?r = 1"
    "\<not> has_flag ?r HTTP_FLAG_CONTENT_LENGTH" "take 30 sample_host = sample_host"
    by (simp_all add: sample_host_def sample_host_request_def http_request0_def evals)
  from http_parse_request_accepted [OF sample_host_parse] obtain meth ls hs m where a:
    "sample_host = meth @ [32] @ bytes ''/a?b'' @ [32] @ bytes ''HTTP/1.'' @ [48 + 1] @ [CR, LF] @ crlf_lines ls @ [CR, LF]"
    "meth \<noteq> []" "list_all is_tchar meth" "METHOD_GET = parse_method meth"
    "target_ok (bytes ''/a?b'') (bytes ''/a'') (bytes ''b'')" "bytes ''Host: h'' @ [CR, LF] = crlf_lines ls"
    "list_all2 field_line ls hs" "abs_headers hs abs_state0 = Some m" "says sample_host ?r m" "\<not> m_te m" "m_host m \<noteq> None" "validate_host (bytes ''h'')"
    unfolding parts by auto
  have "m_host m = Some (bytes ''h'')" "m_length m = None" using a(9,11) parts by (auto simp: says_def)
  moreover have "[32] @ bytes ''/a?b'' @ [32] @ bytes ''HTTP/1.'' @ [48 + 1] = bytes '' /a?b HTTP/1.1''" by (simp add: bytes_def)
  then have "sample_host = meth @ bytes '' /a?b HTTP/1.1'' @ [CR, LF] @ crlf_lines ls @ [CR, LF]"
    using a(1) by (metis append.assoc)
  ultimately show ?thesis using a by (intro exI [of _ meth] exI [of _ ls] exI [of _ hs] exI [of _ m]) simp
qed

end
