(* ===== verification/Allocator.thy ===== *)
theory Allocator
  imports Tiny_Prelude
begin

text \<open>
  The bump allocator of \<^verbatim>\<open>src/allocator.c\<close>. Addresses, sizes and offsets are \<open>uint64_t\<close> words
  with their wrap-around; the null pointer is address 0. An arena is well formed when its
  offset does not exceed its size and the memory it is bound to does not wrap around the
  address space, which is what the caller of \<open>bump_bind\<close> provides.
\<close>

record bump =
  bp_offset :: u64
  bp_size :: u64
  bp_mem :: u64

definition bump_bind :: "u64 \<Rightarrow> u64 \<Rightarrow> bump" where
  "bump_bind mem sz = \<lparr>bp_offset = 0, bp_size = sz, bp_mem = mem\<rparr>"

text \<open>The result is the address, 0 for \<open>NULL\<close>, and the arena afterwards.\<close>

definition bump_alloc :: "bump \<Rightarrow> u64 \<Rightarrow> u64 \<Rightarrow> u64 \<times> bump" where
  "bump_alloc b sz alignment =
     (if bp_mem b = 0 \<or> alignment = 0 \<or> alignment AND (alignment - 1) \<noteq> 0 then (0, b)
      else
        let base = bp_mem b;
            current = base + bp_offset b;
            aligned = (current + alignment - 1) AND NOT (alignment - 1)
        in if aligned < current then (0, b)
           else
             let offset = aligned - base
             in if offset > bp_size b then (0, b)
                else if sz > bp_size b - offset then (0, b)
                else (aligned, b\<lparr>bp_offset := offset + sz\<rparr>))"

definition bump_reset :: "bump \<Rightarrow> bump" where
  "bump_reset b = b\<lparr>bp_offset := 0\<rparr>"

section \<open>Powers of two and rounding up\<close>

lemma nat_power_of_two_test: "a > 0 \<Longrightarrow> a AND (a - 1) = 0 \<Longrightarrow> \<exists>k. a = 2 ^ k" for a :: nat
proof (induction a rule: less_induct)
  case (less a)
  show ?case
  proof (cases "even a")
    case True
    then obtain c where c: "a = 2 * c" by blast
    have "a AND (a - 1) = 2 * (c AND (c - 1))"
    proof -
      have "c > 0" using less.prems(1) c by simp
      then have "(2 * c - 1) div 2 = c - 1" "odd (2 * c - 1)" by arith+
      then show ?thesis unfolding c by (subst and_rec) simp
    qed
    with less.prems c have "c AND (c - 1) = 0" "c > 0" "c < a" by auto
    with less.IH [of c] obtain k where "c = 2 ^ k" by blast
    with c have "a = 2 ^ Suc k" by simp
    then show ?thesis by blast
  next
    case False
    then obtain c where c: "a = 2 * c + 1" by (blast elim: oddE)
    have "a AND (a - 1) = 2 * c" unfolding c by (subst and_rec) simp
    with less.prems c have "a = 2 ^ 0" by simp
    then show ?thesis by blast
  qed
qed

lemma word_power_of_two_test:
  assumes "a \<noteq> 0" and "a AND (a - 1) = 0"
  shows "\<exists>k < LENGTH('a). a = (2 ^ k :: 'a::len word)"
proof -
  have pos: "0 < unat a" using assms(1) by (simp add: unat_gt_0)
  have "unat a AND (unat a - 1) = unat (a AND (a - 1))"
    using pos by (simp add: unat_minus_one [OF assms(1)] unsigned_and_eq)
  with assms(2) have "unat a AND (unat a - 1) = 0" by simp
  from nat_power_of_two_test [OF pos this] obtain k where k: "unat a = 2 ^ k" by blast
  have "(2 :: nat) ^ k < 2 ^ LENGTH('a)" using unsigned_less [of a, where ?'a = nat] unfolding k .
  then have "k < LENGTH('a)" by simp
  moreover have "a = 2 ^ k"
    using arg_cong [OF k, of "word_of_nat :: nat \<Rightarrow> 'a word"] by simp
  ultimately show ?thesis by blast
qed

lemma unat_round_down:
  "k < LENGTH('a) \<Longrightarrow> unat (x AND NOT (2 ^ k - 1)) = unat (x :: 'a::len word) div 2 ^ k * 2 ^ k"
proof -
  assume k: "k < LENGTH('a)"
  have "x AND NOT (2 ^ k - 1) = push_bit k (drop_bit k x)"
    by (rule bit_word_eqI) (auto simp: bit_simps mask_eq_exp_minus_1 [symmetric])
  moreover have "unat (push_bit k (drop_bit k x)) = unat x div 2 ^ k * 2 ^ k"
  proof -
    have lt: "unat x < 2 ^ LENGTH('a)" by (rule unsigned_less)
    then have "unat x div 2 ^ k * 2 ^ k < 2 ^ LENGTH('a)"
      by (rule order.strict_trans1 [rotated]) simp
    then show ?thesis
      using lt unfolding unsigned_push_bit_eq unsigned_drop_bit_eq
      by (simp add: push_bit_eq_mult drop_bit_eq_div take_bit_nat_eq_self)
  qed
  ultimately show ?thesis by simp
qed

definition round_up :: "nat \<Rightarrow> nat \<Rightarrow> nat" where
  "round_up n a = (n + a - 1) div a * a"

lemma round_up_bounds: "a > 0 \<Longrightarrow> n \<le> round_up n a \<and> round_up n a < n + a \<and> a dvd round_up n a"
proof -
  assume a: "a > 0"
  have "round_up n a + (n + a - 1) mod a = n + a - 1" unfolding round_up_def by (rule div_mult_mod_eq)
  moreover have "(n + a - 1) mod a < a" using a by simp
  moreover have "a dvd round_up n a" by (simp add: round_up_def)
  ultimately show ?thesis using a by arith
qed

text \<open>The word computation of \<open>aligned\<close>: exact, or seen to have wrapped.\<close>

lemma word_round_up:
  fixes c :: "'a::len word"
  assumes k: "k < LENGTH('a)" and c: "0 < unat c"
  shows "let r = (c + 2 ^ k - 1) AND NOT (2 ^ k - 1) in
    if round_up (unat c) (2 ^ k) < 2 ^ LENGTH('a) then c \<le> r \<and> unat r = round_up (unat c) (2 ^ k)
    else r < c"
proof -
  let ?a = "2 ^ k :: nat" and ?M = "2 ^ LENGTH('a) :: nat" and ?x = "c + 2 ^ k - 1" and ?s = "unat c + 2 ^ k - 1"
  have a: "?a dvd ?M" "?a > 0" "?a < ?M" using k by (simp_all add: le_imp_power_dvd)
  have c': "unat c < ?M" by (rule unsigned_less)
  have "word_of_nat ?s = ?x" using c by (simp add: of_nat_diff)
  then have x: "unat ?x = ?s mod ?M" by (metis unat_of_nat)
  note r = unat_round_down [OF k, of ?x]
  show ?thesis
  proof (cases "?s < ?M")
    case True
    then have "unat ?x = ?s" using x by simp
    with r have "unat (?x AND NOT (2 ^ k - 1)) = round_up (unat c) ?a" by (simp add: round_up_def)
    moreover from True have "round_up (unat c) ?a < ?M"
      unfolding round_up_def by (rule order.strict_trans1 [rotated]) simp
    ultimately show ?thesis using round_up_bounds [of ?a "unat c"] a by (simp add: Let_def word_le_nat_alt)
  next
    case False
    then have "?s mod ?M = (?s - ?M) mod ?M" by (intro le_mod_geq) simp
    also have "\<dots> = ?s - ?M" using c' a by (intro mod_less) arith
    finally have "unat ?x = ?s - ?M" using x by simp
    then have "unat ?x < ?a" using c' a by arith
    with r have "unat (?x AND NOT (2 ^ k - 1)) = 0" by simp
    moreover have "\<not> round_up (unat c) ?a < ?M"
    proof -
      have "?M div ?a * ?a \<le> ?s div ?a * ?a" using False by (intro mult_le_mono1 div_le_mono) simp
      moreover have "?M div ?a * ?a = ?M" using a(1) by (rule dvd_div_mult_self)
      ultimately show ?thesis unfolding round_up_def by (metis not_le)
    qed
    ultimately show ?thesis using c by (simp only: Let_def if_False word_less_nat_alt)
  qed
qed

section \<open>The contract of the allocator\<close>

text \<open>
  An arena the code hands out: bound to memory that ends below the top of the address space,
  with the offset inside it. \<open>arena_top\<close> is the first free address, \<open>arena_limit\<close> the end.
\<close>

definition arena_ok :: "bump \<Rightarrow> bool" where
  "arena_ok b = (0 < bp_mem b \<and> unat (bp_mem b) + unat (bp_size b) < 2 ^ 64 \<and> bp_offset b \<le> bp_size b)"

definition arena_top :: "bump \<Rightarrow> nat" where
  "arena_top b = unat (bp_mem b) + unat (bp_offset b)"

definition arena_limit :: "bump \<Rightarrow> nat" where
  "arena_limit b = unat (bp_mem b) + unat (bp_size b)"

lemma bump_alloc_cases:
  assumes ok: "arena_ok b" and al: "al \<noteq> 0" "al AND (al - 1) = 0"
  defines "q \<equiv> round_up (arena_top b) (unat al)"
  shows "if q + unat sz \<le> arena_limit b
    then \<exists>p b'. bump_alloc b sz al = (p, b') \<and> unat p = q \<and> arena_ok b' \<and> arena_top b' = q + unat sz
      \<and> bp_mem b' = bp_mem b \<and> bp_size b' = bp_size b
    else bump_alloc b sz al = (0, b)"
proof -
  from word_power_of_two_test [OF al] obtain k where k: "k < 64" "al = 2 ^ k" by auto
  have "unat (word_of_nat (2 ^ k) :: u64) = 2 ^ k"
    using power_strict_increasing [OF k(1), of "2 :: nat"] unfolding unat_of_nat by simp
  then have unal: "unat al = 2 ^ k" using k by simp
  define c where "c = bp_mem b + bp_offset b"
  define r where "r = (c + al - 1) AND NOT (al - 1)"
  have b: "0 < unat (bp_mem b)" "unat (bp_offset b) \<le> unat (bp_size b)"
    "unat (bp_mem b) + unat (bp_size b) < 2 ^ 64"
    using ok by (simp_all add: arena_ok_def word_le_nat_alt word_less_nat_alt)
  then have c: "unat c = arena_top b" "0 < unat c"
    by (simp_all add: c_def arena_top_def unat_word_ariths)
  have lim: "arena_limit b < 2 ^ 64" using b by (simp add: arena_limit_def)
  have r: "if q < 2 ^ 64 then c \<le> r \<and> unat r = q else r < c"
    using word_round_up [of k c] k c unal by (simp add: r_def q_def Let_def)
  have run: "bump_alloc b sz al = (if r < c then (0, b) else if r - bp_mem b > bp_size b then (0, b)
      else if sz > bp_size b - (r - bp_mem b) then (0, b)
      else (r, b\<lparr>bp_offset := r - bp_mem b + sz\<rparr>))"
    using al b by (auto simp: bump_alloc_def Let_def c_def r_def)
  show ?thesis
  proof (cases "q < 2 ^ 64")
    case False
    then show ?thesis using r run lim by simp
  next
    case True
    with r have le: "\<not> r < c" "unat r = q" "unat c \<le> q" by (auto simp: word_le_nat_alt word_less_nat_alt)
    have off: "unat (r - bp_mem b) = q - unat (bp_mem b)"
      using le c b by (subst unat_sub) (simp_all add: word_le_nat_alt arena_top_def)
    show ?thesis
    proof (cases "q + unat sz \<le> arena_limit b")
      case True
      then have le: "unat (r - bp_mem b) \<le> unat (bp_size b)"
        "unat sz \<le> unat (bp_size b) - unat (r - bp_mem b)"
        using off b c le by (simp_all add: arena_limit_def arena_top_def)
      moreover from this(1) have "unat (bp_size b - (r - bp_mem b)) = unat (bp_size b) - unat (r - bp_mem b)"
        by (simp add: unat_sub word_le_nat_alt)
      ultimately have "bump_alloc b sz al = (r, b\<lparr>bp_offset := r - bp_mem b + sz\<rparr>)"
        using run \<open>\<not> r < c\<close> by (simp add: word_less_nat_alt)
      moreover have "unat (r - bp_mem b + sz) = unat (r - bp_mem b) + unat sz"
        using le b by (simp add: unat_word_ariths)
      ultimately show ?thesis
        using True le off b c \<open>unat c \<le> q\<close> \<open>unat r = q\<close> ok
        by (auto simp: arena_ok_def arena_top_def word_le_nat_alt)
    next
      case False
      have "bump_alloc b sz al = (0, b)"
      proof (cases "unat (bp_size b) < unat (r - bp_mem b)")
        case True
        then show ?thesis using run by (simp add: word_less_nat_alt)
      next
        case fits: False
        then have "unat (bp_size b - (r - bp_mem b)) = unat (bp_size b) - unat (r - bp_mem b)"
          by (simp add: unat_sub word_le_nat_alt)
        moreover have "unat (bp_size b) - unat (r - bp_mem b) < unat sz"
          using False fits off c le by (simp add: arena_limit_def arena_top_def)
        ultimately show ?thesis using run by (simp add: word_less_nat_alt)
      qed
      with False show ?thesis by simp
    qed
  qed
qed

text \<open>
  C6. The allocator is exact. On a well-formed arena and for an alignment that is a power of
  two, \<open>bump_alloc\<close> returns the first aligned address at or above the free mark whenever the
  block fits below the end of the arena, and moves the mark just past the block; when the block
  does not fit, or the rounding wraps around, it returns \<open>NULL\<close> and leaves the arena as it was.
\<close>

theorem bump_alloc_exact:
  assumes "arena_ok b" and "al \<noteq> 0" "al AND (al - 1) = 0"
  shows "let q = round_up (arena_top b) (unat al) in
    if q + unat sz \<le> arena_limit b
    then \<exists>p b'. bump_alloc b sz al = (p, b') \<and> unat p = q \<and> arena_ok b' \<and> arena_top b' = q + unat sz
      \<and> bp_mem b' = bp_mem b \<and> bp_size b' = bp_size b
    else bump_alloc b sz al = (0, b)"
  using bump_alloc_cases [OF assms] by (simp add: Let_def)

lemma bump_alloc_exact_witness:
  "bump_alloc (bump_bind 4098 64) 8 16 = (4112, \<lparr>bp_offset = 22, bp_size = 64, bp_mem = 4098\<rparr>)
    \<and> bump_alloc (bump_bind 4098 64) 60 16 = (0, bump_bind 4098 64)"
proof -
  have "bump_alloc (bump_bind 4098 64) 60 16 = (0, bump_bind 4098 64)"
    using bump_alloc_exact [of "bump_bind 4098 64" 16 60]
    by (simp add: bump_bind_def arena_ok_def arena_top_def arena_limit_def round_up_def)
  then show ?thesis by (simp add: bump_alloc_def bump_bind_def)
qed

section \<open>Sequences of allocations\<close>

text \<open>
  What a client of an arena relies on, over any state, request and region \<open>[p, e)\<close>: a region
  starts at or above the free mark and ends at or below the new one, and a refusal changes nothing.
\<close>

fun alloc_run :: "('s \<Rightarrow> 'r \<Rightarrow> (nat \<times> nat) option \<times> 's) \<Rightarrow> 's \<Rightarrow> 'r list \<Rightarrow> (nat \<times> nat) list \<times> 's" where
  "alloc_run alloc s [] = ([], s)"
| "alloc_run alloc s (r # rs) =
     (let (o1, s1) = alloc s r; (os, s2) = alloc_run alloc s1 rs
      in (case o1 of None \<Rightarrow> os | Some q \<Rightarrow> q # os, s2))"

locale arena =
  fixes alloc :: "'s \<Rightarrow> 'r \<Rightarrow> (nat \<times> nat) option \<times> 's"
    and ok :: "'s \<Rightarrow> bool"
    and top :: "'s \<Rightarrow> nat"
    and limit :: "'s \<Rightarrow> nat"
  assumes top_le_limit: "ok s \<Longrightarrow> top s \<le> limit s"
    and alloc_Some: "ok s \<Longrightarrow> alloc s r = (Some (p, e), s') \<Longrightarrow>
      ok s' \<and> top s \<le> p \<and> p \<le> e \<and> e = top s' \<and> limit s' = limit s"
    and alloc_None: "ok s \<Longrightarrow> alloc s r = (None, s') \<Longrightarrow> s' = s"
begin

lemma alloc_run_regions:
  assumes "ok s" and "alloc_run alloc s rs = (os, s')"
  shows "ok s' \<and> top s \<le> top s' \<and> limit s' = limit s
    \<and> (\<forall>(p, e) \<in> set os. top s \<le> p \<and> p \<le> e \<and> e \<le> top s')
    \<and> sorted_wrt (\<lambda>(p, e) (p', e'). e \<le> p') os"
  using assms
proof (induction rs arbitrary: s os)
  case Nil
  then show ?case by simp
next
  case (Cons r rs)
  obtain o1 s1 where a: "alloc s r = (o1, s1)" by fastforce
  obtain os1 where r: "alloc_run alloc s1 rs = (os1, s')" and os: "os = (case o1 of None \<Rightarrow> os1 | Some q \<Rightarrow> q # os1)"
    using Cons.prems(2) a by (auto split: prod.splits)
  show ?case
  proof (cases o1)
    case None
    with a have "s1 = s" using alloc_None Cons.prems(1) by blast
    with Cons.IH [of s os1] Cons.prems(1) r os None show ?thesis by simp
  next
    case (Some q)
    obtain p e where q: "q = (p, e)" by fastforce
    note s1 = alloc_Some [OF Cons.prems(1) a [unfolded Some q]]
    with Cons.IH [of s1 os1] r os Some q show ?thesis by fastforce
  qed
qed

end

text \<open>\<open>bump_alloc\<close> as such an arena: a request is a size with an alignment.\<close>

definition bump_region :: "bump \<Rightarrow> u64 \<times> u64 \<Rightarrow> (nat \<times> nat) option \<times> bump" where
  "bump_region b r = (let (p, b') = bump_alloc b (fst r) (snd r)
     in (if p = 0 then None else Some (unat p, unat p + unat (fst r)), b'))"

lemma bump_alloc_null:
  assumes run: "bump_alloc b sz al = (0, b')" and ok: "arena_ok b"
  shows "b' = b"
proof (cases "al \<noteq> 0 \<and> al AND (al - 1) = 0")
  case True
  then have "0 < unat al" by (simp add: unat_gt_0)
  moreover have "0 < unat (bp_mem b)" using ok by (simp add: arena_ok_def unat_gt_0 word_neq_0_conv)
  ultimately have "0 < round_up (arena_top b) (unat al)"
    using round_up_bounds [of "unat al" "arena_top b"] by (simp add: arena_top_def)
  with bump_alloc_cases [OF ok, of al sz] True run show ?thesis by (auto split: if_splits)
next
  case False
  with run show ?thesis by (auto simp: bump_alloc_def)
qed

lemma bump_alloc_block:
  assumes ok: "arena_ok b" and run: "bump_alloc b sz al = (p, b')" and p: "p \<noteq> 0"
  shows "arena_ok b' \<and> arena_top b \<le> unat p \<and> unat p + unat sz = arena_top b' \<and> arena_limit b' = arena_limit b
    \<and> unat al dvd unat p"
proof -
  have al: "al \<noteq> 0" "al AND (al - 1) = 0" using run p by (auto simp: bump_alloc_def split: if_splits)
  then have "0 < unat al" by (simp add: unat_gt_0)
  from round_up_bounds [OF this] bump_alloc_cases [OF ok al, of sz] run p
  show ?thesis by (auto simp: arena_limit_def split: if_splits)
qed

interpretation bump: arena bump_region arena_ok arena_top arena_limit
proof
  show "arena_top b \<le> arena_limit b" if "arena_ok b" for b
    using that by (simp add: arena_ok_def arena_top_def arena_limit_def word_le_nat_alt)
next
  fix b r p e b'
  assume ok: "arena_ok b" and "bump_region b r = (Some (p, e), b')"
  then obtain q where "bump_alloc b (fst r) (snd r) = (q, b')" "q \<noteq> 0" "p = unat q" "e = unat q + unat (fst r)"
    by (auto simp: bump_region_def split: prod.splits if_splits)
  with bump_alloc_block [OF ok this(1,2)]
  show "arena_ok b' \<and> arena_top b \<le> p \<and> p \<le> e \<and> e = arena_top b' \<and> arena_limit b' = arena_limit b"
    by simp
next
  fix b r b'
  assume "arena_ok b" "bump_region b r = (None, b')"
  then show "b' = b"
    by (auto simp: bump_region_def split: prod.splits if_splits dest: bump_alloc_null)
qed

text \<open>
  C7. Blocks never overlap. Whatever sequence of sizes and alignments is requested from an
  arena just bound to \<open>size\<close> bytes at \<open>mem\<close>, the blocks handed out lie inside these bytes, in
  increasing order and pairwise disjoint, and requests that fail in between do no harm.
\<close>

theorem bump_allocs_disjoint:
  assumes "0 < mem" and "unat mem + unat sz < 2 ^ 64"
    and "alloc_run bump_region (bump_bind mem sz) rs = (os, b')"
  shows "(\<forall>(p, e) \<in> set os. unat mem \<le> p \<and> p \<le> e \<and> e \<le> unat mem + unat sz)
    \<and> sorted_wrt (\<lambda>(p, e) (p', e'). e \<le> p') os"
proof -
  have ok: "arena_ok (bump_bind mem sz)" and b: "arena_top (bump_bind mem sz) = unat mem"
    "arena_limit (bump_bind mem sz) = unat mem + unat sz"
    using assms(1,2) by (simp_all add: arena_ok_def bump_bind_def arena_top_def arena_limit_def)
  note run = bump.alloc_run_regions [OF ok assms(3)]
  then have "arena_top b' \<le> unat mem + unat sz" using bump.top_le_limit [of b'] b by simp
  with run b show ?thesis by fastforce
qed

lemma bump_allocs_disjoint_witness:
  "alloc_run bump_region (bump_bind 4096 64) [(8, 8), (4, 3), (60, 4), (16, 32)]
      = ([(4096, 4104), (4128, 4144)], \<lparr>bp_offset = 48, bp_size = 64, bp_mem = 4096\<rparr>)
    \<and> sorted_wrt (\<lambda>(p, e) (p', e'). e \<le> p') [(4096, 4104), (4128, 4144 :: nat)]"
proof -
  have run: "alloc_run bump_region (bump_bind 4096 64) [(8, 8), (4, 3), (60, 4), (16, 32)]
      = ([(4096, 4104), (4128, 4144)], \<lparr>bp_offset = 48, bp_size = 64, bp_mem = 4096\<rparr>)"
    by (simp add: bump_region_def bump_alloc_def bump_bind_def Let_def)
  with bump_allocs_disjoint [OF _ _ run] show ?thesis by simp
qed

end
