(* ===== verification/Ring.thy ===== *)
theory Ring
  imports Tiny_Prelude
begin

text \<open>
  Rings of \<open>2 ^ k\<close> slots indexed by free-running word counters, the arithmetic the connection
  queue and the log queue share, and the contract of a bounded queue that both provide.
\<close>

section \<open>Slot numbers\<close>

lemma mask_index: "unat (i AND (2 ^ k - 1)) = unat (i :: 'a::len word) mod 2 ^ k"
proof -
  have "i AND (2 ^ k - 1) = take_bit k i" unfolding take_bit_eq_mask mask_eq_exp_minus_1 ..
  then have "unat (i AND (2 ^ k - 1)) = take_bit k (unat i)" by (simp only: unsigned_take_bit_eq)
  then show ?thesis by (simp only: take_bit_eq_mod)
qed

lemma unat_add_mod:
  assumes "m dvd 2 ^ LENGTH('a)"
  shows "unat (i + word_of_nat j :: 'a::len word) mod m = (unat i + j) mod m"
  using assms by (simp add: unat_word_ariths unat_of_nat mod_mod_cancel mod_simps)

lemma unat_Suc_mod:
  assumes "m dvd 2 ^ LENGTH('a)"
  shows "(unat (i + 1 :: 'a::len word) + j) mod m = (unat i + Suc j) mod m"
proof -
  have "unat (i + 1) mod m = (unat i + 1) mod m" using unat_add_mod [OF assms, of i 1] by simp
  then have "(unat (i + 1) + j) mod m = (unat i + 1 + j) mod m" by (rule mod_add_cong) simp
  then show ?thesis by simp
qed

lemma mod_eq_window:
  fixes c :: nat
  assumes "p mod c = q mod c" and "h \<le> p" "p < h + c" "h \<le> q" "q < h + c"
  shows "p = q"
proof -
  have *: "p = q" if "p mod c = q mod c" "q \<le> p" "p < q + c" for p q
  proof -
    from that(1,2) obtain s where "p = q + c * s" by (rule mod_eq_nat1E)
    with that(3) show ?thesis by (cases s) auto
  qed
  from *[of p q] *[of q p] assms show ?thesis by (cases "q \<le> p") auto
qed

lemma mod_window_inj: "(h + i) mod c = (h + j) mod c \<Longrightarrow> i < c \<Longrightarrow> j < c \<Longrightarrow> i = j" for c :: nat
  using mod_eq_window [of "h + i" c "h + j" h] by simp

text \<open>The \<open>n\<close> entries of a ring of \<open>m\<close> slots from counter value \<open>h\<close> on.\<close>

definition ring_items :: "nat \<Rightarrow> 'b list \<Rightarrow> 'a::len word \<Rightarrow> nat \<Rightarrow> 'b list" where
  "ring_items m slots h n = map (\<lambda>j. slots ! ((unat h + j) mod m)) [0..<n]"

lemma length_ring_items [simp]: "length (ring_items m slots h n) = n"
  by (simp add: ring_items_def)

lemma ring_items_0 [simp]: "ring_items m slots h 0 = []"
  by (simp add: ring_items_def)

lemma ring_items_snoc:
  "ring_items m slots h (Suc n) = ring_items m slots h n @ [slots ! ((unat h + n) mod m)]"
  by (simp add: ring_items_def)

lemma ring_items_Cons:
  assumes "m dvd 2 ^ LENGTH('a)"
  shows "ring_items m slots (h :: 'a::len word) (Suc n) = slots ! (unat h mod m) # ring_items m slots (h + 1) n"
proof -
  have "[0..<Suc n] = 0 # map Suc [0..<n]" by (simp add: map_Suc_upt upt_conv_Cons)
  then show ?thesis by (simp add: ring_items_def o_def unat_Suc_mod [OF assms] del: upt_Suc)
qed

text \<open>Writing a slot outside the window, or with the same image under \<open>f\<close>, changes no entry.\<close>

lemma ring_items_update:
  assumes "0 < m" and "n \<le> m" and "i = (unat h + j) mod m" and "n \<le> j" and "j < m"
  shows "ring_items m (slots[i := x]) h n = ring_items m slots h n"
proof -
  have "(unat h + l) mod m \<noteq> i" if "l < n" for l
    using mod_window_inj [of "unat h" l m j] that assms by auto
  then show ?thesis by (auto simp: ring_items_def) (metis nth_list_update_neq)
qed

section \<open>The contract of a bounded queue\<close>

text \<open>
  The state \<open>q\<close> stands for the list \<open>items q\<close> of the values \<open>val c\<close> of its entries. \<open>enq\<close> refuses, without a change, exactly when
  there are \<open>cap q\<close> entries, and appends otherwise; \<open>deq\<close> takes the oldest entry.
\<close>

datatype 'c queue_op = Enq 'c | Deq

fun queue_run ::
  "('s \<Rightarrow> 'c \<Rightarrow> bool \<times> 's) \<Rightarrow> ('s \<Rightarrow> 'v option \<times> 's) \<Rightarrow> 's \<Rightarrow> 'c queue_op list \<Rightarrow> 'c list \<times> 'v list \<times> 's" where
  "queue_run enq deq q [] = ([], [], q)"
| "queue_run enq deq q (Enq c # ops) =
     (let (a, q1) = enq q c; (accepted, delivered, q2) = queue_run enq deq q1 ops
      in (if a then c # accepted else accepted, delivered, q2))"
| "queue_run enq deq q (Deq # ops) =
     (let (o1, q1) = deq q; (accepted, delivered, q2) = queue_run enq deq q1 ops
      in (accepted, case o1 of None \<Rightarrow> delivered | Some c \<Rightarrow> c # delivered, q2))"

locale bounded_queue =
  fixes enq :: "'s \<Rightarrow> 'c \<Rightarrow> bool \<times> 's"
    and deq :: "'s \<Rightarrow> 'v option \<times> 's"
    and val :: "'c \<Rightarrow> 'v"
    and ok :: "'s \<Rightarrow> bool"
    and items :: "'s \<Rightarrow> 'v list"
    and cap :: "'s \<Rightarrow> nat"
  assumes bound: "ok q \<Longrightarrow> length (items q) \<le> cap q"
    and enq_room: "ok q \<Longrightarrow> length (items q) < cap q \<Longrightarrow>
      \<exists>q'. enq q c = (True, q') \<and> ok q' \<and> items q' = items q @ [val c] \<and> cap q' = cap q"
    and enq_full: "ok q \<Longrightarrow> length (items q) = cap q \<Longrightarrow> enq q c = (False, q)"
    and deq_empty: "ok q \<Longrightarrow> items q = [] \<Longrightarrow> deq q = (None, q)"
    and deq_some: "ok q \<Longrightarrow> items q = v # vs \<Longrightarrow>
      \<exists>q'. deq q = (Some v, q') \<and> ok q' \<and> items q' = vs \<and> cap q' = cap q"
begin

text \<open>Nothing is lost, duplicated or reordered: what was delivered and what is left is what was accepted.\<close>

lemma queue_run_fifo:
  assumes "ok q" and "queue_run enq deq q ops = (accepted, delivered, q')"
  shows "ok q' \<and> cap q' = cap q \<and> items q @ map val accepted = delivered @ items q'"
  using assms
proof (induction ops arbitrary: q accepted delivered)
  case Nil
  then show ?case by simp
next
  case (Cons opn ops)
  show ?case
  proof (cases opn)
    case (Enq c)
    obtain a q1 where e: "enq q c = (a, q1)" by fastforce
    obtain acc where r: "queue_run enq deq q1 ops = (acc, delivered, q')"
      and acc: "accepted = (if a then c # acc else acc)"
      using Cons.prems(2) Enq e by (auto split: prod.splits)
    have "ok q1 \<and> cap q1 = cap q \<and> items q1 = items q @ (if a then [val c] else [])"
      using bound [OF Cons.prems(1)] enq_room [OF Cons.prems(1), of c] enq_full [OF Cons.prems(1), of c] e Cons.prems(1)
      by (cases "length (items q) < cap q") auto
    with Cons.IH [OF _ r] acc show ?thesis by auto
  next
    case Deq
    obtain o1 q1 where e: "deq q = (o1, q1)" by fastforce
    obtain dlv where r: "queue_run enq deq q1 ops = (accepted, dlv, q')"
      and dlv: "delivered = (case o1 of None \<Rightarrow> dlv | Some c \<Rightarrow> c # dlv)"
      using Cons.prems(2) Deq e by (auto split: prod.splits)
    have "ok q1 \<and> cap q1 = cap q \<and> items q = (case o1 of None \<Rightarrow> [] | Some c \<Rightarrow> [c]) @ items q1"
      using deq_empty [OF Cons.prems(1)] deq_some [OF Cons.prems(1)] e Cons.prems(1)
      by (cases "items q") auto
    with Cons.IH [OF _ r] dlv show ?thesis by (cases o1) auto
  qed
qed

end

end
