(* ===== verification/Conn_Queue.thy ===== *)
theory Conn_Queue
  imports Ring Config
begin

text \<open>
  The queue of accepted connections of \<^verbatim>\<open>src/connection.c\<close>: a ring of \<open>capacity\<close> slots, one
  producer (the accept thread) and the workers as consumers. Each slot carries a \<open>ready\<close> byte.
  The first part models the two functions as they run without interference and shows that they
  implement a bounded FIFO queue. The second part interleaves their atomic steps.
\<close>

record conn_info =
  c_accept_time :: u64
  c_ip0 :: u64
  c_ip1 :: u64
  c_fd :: int
  c_port :: u16
  c_flags :: u8

record connection = conn_info +
  c_ready :: u8

record connection_queue =
  q_data :: "connection list"
  q_capacity :: u32
  q_head :: u64
  q_tail :: u64

definition connection_copy_payload :: "connection \<Rightarrow> connection \<Rightarrow> connection" where
  "connection_copy_payload dst src = dst\<lparr>c_accept_time := c_accept_time src,
     c_ip0 := c_ip0 src, c_ip1 := c_ip1 src, c_fd := c_fd src, c_port := c_port src,
     c_flags := c_flags src\<rparr>"

text \<open>\<open>id & mask\<close> with the 32-bit \<open>mask = capacity - 1\<close> widened to 64 bits.\<close>

definition queue_slot :: "connection_queue \<Rightarrow> u64 \<Rightarrow> nat" where
  "queue_slot q i = unat (i AND ucast (q_capacity q - 1))"

text \<open>\<open>enqueue_connection\<close> returns its result, the queue and the descriptors it closed.\<close>

definition enqueue_connection :: "connection_queue \<Rightarrow> connection \<Rightarrow> bool \<times> connection_queue \<times> int list" where
  "enqueue_connection q c =
     (let i = queue_slot q (q_tail q) in
      if c_ready (q_data q ! i) \<noteq> 0 then (False, q, if c_fd c \<ge> 0 then [c_fd c] else [])
      else (True, q\<lparr>q_data := (q_data q)[i := (connection_copy_payload (q_data q ! i) c)\<lparr>c_ready := 1\<rparr>],
                     q_tail := q_tail q + 1\<rparr>, []))"

text \<open>
  \<open>dequeue_connection\<close> run without interference: \<open>pos\<close> is the head, which no one else moves,
  so an unready slot means an empty queue and the compare-and-exchange succeeds. The last
  component is what \<open>*c\<close> holds afterwards.
\<close>

definition dequeue_connection :: "connection_queue \<Rightarrow> connection \<Rightarrow> bool \<times> connection_queue \<times> connection" where
  "dequeue_connection q c =
     (let pos = q_head q; i = queue_slot q pos in
      if c_ready (q_data q ! i) = 0 then (False, q, c)
      else (True, q\<lparr>q_head := pos + 1, q_data := (q_data q)[i := (q_data q ! i)\<lparr>c_ready := 0\<rparr>]\<rparr>,
            connection_copy_payload c (q_data q ! i)))"

text \<open>The queue of \<open>tiny_runtime_init\<close>: zeroed slots, and counters at 0.\<close>

definition connection0 :: connection where
  "connection0 = \<lparr>c_accept_time = 0, c_ip0 = 0, c_ip1 = 0, c_fd = 0, c_port = 0, c_flags = 0, c_ready = 0\<rparr>"

definition queue_init :: "u32 \<Rightarrow> connection_queue" where
  "queue_init cap = \<lparr>q_data = replicate (unat cap) connection0, q_capacity = cap, q_head = 0, q_tail = 0\<rparr>"

section \<open>The abstract queue\<close>

text \<open>The value of a slot is all of it but the ready byte.\<close>

definition payload :: "connection \<Rightarrow> conn_info" where
  "payload c = conn_info.truncate c"

definition queue_size :: "connection_queue \<Rightarrow> nat" where
  "queue_size q = unat (q_tail q - q_head q)"

definition queue_items :: "connection_queue \<Rightarrow> conn_info list" where
  "queue_items q = map payload (ring_items (unat (q_capacity q)) (q_data q) (q_head q) (queue_size q))"

definition queue_ok :: "connection_queue \<Rightarrow> bool" where
  "queue_ok q = ((\<exists>k < 32. q_capacity q = 2 ^ k) \<and> length (q_data q) = unat (q_capacity q)
     \<and> queue_size q \<le> unat (q_capacity q)
     \<and> (\<forall>j < unat (q_capacity q).
          c_ready (q_data q ! ((unat (q_head q) + j) mod unat (q_capacity q))) \<noteq> 0 \<longleftrightarrow> j < queue_size q))"

lemma capacity_facts:
  assumes "\<exists>k < 32. cap = (2 ^ k :: u32)"
  shows "0 < unat cap" "unat cap dvd 2 ^ LENGTH(64)" "unat cap < 2 ^ 32"
    "unat (i AND ucast (cap - 1) :: u64) = unat i mod unat cap"
proof -
  from assms obtain k where k: "k < 32" "cap = 2 ^ k" by blast
  have u: "unat cap = 2 ^ k"
    using power_strict_increasing [OF k(1), of "2 :: nat"] unat_of_nat [of "2 ^ k", where ?'a = 32] k by simp
  show "0 < unat cap" using u by simp
  show "unat cap dvd 2 ^ LENGTH(64)" unfolding u by (rule le_imp_power_dvd) (use k in simp)
  show "unat cap < 2 ^ 32" using unsigned_less [of cap, where ?'a = nat] by simp
  have "(ucast (cap - 1) :: u64) = 2 ^ k - 1"
    using k by (intro bit_word_eqI) (auto simp: bit_simps mask_eq_exp_minus_1 [symmetric])
  then show "unat (i AND ucast (cap - 1) :: u64) = unat i mod unat cap" by (simp only: u mask_index)
qed

lemma queue_tail_slot:
  assumes "queue_ok q"
  shows "queue_slot q (q_tail q) = (unat (q_head q) + queue_size q) mod unat (q_capacity q)"
proof -
  note cap = capacity_facts [OF conjunct1 [OF assms [unfolded queue_ok_def]]]
  have "q_tail q = q_head q + word_of_nat (queue_size q)" by (simp add: queue_size_def)
  then show ?thesis using cap(2) by (simp add: queue_slot_def cap(4) unat_add_mod)
qed

lemma payload_simps [simp]:
  "payload (connection_copy_payload d c) = payload c" "payload (c\<lparr>c_ready := x\<rparr>) = payload c"
  by (simp_all add: payload_def connection_copy_payload_def conn_info.defs)

lemma enqueue_room:
  assumes ok: "queue_ok q" and room: "queue_size q < unat (q_capacity q)"
  shows "\<exists>q'. enqueue_connection q c = (True, q', []) \<and> queue_ok q'
    \<and> queue_items q' = queue_items q @ [payload c] \<and> q_capacity q' = q_capacity q"
proof -
  let ?m = "unat (q_capacity q)" and ?h = "unat (q_head q)" and ?n = "queue_size q"
  let ?i = "(?h + ?n) mod ?m"
  note cap = capacity_facts [OF conjunct1 [OF ok [unfolded queue_ok_def]]]
  define x where "x = (connection_copy_payload (q_data q ! ?i) c)\<lparr>c_ready := 1\<rparr>"
  define q' where "q' = q\<lparr>q_data := (q_data q)[?i := x], q_tail := q_tail q + 1\<rparr>"
  have len: "length (q_data q) = ?m" and i: "?i < ?m" using ok cap(1) by (simp_all add: queue_ok_def)
  have "c_ready (q_data q ! ?i) = 0" using ok room unfolding queue_ok_def by blast
  then have run: "enqueue_connection q c = (True, q', [])"
    using queue_tail_slot [OF ok] by (simp add: enqueue_connection_def Let_def q'_def x_def)
  have "unat (q_tail q - q_head q + 1) = Suc ?n"
    using room cap(3) by (simp add: unat_word_ariths queue_size_def)
  then have size: "queue_size q' = Suc ?n" by (simp add: queue_size_def q'_def algebra_simps)
  have was: "c_ready (q_data q ! ((?h + j) mod ?m)) \<noteq> 0 \<longleftrightarrow> j < ?n" if "j < ?m" for j
    using ok that unfolding queue_ok_def by blast
  have ready: "c_ready ((q_data q)[?i := x] ! ((?h + j) mod ?m)) \<noteq> 0 \<longleftrightarrow> j < Suc ?n" if j: "j < ?m" for j
  proof (cases "j = ?n")
    case True
    then show ?thesis using i len by (simp add: x_def)
  next
    case False
    then have "?i \<noteq> (?h + j) mod ?m" using mod_window_inj [of ?h j ?m ?n] j room by metis
    with was [OF j] False show ?thesis by (simp add: less_Suc_eq)
  qed
  have "queue_ok q'"
    using ok size room ready unfolding queue_ok_def by (simp add: q'_def Suc_le_eq)
  moreover have "queue_items q' = queue_items q @ [payload c]"
    using ring_items_update [of ?m ?n ?i "q_head q" ?n "q_data q" x] cap(1) room i len size
    by (simp add: queue_items_def ring_items_snoc q'_def) (simp add: x_def)
  ultimately show ?thesis using run by (auto simp: q'_def)
qed

lemma enqueue_full:
  assumes ok: "queue_ok q" and full: "queue_size q = unat (q_capacity q)"
  shows "enqueue_connection q c = (False, q, if c_fd c \<ge> 0 then [c_fd c] else [])"
proof -
  note cap = capacity_facts [OF conjunct1 [OF ok [unfolded queue_ok_def]]]
  have "c_ready (q_data q ! (unat (q_head q) mod unat (q_capacity q))) \<noteq> 0"
    using ok cap(1) full unfolding queue_ok_def by (metis add_0_right)
  then show ?thesis using queue_tail_slot [OF ok] full by (simp add: enqueue_connection_def Let_def)
qed

lemma dequeue_empty:
  assumes ok: "queue_ok q" and empty: "queue_size q = 0"
  shows "dequeue_connection q c = (False, q, c)"
proof -
  note cap = capacity_facts [OF conjunct1 [OF ok [unfolded queue_ok_def]]]
  have "c_ready (q_data q ! (unat (q_head q) mod unat (q_capacity q))) = 0"
    using ok cap(1) empty unfolding queue_ok_def by (metis add_0_right less_irrefl)
  then show ?thesis by (simp add: dequeue_connection_def Let_def queue_slot_def cap(4))
qed

lemma dequeue_some:
  assumes ok: "queue_ok q" and items: "queue_items q = x # xs"
  shows "\<exists>q' c'. dequeue_connection q c = (True, q', c') \<and> payload c' = x \<and> c_ready c' = c_ready c
    \<and> queue_ok q' \<and> queue_items q' = xs \<and> q_capacity q' = q_capacity q"
proof -
  let ?m = "unat (q_capacity q)" and ?h = "unat (q_head q)" and ?i = "unat (q_head q) mod unat (q_capacity q)"
  note cap = capacity_facts [OF conjunct1 [OF ok [unfolded queue_ok_def]]]
  from items obtain n where n: "queue_size q = Suc n"
    by (cases "queue_size q") (simp_all add: queue_items_def)
  define y where "y = (q_data q ! ?i)\<lparr>c_ready := 0\<rparr>"
  define q' where "q' = q\<lparr>q_head := q_head q + 1, q_data := (q_data q)[?i := y]\<rparr>"
  have len: "length (q_data q) = ?m" and i: "?i < ?m" and le: "Suc n \<le> ?m"
    using ok cap(1) n by (simp_all add: queue_ok_def)
  have "c_ready (q_data q ! ?i) \<noteq> 0"
    using ok cap(1) n unfolding queue_ok_def by (metis add_0_right zero_less_Suc)
  then have run: "dequeue_connection q c = (True, q', connection_copy_payload c (q_data q ! ?i))"
    by (simp add: dequeue_connection_def Let_def queue_slot_def cap(4) q'_def y_def)
  have "unat (q_tail q - q_head q - 1) = n"
    using n unfolding queue_size_def by (subst unat_minus_one) auto
  then have size: "queue_size q' = n" by (simp add: queue_size_def q'_def algebra_simps)
  have head: "(unat (q_head q + 1) + j) mod ?m = (?h + Suc j) mod ?m" for j
    by (rule unat_Suc_mod [OF cap(2)])
  have all: "queue_items q = payload (q_data q ! ?i) # map payload (ring_items ?m (q_data q) (q_head q + 1) n)"
    using cap(2) by (simp add: queue_items_def n ring_items_Cons)
  have last: "?i = (unat (q_head q + 1) + (?m - 1)) mod ?m"
    using head [of "?m - 1"] cap(1) by simp
  have keep: "ring_items ?m ((q_data q)[?i := y]) (q_head q + 1) n = ring_items ?m (q_data q) (q_head q + 1) n"
    by (rule ring_items_update [OF cap(1) _ last]) (use le cap(1) in auto)
  have ready: "c_ready ((q_data q)[?i := y] ! ((unat (q_head q + 1) + j) mod ?m)) \<noteq> 0 \<longleftrightarrow> j < n" if j: "j < ?m" for j
  proof (cases "Suc j = ?m")
    case True
    then have "(unat (q_head q + 1) + j) mod ?m = ?i" using head [of j] by simp
    then show ?thesis using i len True le by (simp add: y_def)
  next
    case False
    then have "(?h + Suc j) mod ?m \<noteq> ?i"
      using mod_window_inj [of ?h "Suc j" ?m 0] j by auto
    moreover have "c_ready (q_data q ! ((?h + Suc j) mod ?m)) \<noteq> 0 \<longleftrightarrow> j < n"
      using ok n False j unfolding queue_ok_def by (metis Suc_lessI Suc_less_eq)
    ultimately show ?thesis using head [of j] by simp
  qed
  have "queue_ok q'"
    using ok size le ready unfolding queue_ok_def by (simp add: q'_def)
  moreover have "queue_items q' = xs"
    using items all keep size by (simp add: queue_items_def q'_def)
  moreover have "payload (q_data q ! ?i) = x" using items all by simp
  ultimately show ?thesis using run
    by (auto simp: q'_def) (simp add: connection_copy_payload_def)
qed

text \<open>The two functions as a bounded queue of such values.\<close>

definition conn_enq :: "connection_queue \<Rightarrow> connection \<Rightarrow> bool \<times> connection_queue" where
  "conn_enq q c = (let (a, q', _) = enqueue_connection q c in (a, q'))"

definition conn_deq :: "connection_queue \<Rightarrow> conn_info option \<times> connection_queue" where
  "conn_deq q = (let (a, q', c) = dequeue_connection q connection0 in (if a then Some (payload c) else None, q'))"

definition queue_cap :: "connection_queue \<Rightarrow> nat" where
  "queue_cap q = unat (q_capacity q)"

lemma length_queue_items [simp]: "length (queue_items q) = queue_size q"
  by (simp add: queue_items_def)

interpretation conn: bounded_queue conn_enq conn_deq payload queue_ok queue_items queue_cap
proof
  show "length (queue_items q) \<le> queue_cap q" if "queue_ok q" for q
    using that by (simp add: queue_ok_def queue_cap_def)
next
  fix q c assume "queue_ok q" "length (queue_items q) < queue_cap q"
  then show "\<exists>q'. conn_enq q c = (True, q') \<and> queue_ok q' \<and> queue_items q' = queue_items q @ [payload c] \<and> queue_cap q' = queue_cap q"
    using enqueue_room [of q c] by (auto simp: conn_enq_def queue_cap_def)
next
  fix q c assume "queue_ok q" "length (queue_items q) = queue_cap q"
  then show "conn_enq q c = (False, q)"
    using enqueue_full [of q c] by (simp add: conn_enq_def queue_cap_def)
next
  fix q assume "queue_ok q" "queue_items q = []"
  moreover from this(2) have "queue_size q = 0" by (metis length_queue_items list.size(3))
  ultimately show "conn_deq q = (None, q)" by (simp add: conn_deq_def dequeue_empty)
next
  fix q p ps assume "queue_ok q" "queue_items q = p # ps"
  from dequeue_some [OF this, of connection0]
  show "\<exists>q'. conn_deq q = (Some p, q') \<and> queue_ok q' \<and> queue_items q' = ps \<and> queue_cap q' = queue_cap q"
    by (auto simp: conn_deq_def queue_cap_def)
qed

lemma queue_init_ok:
  assumes "\<exists>k < 32. cap = (2 ^ k :: u32)"
  shows "queue_ok (queue_init cap) \<and> queue_items (queue_init cap) = []"
  using assms capacity_facts(1) [OF assms]
  by (auto simp: queue_ok_def queue_init_def queue_items_def queue_size_def connection0_def)

text \<open>
  C8. The connection queue is a bounded FIFO queue. Whatever sequence of \<open>enqueue_connection\<close> and
  \<open>dequeue_connection\<close> runs, one after the other, on a queue of any power-of-two capacity, from
  its initial state and through any wrap-around of its counters: the connections delivered,
  followed by those still queued, are exactly the ones accepted, in order, and never more than
  \<open>capacity\<close> of them are queued.
\<close>

theorem connection_queue_fifo:
  assumes "\<exists>k < 32. cap = (2 ^ k :: u32)"
    and "queue_run conn_enq conn_deq (queue_init cap) ops = (accepted, delivered, q')"
  shows "map payload accepted = delivered @ queue_items q' \<and> length (queue_items q') \<le> unat cap"
proof -
  note init = queue_init_ok [OF assms(1)]
  from conn.queue_run_fifo [OF conjunct1 [OF init] assms(2)] init
  have "queue_ok q'" "queue_cap q' = unat cap" "map payload accepted = delivered @ queue_items q'"
    by (simp_all add: queue_cap_def queue_init_def)
  with conn.bound [of q'] show ?thesis by simp
qed

text \<open>
  A full queue refuses and disposes. When \<open>capacity\<close> connections are queued,
  \<open>enqueue_connection\<close> returns 0, leaves the queue untouched and closes the descriptor it was given
  exactly once, so the accept thread neither leaks nor reuses it; with room it closes nothing.
\<close>

theorem enqueue_connection_refusal:
  assumes "queue_ok q"
  shows "if length (queue_items q) = queue_cap q
    then enqueue_connection q c = (False, q, if c_fd c \<ge> 0 then [c_fd c] else [])
    else \<exists>q'. enqueue_connection q c = (True, q', []) \<and> queue_items q' = queue_items q @ [payload c]"
proof (cases "length (queue_items q) = queue_cap q")
  case True
  with enqueue_full [OF assms] show ?thesis by (simp add: queue_cap_def)
next
  case False
  then have "queue_size q < unat (q_capacity q)" using conn.bound [OF assms] by (simp add: queue_cap_def)
  from enqueue_room [OF assms this, of c] False show ?thesis by auto
qed

text \<open>Three connections for a queue of two slots.\<close>

definition sample_info :: "int \<Rightarrow> conn_info" where
  "sample_info fd = \<lparr>c_accept_time = 7, c_ip0 = 0, c_ip1 = 0, c_fd = fd, c_port = 80, c_flags = 1\<rparr>"

definition sample_conn :: "int \<Rightarrow> connection" where
  "sample_conn fd = conn_info.extend (sample_info fd) \<lparr>c_ready = 0\<rparr>"

lemma sample_queue_run:
  "\<exists>q. queue_run conn_enq conn_deq (queue_init 2)
      [Enq (sample_conn 5), Enq (sample_conn 6), Enq (sample_conn 7), Deq, Enq (sample_conn 8)]
    = ([sample_conn 5, sample_conn 6, sample_conn 8], [sample_info 5], q)"
  by (simp add: conn_enq_def conn_deq_def enqueue_connection_def dequeue_connection_def queue_init_def
      queue_slot_def connection0_def connection_copy_payload_def payload_def sample_conn_def sample_info_def
      conn_info.defs Let_def eval_nat_numeral(3))

lemma payload_sample [simp]: "payload (sample_conn fd) = sample_info fd"
  by (simp add: payload_def sample_conn_def sample_info_def conn_info.defs)

lemma connection_queue_fifo_witness:
  "\<exists>q. queue_items q = [sample_info 6, sample_info 8] \<and> length (queue_items q) \<le> 2"
proof -
  from sample_queue_run obtain q where run: "queue_run conn_enq conn_deq (queue_init 2)
      [Enq (sample_conn 5), Enq (sample_conn 6), Enq (sample_conn 7), Deq, Enq (sample_conn 8)]
    = ([sample_conn 5, sample_conn 6, sample_conn 8], [sample_info 5], q)" by blast
  have cap: "\<exists>k < 32. (2 :: u32) = 2 ^ k" by (rule exI [of _ 1]) simp
  from connection_queue_fifo [OF cap run] show ?thesis by (intro exI [of _ q]) simp
qed

lemma enqueue_connection_refusal_witness:
  "\<exists>q'. enqueue_connection (queue_init 2) (sample_conn 5) = (True, q', [])
    \<and> queue_items q' = [sample_info 5]"
proof -
  have "\<exists>k < 32. (2 :: u32) = 2 ^ k" by (rule exI [of _ 1]) simp
  note init = queue_init_ok [OF this]
  have "queue_cap (queue_init 2) = 2" by (simp add: queue_cap_def queue_init_def)
  with enqueue_connection_refusal [OF conjunct1 [OF init], of "sample_conn 5"] init
  show ?thesis by auto
qed

end
