(* ===== verification/Conn_Queue_Steps.thy ===== *)
theory Conn_Queue_Steps
  imports Conn_Queue
begin

text \<open>
  The connection queue under interference: the accept thread as the one producer and any number
  of workers as consumers, interleaved at the atomic loads, stores and compare-and-exchanges of
  \<^verbatim>\<open>src/connection.c\<close>. Positions are unbounded here: the code's counters have 64 bits and do
  not wrap in the life of a process. \<open>qs_accepted\<close> and \<open>qs_delivered\<close> are history: the accepted
  payloads in order of their positions, and the position and payload of each finished dequeue.
\<close>

text \<open>The producer between its atomic steps: before the test of \<open>ready\<close>, before the copy of the
  payload, before the store of \<open>ready\<close>, before \<open>tail_id++\<close>.\<close>

datatype producer = P_Idle | P_Copy conn_info | P_Publish conn_info | P_Advance

text \<open>A consumer with its local \<open>pos\<close>: before the test of \<open>ready\<close>, before the second load of the
  head, before the compare-and-exchange, before the copy, before the store of \<open>ready = 0\<close>.\<close>

datatype consumer = C_Idle | C_Test nat | C_Reload nat | C_Cas nat | C_Copy nat | C_Release nat conn_info

record qstate =
  qs_ready :: "nat \<Rightarrow> bool"
  qs_value :: "nat \<Rightarrow> conn_info"
  qs_head :: nat
  qs_tail :: nat
  qs_prod :: producer
  qs_cons :: "nat \<Rightarrow> consumer"
  qs_accepted :: "conn_info list"
  qs_delivered :: "(nat \<times> conn_info) list"

definition qstate0 :: "conn_info \<Rightarrow> qstate" where
  "qstate0 d = \<lparr>qs_ready = (\<lambda>_. False), qs_value = (\<lambda>_. d), qs_head = 0, qs_tail = 0,
     qs_prod = P_Idle, qs_cons = (\<lambda>_. C_Idle), qs_accepted = [], qs_delivered = []\<rparr>"

text \<open>The position a consumer has claimed and whose slot it has not released yet.\<close>

fun claim :: "consumer \<Rightarrow> nat option" where
  "claim (C_Copy p) = Some p"
| "claim (C_Release p c) = Some p"
| "claim _ = None"

text \<open>
  One atomic step in a queue of \<open>cap\<close> slots. \<open>safe i p s\<close> is a condition on the moment when
  consumer \<open>i\<close> finds the slot of position \<open>p\<close> ready; the code has none (\<open>\<lambda>_ _ _. True\<close>).
\<close>

inductive qstep :: "nat \<Rightarrow> (nat \<Rightarrow> nat \<Rightarrow> qstate \<Rightarrow> bool) \<Rightarrow> qstate \<Rightarrow> qstate \<Rightarrow> bool"
  for cap :: nat and safe :: "nat \<Rightarrow> nat \<Rightarrow> qstate \<Rightarrow> bool" where
  enq_drop: "qs_prod s = P_Idle \<Longrightarrow> qs_ready s (qs_tail s mod cap) \<Longrightarrow> qstep cap safe s s"
| enq_room: "qs_prod s = P_Idle \<Longrightarrow> \<not> qs_ready s (qs_tail s mod cap) \<Longrightarrow>
    qstep cap safe s (s\<lparr>qs_prod := P_Copy c\<rparr>)"
| enq_copy: "qs_prod s = P_Copy c \<Longrightarrow>
    qstep cap safe s (s\<lparr>qs_value := (qs_value s)(qs_tail s mod cap := c), qs_prod := P_Publish c\<rparr>)"
| enq_publish: "qs_prod s = P_Publish c \<Longrightarrow>
    qstep cap safe s (s\<lparr>qs_ready := (qs_ready s)(qs_tail s mod cap := True), qs_prod := P_Advance,
      qs_accepted := qs_accepted s @ [c]\<rparr>)"
| enq_advance: "qs_prod s = P_Advance \<Longrightarrow>
    qstep cap safe s (s\<lparr>qs_tail := qs_tail s + 1, qs_prod := P_Idle\<rparr>)"
| deq_load: "qs_cons s i = C_Idle \<Longrightarrow>
    qstep cap safe s (s\<lparr>qs_cons := (qs_cons s)(i := C_Test (qs_head s))\<rparr>)"
| deq_unready: "qs_cons s i = C_Test p \<Longrightarrow> \<not> qs_ready s (p mod cap) \<Longrightarrow>
    qstep cap safe s (s\<lparr>qs_cons := (qs_cons s)(i := C_Reload p)\<rparr>)"
| deq_reload: "qs_cons s i = C_Reload p \<Longrightarrow> qs_head s \<noteq> p \<Longrightarrow>
    qstep cap safe s (s\<lparr>qs_cons := (qs_cons s)(i := C_Test (qs_head s))\<rparr>)"
| deq_empty: "qs_cons s i = C_Reload p \<Longrightarrow> qs_head s = p \<Longrightarrow>
    qstep cap safe s (s\<lparr>qs_cons := (qs_cons s)(i := C_Idle)\<rparr>)"
| deq_ready: "qs_cons s i = C_Test p \<Longrightarrow> qs_ready s (p mod cap) \<Longrightarrow> safe i p s \<Longrightarrow>
    qstep cap safe s (s\<lparr>qs_cons := (qs_cons s)(i := C_Cas p)\<rparr>)"
| deq_claim: "qs_cons s i = C_Cas p \<Longrightarrow> qs_head s = p \<Longrightarrow>
    qstep cap safe s (s\<lparr>qs_head := p + 1, qs_cons := (qs_cons s)(i := C_Copy p)\<rparr>)"
| deq_retry: "qs_cons s i = C_Cas p \<Longrightarrow> qs_head s \<noteq> p \<Longrightarrow>
    qstep cap safe s (s\<lparr>qs_cons := (qs_cons s)(i := C_Test (qs_head s))\<rparr>)"
| deq_copy: "qs_cons s i = C_Copy p \<Longrightarrow>
    qstep cap safe s (s\<lparr>qs_cons := (qs_cons s)(i := C_Release p (qs_value s (p mod cap)))\<rparr>)"
| deq_release: "qs_cons s i = C_Release p c \<Longrightarrow>
    qstep cap safe s (s\<lparr>qs_ready := (qs_ready s)(p mod cap := False), qs_cons := (qs_cons s)(i := C_Idle),
      qs_delivered := qs_delivered s @ [(p, c)]\<rparr>)"

abbreviation qsteps :: "nat \<Rightarrow> (nat \<Rightarrow> nat \<Rightarrow> qstate \<Rightarrow> bool) \<Rightarrow> qstate \<Rightarrow> qstate \<Rightarrow> bool" where
  "qsteps cap safe \<equiv> (qstep cap safe)\<^sup>*\<^sup>*"

text \<open>No other consumer has claimed the slot and not released it.\<close>

definition unclaimed :: "nat \<Rightarrow> nat \<Rightarrow> nat \<Rightarrow> qstate \<Rightarrow> bool" where
  "unclaimed cap i p s = (\<forall>j q. j \<noteq> i \<longrightarrow> claim (qs_cons s j) = Some q \<longrightarrow> q mod cap \<noteq> p mod cap)"

section \<open>The invariant\<close>

text \<open>The number of published positions, and the positions whose slots are ready.\<close>

definition published :: "qstate \<Rightarrow> nat" where
  "published s = (if qs_prod s = P_Advance then qs_tail s + 1 else qs_tail s)"

definition busy :: "qstate \<Rightarrow> nat set" where
  "busy s = {p. \<exists>i. claim (qs_cons s i) = Some p} \<union> {qs_head s ..< published s}"

fun producer_ok :: "nat \<Rightarrow> qstate \<Rightarrow> producer \<Rightarrow> bool" where
  "producer_ok cap s (P_Copy c) = (\<not> qs_ready s (qs_tail s mod cap))"
| "producer_ok cap s (P_Publish c) =
     (\<not> qs_ready s (qs_tail s mod cap) \<and> qs_value s (qs_tail s mod cap) = c)"
| "producer_ok cap s _ = True"

fun consumer_ok :: "qstate \<Rightarrow> consumer \<Rightarrow> bool" where
  "consumer_ok s (C_Test p) = (p \<le> qs_head s)"
| "consumer_ok s (C_Cas p) = (p \<le> qs_head s \<and> p < published s)"
| "consumer_ok s (C_Copy p) = (p < qs_head s)"
| "consumer_ok s (C_Release p c) = (p < qs_head s \<and> c = qs_accepted s ! p)"
| "consumer_ok s _ = True"

definition queue_inv :: "nat \<Rightarrow> qstate \<Rightarrow> bool" where
  "queue_inv cap s =
     (qs_head s \<le> published s \<and> length (qs_accepted s) = published s
    \<and> inj_on (\<lambda>p. p mod cap) (busy s)
    \<and> (\<forall>n. qs_ready s n \<longleftrightarrow> n \<in> (\<lambda>p. p mod cap) ` busy s)
    \<and> (\<forall>p \<in> busy s. qs_value s (p mod cap) = qs_accepted s ! p)
    \<and> (\<forall>i j p. claim (qs_cons s i) = Some p \<longrightarrow> claim (qs_cons s j) = Some p \<longrightarrow> i = j)
    \<and> producer_ok cap s (qs_prod s) \<and> (\<forall>i. consumer_ok s (qs_cons s i))
    \<and> (\<forall>(p, c) \<in> set (qs_delivered s). p < qs_head s \<and> c = qs_accepted s ! p
         \<and> (\<forall>i. claim (qs_cons s i) \<noteq> Some p))
    \<and> distinct (map fst (qs_delivered s)))"

lemma published_update [simp]:
  "published (s\<lparr>qs_cons := k\<rparr>) = published s" "published (s\<lparr>qs_head := h\<rparr>) = published s"
  "published (s\<lparr>qs_ready := r\<rparr>) = published s" "published (s\<lparr>qs_value := v\<rparr>) = published s"
  "published (s\<lparr>qs_accepted := a\<rparr>) = published s" "published (s\<lparr>qs_delivered := d\<rparr>) = published s"
  by (simp_all add: published_def)

lemma consumer_ok_update [simp]:
  "consumer_ok (s\<lparr>qs_cons := k\<rparr>) x = consumer_ok s x" "consumer_ok (s\<lparr>qs_ready := r\<rparr>) x = consumer_ok s x"
  "consumer_ok (s\<lparr>qs_value := v\<rparr>) x = consumer_ok s x" "consumer_ok (s\<lparr>qs_delivered := d\<rparr>) x = consumer_ok s x"
  by (cases x; simp)+

lemma producer_ok_update [simp]:
  "producer_ok cap (s\<lparr>qs_cons := k\<rparr>) y = producer_ok cap s y"
  "producer_ok cap (s\<lparr>qs_head := h\<rparr>) y = producer_ok cap s y"
  "producer_ok cap (s\<lparr>qs_delivered := d\<rparr>) y = producer_ok cap s y"
  by (cases y; simp)+

lemma queue_inv_init: "queue_inv cap (qstate0 d)"
  by (simp add: queue_inv_def qstate0_def busy_def published_def)

lemma queue_inv_parts:
  assumes "queue_inv cap s"
  shows "qs_head s \<le> published s" "length (qs_accepted s) = published s"
    "inj_on (\<lambda>p. p mod cap) (busy s)" "qs_ready s n \<longleftrightarrow> n \<in> (\<lambda>p. p mod cap) ` busy s"
    "p \<in> busy s \<Longrightarrow> qs_value s (p mod cap) = qs_accepted s ! p"
    "claim (qs_cons s i) = Some p \<Longrightarrow> claim (qs_cons s j) = Some p \<Longrightarrow> i = j"
    "producer_ok cap s (qs_prod s)" "consumer_ok s (qs_cons s i)"
    "(p, c) \<in> set (qs_delivered s) \<Longrightarrow> p < qs_head s \<and> c = qs_accepted s ! p \<and> claim (qs_cons s i) \<noteq> Some p"
    "distinct (map fst (qs_delivered s))"
  using assms unfolding queue_inv_def by blast+

lemma queue_invI:
  assumes "qs_head s \<le> published s" and "length (qs_accepted s) = published s"
    and "inj_on (\<lambda>p. p mod cap) (busy s)" and "\<And>n. qs_ready s n \<longleftrightarrow> n \<in> (\<lambda>p. p mod cap) ` busy s"
    and "\<And>p. p \<in> busy s \<Longrightarrow> qs_value s (p mod cap) = qs_accepted s ! p"
    and "\<And>i j p. claim (qs_cons s i) = Some p \<Longrightarrow> claim (qs_cons s j) = Some p \<Longrightarrow> i = j"
    and "producer_ok cap s (qs_prod s)" and "\<And>i. consumer_ok s (qs_cons s i)"
    and "\<And>p c i. (p, c) \<in> set (qs_delivered s) \<Longrightarrow>
      p < qs_head s \<and> c = qs_accepted s ! p \<and> claim (qs_cons s i) \<noteq> Some p"
    and "distinct (map fst (qs_delivered s))"
  shows "queue_inv cap s"
proof -
  have "\<forall>(p, c) \<in> set (qs_delivered s). p < qs_head s \<and> c = qs_accepted s ! p
      \<and> (\<forall>i. claim (qs_cons s i) \<noteq> Some p)"
    using assms(9) by blast
  then show ?thesis
    unfolding queue_inv_def by (intro conjI) (use assms(1-8,10) in blast)+
qed

lemma claim_lt_head: "queue_inv cap s \<Longrightarrow> claim (qs_cons s i) = Some p \<Longrightarrow> p < qs_head s"
  using queue_inv_parts(8) [of cap s i] by (cases "qs_cons s i") auto

text \<open>A consumer that changes its program counter but no claim.\<close>

lemma queue_inv_consumer:
  assumes inv: "queue_inv cap s" and same: "claim k = claim (qs_cons s i)" and ok: "consumer_ok s k"
    and s': "s' = s\<lparr>qs_cons := (qs_cons s)(i := k)\<rparr>"
  shows "queue_inv cap s'"
proof -
  note parts = queue_inv_parts [OF inv]
  have claims: "claim (qs_cons s' j) = claim (qs_cons s j)" for j using same by (simp add: s')
  have busy: "busy s' = busy s" unfolding busy_def claims by (simp add: s')
  show ?thesis
  proof (rule queue_invI)
    show "j = l" if "claim (qs_cons s' j) = Some q" "claim (qs_cons s' l) = Some q" for j l q
      using parts(6) [of j q l] that by (simp add: claims)
    show "q < qs_head s' \<and> d = qs_accepted s' ! q \<and> claim (qs_cons s' j) \<noteq> Some q"
      if "(q, d) \<in> set (qs_delivered s')" for q d j
      using parts(9) [of q d j] that by (simp add: claims) (simp add: s')
    show "consumer_ok s' (qs_cons s' j)" for j using parts(8) [of j] ok by (simp add: s')
  qed (use parts(1-5,7,10) busy in \<open>simp_all add: s'\<close>)
qed

lemma queue_inv_claim:
  assumes inv: "queue_inv cap s" and pc: "qs_cons s i = C_Cas p" and head: "qs_head s = p"
    and s': "s' = s\<lparr>qs_head := p + 1, qs_cons := (qs_cons s)(i := C_Copy p)\<rparr>"
  shows "queue_inv cap s'"
proof -
  note parts = queue_inv_parts [OF inv]
  have lt: "p < published s" using parts(8) [of i] pc by simp
  have fresh: "claim (qs_cons s j) \<noteq> Some p" for j using claim_lt_head [OF inv, of j p] head by auto
  have claims: "claim (qs_cons s' j) = (if j = i then Some p else claim (qs_cons s j))" for j
    by (simp add: s')
  have "(\<exists>j. claim (qs_cons s' j) = Some q) \<longleftrightarrow> q = p \<or> (\<exists>j. claim (qs_cons s j) = Some q)" for q
    unfolding claims by (metis claim.simps(6) option.distinct(1) option.inject pc)
  moreover have "published s' = published s" "qs_head s' = Suc p" by (simp_all add: s')
  ultimately have busy: "busy s' = busy s" unfolding busy_def using head lt by auto
  have cons: "consumer_ok s x \<Longrightarrow> consumer_ok s' x" for x by (cases x) (auto simp: s' head)
  show ?thesis
  proof (rule queue_invI)
    show "j = k" if "claim (qs_cons s' j) = Some q" "claim (qs_cons s' k) = Some q" for j k q
      using parts(6) [of j q k] fresh that by (auto simp: claims split: if_splits)
    show "q < qs_head s' \<and> d = qs_accepted s' ! q \<and> claim (qs_cons s' j) \<noteq> Some q"
      if "(q, d) \<in> set (qs_delivered s')" for q d j
      using parts(9) [of q d j] head that by (simp add: s')
    show "consumer_ok s' (qs_cons s' j)" for j
      using cons [OF parts(8) [of j]] by (simp add: s' lt)
  qed (use parts(1-5,7,10) lt busy in \<open>simp_all add: s'\<close>)
qed

lemma queue_inv_copy:
  assumes inv: "queue_inv cap s" and pc: "qs_cons s i = C_Copy p"
    and s': "s' = s\<lparr>qs_cons := (qs_cons s)(i := C_Release p (qs_value s (p mod cap)))\<rparr>"
  shows "queue_inv cap s'"
proof -
  have "p \<in> busy s" using pc by (auto simp: busy_def intro!: exI [of _ i])
  then show ?thesis
    using queue_inv_parts(5,8) [OF inv, of p] queue_inv_parts(8) [OF inv, of i] pc
    by (intro queue_inv_consumer [OF inv _ _ s']) simp_all
qed

lemma queue_inv_release:
  assumes inv: "queue_inv cap s" and pc: "qs_cons s i = C_Release p c"
    and s': "s' = s\<lparr>qs_ready := (qs_ready s)(p mod cap := False), qs_cons := (qs_cons s)(i := C_Idle),
      qs_delivered := qs_delivered s @ [(p, c)]\<rparr>"
  shows "queue_inv cap s'"
proof -
  note parts = queue_inv_parts [OF inv]
  have f: "qs_head s' = qs_head s" "qs_value s' = qs_value s" "qs_accepted s' = qs_accepted s"
    "qs_prod s' = qs_prod s" "qs_tail s' = qs_tail s" "published s' = published s"
    "qs_delivered s' = qs_delivered s @ [(p, c)]" "qs_ready s' = (qs_ready s)(p mod cap := False)"
    by (simp_all add: s')
  have c: "p < qs_head s" "c = qs_accepted s ! p" using parts(8) [of i] pc by simp_all
  have mine: "claim (qs_cons s i) = Some p" using pc by simp
  then have p: "p \<in> busy s" by (auto simp: busy_def)
  have others: "claim (qs_cons s' j) = (if j = i then None else claim (qs_cons s j))" for j by (simp add: s')
  have "(\<exists>j. claim (qs_cons s' j) = Some q) \<longleftrightarrow> (\<exists>j. claim (qs_cons s j) = Some q) \<and> q \<noteq> p" for q
    unfolding others by (metis mine option.inject option.distinct(1) parts(6))
  then have busy: "busy s' = busy s - {p}" unfolding busy_def f using c by auto
  have ready: "qs_ready s' n \<longleftrightarrow> n \<in> (\<lambda>q. q mod cap) ` busy s'" for n
  proof -
    have "(\<lambda>q. q mod cap) ` (busy s - {p}) = (\<lambda>q. q mod cap) ` busy s - {p mod cap}"
      using p by (subst inj_on_image_set_diff [OF parts(3)]) auto
    then show ?thesis using parts(4) [of n] unfolding busy f by simp
  qed
  have prod: "producer_ok cap s y \<Longrightarrow> producer_ok cap s' y" for y by (cases y) (auto simp: f)
  show ?thesis
  proof (rule queue_invI)
    show "producer_ok cap s' (qs_prod s')" using prod parts(7) by (simp add: f)
    show "j = k" if "claim (qs_cons s' j) = Some q" "claim (qs_cons s' k) = Some q" for j k q
      using parts(6) [of j q k] that by (auto simp: others split: if_splits)
    show "q < qs_head s' \<and> d = qs_accepted s' ! q \<and> claim (qs_cons s' j) \<noteq> Some q"
      if "(q, d) \<in> set (qs_delivered s')" for q d j
      unfolding others using parts(9) [of q d j] c mine parts(6) [of i p j] that by (auto simp: f)
    show "consumer_ok s' (qs_cons s' j)" for j using parts(8) [of j] by (simp add: s')
    show "distinct (map fst (qs_delivered s'))" using parts(9) [of p _ i] parts(10) mine by (force simp: f)
    show "inj_on (\<lambda>q. q mod cap) (busy s')" unfolding busy using parts(3) by (rule inj_on_diff)
    show "qs_ready s' n \<longleftrightarrow> n \<in> (\<lambda>q. q mod cap) ` busy s'" for n by (rule ready)
  qed (use parts(1,2,5) in \<open>simp_all add: busy f\<close>)
qed

text \<open>The producer publishes into a free slot.\<close>

lemma queue_inv_publish:
  assumes inv: "queue_inv cap s" and pc: "qs_prod s = P_Publish c"
    and s': "s' = s\<lparr>qs_ready := (qs_ready s)(qs_tail s mod cap := True), qs_prod := P_Advance,
      qs_accepted := qs_accepted s @ [c]\<rparr>"
  shows "queue_inv cap s'"
proof -
  note parts = queue_inv_parts [OF inv]
  let ?t = "qs_tail s"
  have f: "qs_head s' = qs_head s" "qs_value s' = qs_value s" "qs_accepted s' = qs_accepted s @ [c]"
    "qs_prod s' = P_Advance" "qs_cons s' = qs_cons s" "qs_delivered s' = qs_delivered s"
    "qs_ready s' = (qs_ready s)(?t mod cap := True)"
    by (simp_all add: s')
  have pub: "published s = ?t" "published s' = Suc ?t" using pc by (simp_all add: published_def s')
  have slot: "\<not> qs_ready s (?t mod cap)" "qs_value s (?t mod cap) = c" using parts(7) pc by simp_all
  have "{qs_head s ..< Suc ?t} = insert ?t {qs_head s ..< ?t}" using parts(1) pub by auto
  then have busy: "busy s' = insert ?t (busy s)" by (simp add: busy_def pub f)
  have lt: "q < ?t" if "q \<in> busy s" for q
    using that parts(1) pub claim_lt_head [OF inv] by (fastforce simp: busy_def)
  have free: "q mod cap \<noteq> ?t mod cap" if "q \<in> busy s" for q
    using slot(1) parts(4) [of "?t mod cap"] imageI [OF that, of "\<lambda>q. q mod cap"] by auto
  have cons: "consumer_ok s' x" if "consumer_ok s x" for x
    using that parts(1,2) pub by (cases x) (auto simp: nth_append f)
  show ?thesis
  proof (rule queue_invI)
    show "inj_on (\<lambda>q. q mod cap) (busy s')" unfolding busy using parts(3) free by (auto simp: inj_on_insert dest: sym)
    show "qs_ready s' n \<longleftrightarrow> n \<in> (\<lambda>q. q mod cap) ` busy s'" for n
      using parts(4) [of n] unfolding busy f by auto
    show "qs_value s' (q mod cap) = qs_accepted s' ! q" if "q \<in> busy s'" for q
      using that parts(2,5) lt [of q] slot(2) pub unfolding busy f by (auto simp: nth_append)
    show "consumer_ok s' (qs_cons s' j)" for j using parts(8) [of j] cons by (simp add: f)
    show "q < qs_head s' \<and> d = qs_accepted s' ! q \<and> claim (qs_cons s' j) \<noteq> Some q"
      if "(q, d) \<in> set (qs_delivered s')" for q d j
      using parts(9) [of q d j] parts(1,2) pub that by (auto simp: nth_append f)
    show "j = k" if "claim (qs_cons s' j) = Some q" "claim (qs_cons s' k) = Some q" for j k q
      using parts(6) [of j q k] that by (simp add: f)
  qed (use parts(1,2,10) pub in \<open>simp_all add: f\<close>)
qed

text \<open>The producer's other steps keep the number of published positions.\<close>

lemma queue_inv_producer:
  assumes inv: "queue_inv cap s"
    and s': "s' = s\<lparr>qs_prod := k, qs_tail := t, qs_value := v\<rparr>" and pub: "published s' = published s"
    and ok: "producer_ok cap s' k" and keep: "\<And>p. p \<in> busy s \<Longrightarrow> v (p mod cap) = qs_value s (p mod cap)"
  shows "queue_inv cap s'"
proof -
  note parts = queue_inv_parts [OF inv]
  have busy: "busy s' = busy s" using pub by (simp add: busy_def s')
  have cons: "consumer_ok s' x = consumer_ok s x" for x using pub by (cases x) (auto simp: s')
  show ?thesis
  proof (rule queue_invI)
    show "j = i" if "claim (qs_cons s' j) = Some q" "claim (qs_cons s' i) = Some q" for j i q
      using parts(6) [of j q i] that by (simp add: s')
    show "q < qs_head s' \<and> d = qs_accepted s' ! q \<and> claim (qs_cons s' j) \<noteq> Some q"
      if "(q, d) \<in> set (qs_delivered s')" for q d j
      using parts(9) [of q d j] that by (simp add: s')
    show "consumer_ok s' (qs_cons s' j)" for j using parts(8) [of j] by (simp add: cons) (simp add: s')
    show "qs_value s' (q mod cap) = qs_accepted s' ! q" if "q \<in> busy s'" for q
      using parts(5) [of q] keep [of q] that busy by (simp add: s')
    show "producer_ok cap s' (qs_prod s')" using ok by (simp add: s')
  qed (use parts(1-4,10) pub busy in \<open>simp_all add: s'\<close>)
qed

text \<open>A consumer that finds its slot ready, with no other claim on it, saw a published position.\<close>

lemma ready_published:
  assumes inv: "queue_inv cap s" and pc: "qs_cons s i = C_Test p" and ready: "qs_ready s (p mod cap)"
    and safe: "unclaimed cap i p s"
  shows "p < published s"
proof -
  note parts = queue_inv_parts [OF inv]
  have le: "p \<le> qs_head s" using parts(8) [of i] pc by simp
  from ready parts(4) [of "p mod cap"] obtain q where q: "q \<in> busy s" "q mod cap = p mod cap" by auto
  have "claim (qs_cons s j) \<noteq> Some q" for j
    using safe q(2) pc by (cases "j = i") (auto simp: unclaimed_def)
  then have "qs_head s < published s" using q(1) by (auto simp: busy_def)
  with le show ?thesis by simp
qed

lemma queue_inv_step:
  assumes "qstep cap safe s s'" and "queue_inv cap s"
    and "\<And>i p. qs_cons s i = C_Test p \<Longrightarrow> safe i p s \<Longrightarrow> unclaimed cap i p s"
  shows "queue_inv cap s'"
  using assms(1)
proof cases
  case enq_drop
  then show ?thesis using assms(2) by simp
next
  case (enq_room c)
  show ?thesis
    by (rule queue_inv_producer [OF assms(2), where k = "P_Copy c" and t = "qs_tail s" and v = "qs_value s"])
      (use enq_room in \<open>simp_all add: published_def\<close>)
next
  case (enq_copy c)
  have free: "p mod cap \<noteq> qs_tail s mod cap" if "p \<in> busy s" for p
    using queue_inv_parts(4) [OF assms(2), of "qs_tail s mod cap"] queue_inv_parts(7) [OF assms(2)] enq_copy(2)
      imageI [OF that, of "\<lambda>q. q mod cap"] by auto
  show ?thesis
    by (rule queue_inv_producer [OF assms(2), where k = "P_Publish c" and t = "qs_tail s" and v = "(qs_value s)(qs_tail s mod cap := c)"])
      (use enq_copy queue_inv_parts(7) [OF assms(2)] free in \<open>simp_all add: published_def\<close>)
next
  case (enq_publish c)
  then show ?thesis using queue_inv_publish [OF assms(2)] by simp
next
  case enq_advance
  show ?thesis
    by (rule queue_inv_producer [OF assms(2), where k = P_Idle and t = "qs_tail s + 1" and v = "qs_value s"])
      (use enq_advance in \<open>simp_all add: published_def\<close>)
next
  case (deq_load i)
  show ?thesis by (rule queue_inv_consumer [OF assms(2) _ _ deq_load(1)]) (use deq_load in simp_all)
next
  case (deq_unready i p)
  show ?thesis
    by (rule queue_inv_consumer [OF assms(2) _ _ deq_unready(1)]) (use deq_unready in simp_all)
next
  case (deq_reload i p)
  show ?thesis
    by (rule queue_inv_consumer [OF assms(2) _ _ deq_reload(1)]) (use deq_reload in simp_all)
next
  case (deq_empty i p)
  show ?thesis
    by (rule queue_inv_consumer [OF assms(2) _ _ deq_empty(1)]) (use deq_empty in simp_all)
next
  case (deq_ready i p)
  have "p < published s" using ready_published [OF assms(2)] assms(3) deq_ready by blast
  moreover have "p \<le> qs_head s" using queue_inv_parts(8) [OF assms(2), of i] deq_ready by simp
  ultimately show ?thesis
    by (intro queue_inv_consumer [OF assms(2) _ _ deq_ready(1)]) (use deq_ready in simp_all)
next
  case (deq_claim i p)
  then show ?thesis using queue_inv_claim [OF assms(2)] by blast
next
  case (deq_retry i p)
  show ?thesis
    by (rule queue_inv_consumer [OF assms(2) _ _ deq_retry(1)]) (use deq_retry in simp_all)
next
  case (deq_copy i p)
  then show ?thesis using queue_inv_copy [OF assms(2)] by blast
next
  case (deq_release i p c)
  then show ?thesis using queue_inv_release [OF assms(2)] by blast
qed

lemma queue_inv_unclaimed:
  assumes "qsteps cap (unclaimed cap) (qstate0 d) s"
  shows "queue_inv cap s"
  using assms by (induction rule: rtranclp_induct) (auto intro: queue_inv_init queue_inv_step)

text \<open>A position below the head has been claimed by a consumer, and is claimed until it is delivered.\<close>

definition head_accounted :: "qstate \<Rightarrow> bool" where
  "head_accounted s = (\<forall>p < qs_head s. p \<in> fst ` set (qs_delivered s) \<or> (\<exists>i. claim (qs_cons s i) = Some p))"

lemma head_accounted_step:
  assumes "qstep cap safe s s'" and inv: "head_accounted s"
  shows "head_accounted s'"
proof -
  have keep: "head_accounted s'" if "qs_head s' = qs_head s" "qs_delivered s' = qs_delivered s"
    "\<And>i. claim (qs_cons s' i) = claim (qs_cons s i)"
    using inv that by (simp add: head_accounted_def)
  show ?thesis using assms(1)
  proof cases
    case (deq_claim i p)
    have "q \<in> fst ` set (qs_delivered s') \<or> (\<exists>j. claim (qs_cons s' j) = Some q)" if "q < qs_head s'" for q
    proof (cases "q = p")
      case True
      then show ?thesis using deq_claim by (intro disjI2 exI [of _ i]) simp
    next
      case False
      then have "q \<in> fst ` set (qs_delivered s) \<or> (\<exists>j. claim (qs_cons s j) = Some q)"
        using inv that deq_claim by (simp add: head_accounted_def)
      then show ?thesis
      proof
        assume "\<exists>j. claim (qs_cons s j) = Some q"
        then obtain j where j: "claim (qs_cons s j) = Some q" ..
        with deq_claim(2) have "j \<noteq> i" by auto
        with j deq_claim(1) show ?thesis by (intro disjI2 exI [of _ j]) simp
      qed (simp add: deq_claim(1))
    qed
    then show ?thesis by (simp add: head_accounted_def)
  next
    case (deq_release i p c)
    have "q \<in> fst ` set (qs_delivered s') \<or> (\<exists>j. claim (qs_cons s' j) = Some q)" if "q < qs_head s'" for q
    proof (cases "q = p")
      case False
      then have "q \<in> fst ` set (qs_delivered s) \<or> (\<exists>j. claim (qs_cons s j) = Some q)"
        using inv that deq_release by (simp add: head_accounted_def)
      then show ?thesis
      proof
        assume "\<exists>j. claim (qs_cons s j) = Some q"
        then obtain j where j: "claim (qs_cons s j) = Some q" ..
        with deq_release(2) False have "j \<noteq> i" by auto
        with j deq_release(1) show ?thesis by (intro disjI2 exI [of _ j]) simp
      qed (auto simp: deq_release(1))
    qed (simp add: deq_release(1))
    then show ?thesis by (simp add: head_accounted_def)
  qed (rule keep; simp)+
qed

lemma head_accounted_run: "qsteps cap safe (qstate0 d) s \<Longrightarrow> head_accounted s"
proof (induction rule: rtranclp_induct)
  case (step y z)
  then show ?case by (blast intro: head_accounted_step)
qed (simp add: head_accounted_def qstate0_def)

text \<open>
  Each accepted connection is delivered at most once, at its own position and unchanged, and none is
  lost: one that has not been delivered is claimed by a consumer that is about to deliver it, or it
  is in its slot, intact and ready.
\<close>

definition exactly_once :: "nat \<Rightarrow> qstate \<Rightarrow> bool" where
  "exactly_once cap s = (distinct (map fst (qs_delivered s))
     \<and> (\<forall>(p, c) \<in> set (qs_delivered s). p < length (qs_accepted s) \<and> c = qs_accepted s ! p)
     \<and> (\<forall>p < length (qs_accepted s). p \<in> fst ` set (qs_delivered s) \<or> (\<exists>i. claim (qs_cons s i) = Some p)
          \<or> qs_head s \<le> p \<and> qs_ready s (p mod cap) \<and> qs_value s (p mod cap) = qs_accepted s ! p))"

lemma queue_inv_exactly_once:
  assumes "queue_inv cap s" and "head_accounted s"
  shows "exactly_once cap s"
proof -
  note parts = queue_inv_parts [OF assms(1)]
  have "p \<in> fst ` set (qs_delivered s) \<or> (\<exists>i. claim (qs_cons s i) = Some p)
      \<or> qs_head s \<le> p \<and> qs_ready s (p mod cap) \<and> qs_value s (p mod cap) = qs_accepted s ! p"
    if "p < length (qs_accepted s)" for p
  proof (cases "p < qs_head s")
    case True
    then show ?thesis using assms(2) by (auto simp: head_accounted_def)
  next
    case False
    then have "p \<in> busy s" using that parts(2) by (simp add: busy_def)
    then show ?thesis using False parts(4,5) by auto
  qed
  moreover have "p < length (qs_accepted s) \<and> c = qs_accepted s ! p" if "(p, c) \<in> set (qs_delivered s)" for p c
    using parts(1,2) parts(9) [OF that] by force
  ultimately show ?thesis using parts(10) unfolding exactly_once_def by blast
qed

text \<open>
  C9. With any number of workers, in every interleaving in which no worker finds a slot ready that
  another worker has claimed and not yet released: no accepted connection is delivered twice or mixed up
  with another, and none is lost, since what has not been delivered is claimed by a worker or ready and
  intact in its slot. The release of the slot after the claim is the only hazard of the ring.
\<close>

theorem dequeue_exactly_once_unless_claimed:
  assumes "qsteps cap (unclaimed cap) (qstate0 d) s"
  shows "exactly_once cap s"
  using queue_inv_unclaimed [OF assms] head_accounted_run [OF assms] by (rule queue_inv_exactly_once)

text \<open>
  C10. With a single worker the queue as written is correct in every interleaving with the accept
  thread: each accepted connection is delivered at most once, in its position, with its payload, and
  is claimed by the worker or ready in its slot until then.
\<close>

theorem dequeue_exactly_once_single_worker:
  assumes "qsteps cap (\<lambda>i p s. i = 0) (qstate0 d) s"
  shows "exactly_once cap s"
proof -
  have "queue_inv cap s \<and> (\<forall>i. i \<noteq> 0 \<longrightarrow> claim (qs_cons s i) = None \<and> (\<forall>p. qs_cons s i \<noteq> C_Cas p))"
    using assms
  proof (induction rule: rtranclp_induct)
    case base
    then show ?case using queue_inv_init by (simp add: qstate0_def)
  next
    case (step s s')
    from step.IH have inv: "queue_inv cap s"
      and other: "i \<noteq> 0 \<Longrightarrow> claim (qs_cons s i) = None \<and> (\<forall>p. qs_cons s i \<noteq> C_Cas p)" for i by auto
    have "queue_inv cap s'"
      by (rule queue_inv_step [OF step.hyps(2) inv]) (use other in \<open>force simp: unclaimed_def\<close>)
    moreover have "claim (qs_cons s' i) = None \<and> (\<forall>p. qs_cons s' i \<noteq> C_Cas p)" if "i \<noteq> 0" for i
      using step.hyps(2) other [OF that] that by cases auto
    ultimately show ?case by blast
  qed
  then show ?thesis using head_accounted_run [OF assms] by (blast intro: queue_inv_exactly_once)
qed

section \<open>What goes wrong with two workers\<close>

abbreviation any_time :: "nat \<Rightarrow> nat \<Rightarrow> qstate \<Rightarrow> bool" where
  "any_time \<equiv> \<lambda>_ _ _. True"

text \<open>Whole operations as runs of steps: an enqueue, a claim, and the end of a dequeue.\<close>

lemma enqueue_run:
  assumes "qs_prod s = P_Idle" and "\<not> qs_ready s (qs_tail s mod cap)"
  shows "qsteps cap safe s (s\<lparr>qs_value := (qs_value s)(qs_tail s mod cap := c),
    qs_ready := (qs_ready s)(qs_tail s mod cap := True), qs_accepted := qs_accepted s @ [c],
    qs_tail := qs_tail s + 1\<rparr>)"
proof -
  let ?s1 = "s\<lparr>qs_prod := P_Copy c\<rparr>"
  let ?s2 = "?s1\<lparr>qs_value := (qs_value s)(qs_tail s mod cap := c), qs_prod := P_Publish c\<rparr>"
  let ?s3 = "?s2\<lparr>qs_ready := (qs_ready s)(qs_tail s mod cap := True), qs_prod := P_Advance,
    qs_accepted := qs_accepted s @ [c]\<rparr>"
  have "qstep cap safe s ?s1" using assms by (rule qstep.enq_room)
  moreover have "qstep cap safe ?s1 ?s2" using qstep.enq_copy [of ?s1 c] by simp
  moreover have "qstep cap safe ?s2 ?s3" using qstep.enq_publish [of ?s2 c] by simp
  moreover have "qstep cap safe ?s3 (?s3\<lparr>qs_tail := qs_tail s + 1, qs_prod := P_Idle\<rparr>)"
    using qstep.enq_advance [of ?s3] by simp
  moreover have "?s3\<lparr>qs_tail := qs_tail s + 1, qs_prod := P_Idle\<rparr> = s\<lparr>qs_value := (qs_value s)(qs_tail s mod cap := c),
    qs_ready := (qs_ready s)(qs_tail s mod cap := True), qs_accepted := qs_accepted s @ [c],
    qs_tail := qs_tail s + 1\<rparr>" using assms(1) by simp
  ultimately show ?thesis by (metis (no_types, lifting) rtranclp.rtrancl_into_rtrancl rtranclp.rtrancl_refl)
qed

lemma claim_run:
  assumes "qs_cons s i = C_Idle" and "qs_ready s (qs_head s mod cap)"
    and "safe i (qs_head s) (s\<lparr>qs_cons := (qs_cons s)(i := C_Test (qs_head s))\<rparr>)"
  shows "qsteps cap safe s
    (s\<lparr>qs_head := qs_head s + 1, qs_cons := (qs_cons s)(i := C_Copy (qs_head s))\<rparr>)"
proof -
  let ?s1 = "s\<lparr>qs_cons := (qs_cons s)(i := C_Test (qs_head s))\<rparr>"
  let ?s2 = "?s1\<lparr>qs_cons := (qs_cons ?s1)(i := C_Cas (qs_head s))\<rparr>"
  have "qstep cap safe s ?s1" using assms(1) by (rule qstep.deq_load)
  moreover have "qstep cap safe ?s1 ?s2" by (rule qstep.deq_ready) (use assms(2,3) in simp_all)
  moreover have "qstep cap safe ?s2
      (?s2\<lparr>qs_head := qs_head s + 1, qs_cons := (qs_cons ?s2)(i := C_Copy (qs_head s))\<rparr>)"
    by (rule qstep.deq_claim) simp_all
  ultimately have "qsteps cap safe s
      (?s2\<lparr>qs_head := qs_head s + 1, qs_cons := (qs_cons ?s2)(i := C_Copy (qs_head s))\<rparr>)"
    by (meson rtranclp.rtrancl_into_rtrancl rtranclp.rtrancl_refl)
  then show ?thesis by simp
qed

lemma finish_run:
  assumes "qs_cons s i = C_Copy p"
  shows "qsteps cap safe s (s\<lparr>qs_ready := (qs_ready s)(p mod cap := False),
    qs_cons := (qs_cons s)(i := C_Idle), qs_delivered := qs_delivered s @ [(p, qs_value s (p mod cap))]\<rparr>)"
proof -
  let ?c = "qs_value s (p mod cap)"
  let ?s1 = "s\<lparr>qs_cons := (qs_cons s)(i := C_Release p ?c)\<rparr>"
  have "qstep cap safe s ?s1" using assms by (rule qstep.deq_copy)
  moreover have "qstep cap safe ?s1 (?s1\<lparr>qs_ready := (qs_ready ?s1)(p mod cap := False),
      qs_cons := (qs_cons ?s1)(i := C_Idle), qs_delivered := qs_delivered ?s1 @ [(p, ?c)]\<rparr>)"
    by (rule qstep.deq_release) simp
  ultimately have "qsteps cap safe s (?s1\<lparr>qs_ready := (qs_ready ?s1)(p mod cap := False),
      qs_cons := (qs_cons ?s1)(i := C_Idle), qs_delivered := qs_delivered ?s1 @ [(p, ?c)]\<rparr>)"
    by (meson rtranclp.rtrancl_into_rtrancl rtranclp.rtrancl_refl)
  then show ?thesis by simp
qed

text \<open>
  C11. With two workers the queue as written can deliver a connection twice. In a queue of two
  slots the accept thread enqueues \<open>a\<close> and \<open>b\<close>; worker 0 claims the position of \<open>a\<close> and is
  suspended before it clears \<open>ready\<close>; worker 1 dequeues \<open>b\<close>, comes back to the first slot, finds its
  stale \<open>ready\<close> and dequeues \<open>a\<close>; then worker 0 goes on and delivers \<open>a\<close> as well. Both workers
  serve the same descriptor, and the head has overtaken the tail.
\<close>

theorem dequeue_delivers_twice:
  "\<exists>s. qsteps 2 any_time (qstate0 d) s \<and> qs_accepted s = [a, b]
    \<and> qs_delivered s = [(1, b), (2, a), (0, a)] \<and> qs_tail s < qs_head s"
proof -
  let ?R = "qsteps 2 any_time" and ?idle = "\<lambda>_ :: nat. C_Idle"
  let ?A = "\<lambda>r h k dl. \<lparr>qs_ready = r, qs_value = (\<lambda>_. d)(0 := a, 1 := b), qs_head = h, qs_tail = 2,
    qs_prod = P_Idle, qs_cons = k, qs_accepted = [a, b], qs_delivered = dl\<rparr>"
  let ?two = "(\<lambda>_ :: nat. False)(0 := True, 1 := True)" and ?k = "?idle(0 := C_Copy 0)"
  let ?a1 = "(qstate0 d)\<lparr>qs_value := (\<lambda>_. d)(0 := a), qs_ready := (\<lambda>_. False)(0 := True),
    qs_accepted := [a], qs_tail := 1\<rparr>"
  have r1: "?R (qstate0 d) ?a1" using enqueue_run [of "qstate0 d" 2 any_time a] by (simp add: qstate0_def)
  have r2: "?R ?a1 (?A ?two 0 ?idle [])" using enqueue_run [of ?a1 2 any_time b] by (simp add: qstate0_def numeral_2_eq_2)
  have r3: "?R (?A ?two 0 ?idle []) (?A ?two 1 ?k [])"
    using claim_run [of "?A ?two 0 ?idle []" 0 2 any_time] by simp
  have r4: "?R (?A ?two 1 ?k []) (?A ?two 2 (?k(1 := C_Copy 1)) [])"
    using claim_run [of "?A ?two 1 ?k []" 1 2 any_time] by (simp add: numeral_2_eq_2)
  have r5: "?R (?A ?two 2 (?k(1 := C_Copy 1)) []) (?A (?two(1 := False)) 2 (?k(1 := C_Idle)) [(1, b)])"
    using finish_run [of "?A ?two 2 (?k(1 := C_Copy 1)) []" 1 1 2 any_time] by simp
  have r6: "?R (?A (?two(1 := False)) 2 (?k(1 := C_Idle)) [(1, b)])
      (?A (?two(1 := False)) 3 (?k(1 := C_Copy 2)) [(1, b)])"
    using claim_run [of "?A (?two(1 := False)) 2 (?k(1 := C_Idle)) [(1, b)]" 1 2 any_time] by (simp add: numeral_3_eq_3 numeral_2_eq_2)
  have r7: "?R (?A (?two(1 := False)) 3 (?k(1 := C_Copy 2)) [(1, b)])
      (?A (?two(1 := False, 0 := False)) 3 (?k(1 := C_Idle)) [(1, b), (2, a)])"
    using finish_run [of "?A (?two(1 := False)) 3 (?k(1 := C_Copy 2)) [(1, b)]" 1 2 2 any_time] by simp
  have r8: "?R (?A (?two(1 := False, 0 := False)) 3 (?k(1 := C_Idle)) [(1, b), (2, a)])
      (?A (?two(1 := False, 0 := False)) 3 (?k(1 := C_Idle, 0 := C_Idle)) [(1, b), (2, a), (0, a)])"
    using finish_run [of "?A (?two(1 := False, 0 := False)) 3 (?k(1 := C_Idle)) [(1, b), (2, a)]" 0 0 2 any_time] by simp
  note run = rtranclp_trans [OF r1 rtranclp_trans [OF r2 rtranclp_trans [OF r3 rtranclp_trans [OF r4
    rtranclp_trans [OF r5 rtranclp_trans [OF r6 rtranclp_trans [OF r7 r8]]]]]]]
  show ?thesis by (rule exI, rule conjI, rule run) simp
qed

text \<open>Two workers take a connection each at the same time; the second finishes first.\<close>

lemma dequeue_exactly_once_unless_claimed_witness:
  "\<exists>s. qsteps 2 (unclaimed 2) (qstate0 (sample_info 0)) s \<and> exactly_once 2 s
    \<and> qs_accepted s = [sample_info 5, sample_info 6]
    \<and> qs_delivered s = [(1, sample_info 6), (0, sample_info 5)]"
proof -
  let ?R = "qsteps 2 (unclaimed 2)" and ?idle = "\<lambda>_ :: nat. C_Idle"
  let ?d = "sample_info 0" and ?a = "sample_info 5" and ?b = "sample_info 6"
  let ?A = "\<lambda>r h k dl. \<lparr>qs_ready = r, qs_value = (\<lambda>_. ?d)(0 := ?a, 1 := ?b), qs_head = h, qs_tail = 2,
    qs_prod = P_Idle, qs_cons = k, qs_accepted = [?a, ?b], qs_delivered = dl\<rparr>"
  let ?two = "(\<lambda>_ :: nat. False)(0 := True, 1 := True)" and ?k = "?idle(0 := C_Copy 0)"
  let ?a1 = "(qstate0 ?d)\<lparr>qs_value := (\<lambda>_. ?d)(0 := ?a), qs_ready := (\<lambda>_. False)(0 := True),
    qs_accepted := [?a], qs_tail := 1\<rparr>"
  have r1: "?R (qstate0 ?d) ?a1" using enqueue_run [of "qstate0 ?d" 2 _ ?a] by (simp add: qstate0_def)
  have r2: "?R ?a1 (?A ?two 0 ?idle [])" using enqueue_run [of ?a1 2 _ ?b] by (simp add: qstate0_def numeral_2_eq_2)
  have r3: "?R (?A ?two 0 ?idle []) (?A ?two 1 ?k [])"
    using claim_run [of "?A ?two 0 ?idle []" 0 2 "unclaimed 2"] by (simp add: unclaimed_def)
  have safe: "unclaimed 2 1 1 (?A ?two 1 (?k(1 := C_Test 1)) [])" by (simp add: unclaimed_def)
  have r4: "?R (?A ?two 1 ?k []) (?A ?two 2 (?k(1 := C_Copy 1)) [])"
    using claim_run [of "?A ?two 1 ?k []" 1 2 "unclaimed 2"] safe by (simp add: numeral_2_eq_2)
  have r5: "?R (?A ?two 2 (?k(1 := C_Copy 1)) []) (?A (?two(1 := False)) 2 (?k(1 := C_Idle)) [(1, ?b)])"
    using finish_run [of "?A ?two 2 (?k(1 := C_Copy 1)) []" 1 1 2] by simp
  have r6: "?R (?A (?two(1 := False)) 2 (?k(1 := C_Idle)) [(1, ?b)])
      (?A (?two(1 := False, 0 := False)) 2 (?k(1 := C_Idle, 0 := C_Idle)) [(1, ?b), (0, ?a)])"
    using finish_run [of "?A (?two(1 := False)) 2 (?k(1 := C_Idle)) [(1, ?b)]" 0 0 2] by simp
  note run = rtranclp_trans [OF r1 rtranclp_trans [OF r2 rtranclp_trans [OF r3 rtranclp_trans [OF r4
    rtranclp_trans [OF r5 r6]]]]]
  from dequeue_exactly_once_unless_claimed [OF run] run show ?thesis by (intro exI conjI) (assumption, assumption, simp_all)
qed

text \<open>A connection is accepted, and the one worker takes it.\<close>

lemma dequeue_exactly_once_single_worker_witness:
  "\<exists>s. qsteps 2 (\<lambda>i p s. i = 0) (qstate0 (sample_info 0)) s \<and> exactly_once 2 s
    \<and> qs_accepted s = [sample_info 5] \<and> qs_delivered s = [(0, sample_info 5)] \<and> qs_head s = 1"
proof -
  let ?R = "qsteps 2 (\<lambda>i p s. i = 0)" and ?d = "sample_info 0" and ?a = "sample_info 5"
  let ?a1 = "(qstate0 ?d)\<lparr>qs_value := (\<lambda>_. ?d)(0 := ?a), qs_ready := (\<lambda>_. False)(0 := True),
    qs_accepted := [?a], qs_tail := 1\<rparr>"
  let ?a2 = "?a1\<lparr>qs_head := 1, qs_cons := (\<lambda>_. C_Idle)(0 := C_Copy 0)\<rparr>"
  let ?a3 = "?a2\<lparr>qs_ready := (\<lambda>_. False)(0 := False), qs_cons := (\<lambda>_. C_Idle)(0 := C_Idle), qs_delivered := [(0, ?a)]\<rparr>"
  have r1: "?R (qstate0 ?d) ?a1" using enqueue_run [of "qstate0 ?d" 2 _ ?a] by (simp add: qstate0_def)
  have r2: "?R ?a1 ?a2" using claim_run [of ?a1 0 2 "\<lambda>i p s. i = 0"] by (simp add: qstate0_def)
  have r3: "?R ?a2 ?a3" using finish_run [of ?a2 0 0 2] by (simp add: qstate0_def)
  note run = rtranclp_trans [OF r1 rtranclp_trans [OF r2 r3]]
  from dequeue_exactly_once_single_worker [OF run] run show ?thesis
    by (intro exI conjI) (assumption, assumption, simp_all add: qstate0_def)
qed

end
