(* ===== verification/Log_Queue.thy ===== *)
theory Log_Queue
  imports Ring
begin

text \<open>
  The log queue of \<^verbatim>\<open>src/logger.c\<close>: a ring of 128 entries of up to 159 bytes with 32-bit
  counters that do wrap around. The functions are modelled as they run without interference;
  the contract is the one of \<^const>\<open>bounded_queue\<close>, with another full test than the connection
  queue: the difference of the counters instead of the ready byte of the slot.
\<close>

definition LOG_QUEUE_SIZE :: u32 where "LOG_QUEUE_SIZE = 128"
definition LOG_MESSAGE_SIZE :: nat where "LOG_MESSAGE_SIZE = 160"

datatype log_level = INFO | WARNING | ERROR

record log_entry =
  le_level :: log_level
  le_ready :: u8
  le_len :: u8
  le_message :: "byte list"

record log_queue =
  lq_data :: "log_entry list"
  lq_head :: u32
  lq_tail :: u32

definition log_entry0 :: log_entry where
  "log_entry0 = \<lparr>le_level = INFO, le_ready = 0, le_len = 0, le_message = replicate LOG_MESSAGE_SIZE 0\<rparr>"

definition log_queue0 :: log_queue where
  "log_queue0 = \<lparr>lq_data = replicate (unat LOG_QUEUE_SIZE) log_entry0, lq_head = 0, lq_tail = 0\<rparr>"

text \<open>\<open>memcpy(dst, src, n); dst[n] = 0\<close>\<close>

definition put_message :: "byte list \<Rightarrow> byte list \<Rightarrow> nat \<Rightarrow> byte list" where
  "put_message dst src n = take n src @ [0] @ drop (n + 1) dst"

text \<open>
  The entry \<open>tiny_log\<close> builds from the formatted text, \<open>None\<close> when \<open>vsnprintf\<close> reports an error.
  \<open>vsnprintf\<close> stores what fits before the final zero and returns the length of the whole text.
\<close>

definition log_entry_of :: "log_level \<Rightarrow> byte list option \<Rightarrow> log_entry option" where
  "log_entry_of level formatted =
     (case formatted of None \<Rightarrow> None
      | Some t \<Rightarrow> Some (log_entry0\<lparr>le_level := level,
          le_message := put_message (le_message log_entry0) t (min (length t) (LOG_MESSAGE_SIZE - 1)),
          le_len := if length t \<ge> LOG_MESSAGE_SIZE then word_of_nat (LOG_MESSAGE_SIZE - 1)
                    else word_of_nat (length t)\<rparr>))"

definition log_slot :: "u32 \<Rightarrow> nat" where
  "log_slot i = unat (i AND (LOG_QUEUE_SIZE - 1))"

definition enqueue_log :: "log_queue \<Rightarrow> log_entry \<Rightarrow> bool \<times> log_queue" where
  "enqueue_log q l =
     (if lq_tail q - lq_head q \<ge> LOG_QUEUE_SIZE then (False, q)
      else let i = log_slot (lq_tail q); slot = lq_data q ! i in
        (True, q\<lparr>lq_tail := lq_tail q + 1,
          lq_data := (lq_data q)[i := slot\<lparr>le_level := le_level l, le_len := le_len l,
            le_message := put_message (le_message slot) (le_message l) (unat (le_len l)), le_ready := 1\<rparr>]\<rparr>))"

text \<open>\<open>None\<close> is the wait for a producer that has claimed the slot and not filled it yet.\<close>

definition dequeue_log :: "log_queue \<Rightarrow> log_entry \<Rightarrow> (bool \<times> log_queue \<times> log_entry) option" where
  "dequeue_log q l =
     (if lq_head q = lq_tail q then Some (False, q, l)
      else let i = log_slot (lq_head q); slot = lq_data q ! i in
        if le_ready slot = 0 then None
        else Some (True, q\<lparr>lq_data := (lq_data q)[i := slot\<lparr>le_ready := 0\<rparr>], lq_head := lq_head q + 1\<rparr>,
          l\<lparr>le_level := le_level slot, le_len := le_len slot,
            le_message := put_message (le_message l) (le_message slot) (unat (le_len slot))\<rparr>))"

definition tiny_log :: "log_queue \<Rightarrow> log_level \<Rightarrow> byte list option \<Rightarrow> log_queue" where
  "tiny_log q level formatted =
     (case log_entry_of level formatted of None \<Rightarrow> q | Some l \<Rightarrow> snd (enqueue_log q l))"

text \<open>The final loop of the logger thread after \<open>log_shutdown\<close>: what it writes, for \<open>n\<close> dequeues.\<close>

fun logger_drain :: "nat \<Rightarrow> log_queue \<Rightarrow> log_entry \<Rightarrow> byte list \<times> log_queue" where
  "logger_drain 0 q l = ([], q)"
| "logger_drain (Suc n) q l =
     (case dequeue_log q l of
        Some (True, q', l') \<Rightarrow>
          (let (out, q'') = logger_drain n q' l' in (take (unat (le_len l')) (le_message l') @ out, q''))
      | _ \<Rightarrow> ([], q))"

section \<open>The log as a bounded queue\<close>

text \<open>What an entry says: its level and its text.\<close>

definition log_value :: "log_entry \<Rightarrow> log_level \<times> byte list" where
  "log_value l = (le_level l, take (unat (le_len l)) (le_message l))"

definition log_size :: "log_queue \<Rightarrow> nat" where
  "log_size q = unat (lq_tail q - lq_head q)"

definition log_items :: "log_queue \<Rightarrow> (log_level \<times> byte list) list" where
  "log_items q = map log_value (ring_items 128 (lq_data q) (lq_head q) (log_size q))"

definition entry_ok :: "log_entry \<Rightarrow> bool" where
  "entry_ok l = (length (le_message l) = LOG_MESSAGE_SIZE \<and> unat (le_len l) < LOG_MESSAGE_SIZE)"

definition log_ok :: "log_queue \<Rightarrow> bool" where
  "log_ok q = (length (lq_data q) = 128 \<and> log_size q \<le> 128 \<and> (\<forall>e \<in> set (lq_data q). entry_ok e)
     \<and> (\<forall>j < log_size q. le_ready (lq_data q ! ((unat (lq_head q) + j) mod 128)) \<noteq> 0))"

lemma log_slot_eq: "log_slot i = unat i mod 128"
  using mask_index [of i 7] by (simp add: log_slot_def LOG_QUEUE_SIZE_def)

lemma dvd_128: "128 dvd (2 :: nat) ^ LENGTH(32)" by simp

lemma log_tail_slot: "log_slot (lq_tail q) = (unat (lq_head q) + log_size q) mod 128"
proof -
  have "lq_tail q = lq_head q + word_of_nat (log_size q)" by (simp add: log_size_def)
  then show ?thesis by (simp only: log_slot_eq unat_add_mod [OF dvd_128])
qed

lemma put_message_facts:
  assumes "length dst = LOG_MESSAGE_SIZE" and "n < LOG_MESSAGE_SIZE" and "n \<le> length src"
  shows "length (put_message dst src n) = LOG_MESSAGE_SIZE" "take n (put_message dst src n) = take n src"
  using assms by (simp_all add: put_message_def)

lemma log_entry_of_ok: "log_entry_of level t = Some l \<Longrightarrow> entry_ok l"
  by (auto simp: log_entry_of_def entry_ok_def log_entry0_def put_message_def LOG_MESSAGE_SIZE_def unat_of_nat
      split: option.splits)

lemma log_entry_of_value:
  "log_entry_of level (Some t) = Some l \<Longrightarrow> log_value l = (level, take (LOG_MESSAGE_SIZE - 1) t)"
  by (auto simp: log_entry_of_def log_value_def log_entry0_def put_message_def LOG_MESSAGE_SIZE_def unat_of_nat)

lemma log_full_iff: "LOG_QUEUE_SIZE \<le> lq_tail q - lq_head q \<longleftrightarrow> 128 \<le> log_size q"
  by (simp add: LOG_QUEUE_SIZE_def log_size_def word_le_nat_alt)

lemma enqueue_log_room:
  assumes ok: "log_ok q" and room: "log_size q < 128" and l: "entry_ok l"
  shows "\<exists>q'. enqueue_log q l = (True, q') \<and> log_ok q' \<and> log_items q' = log_items q @ [log_value l]"
proof -
  let ?h = "unat (lq_head q)" and ?n = "log_size q" and ?i = "(unat (lq_head q) + log_size q) mod 128"
  let ?slot = "lq_data q ! ?i"
  define x where "x = ?slot\<lparr>le_level := le_level l, le_len := le_len l,
    le_message := put_message (le_message ?slot) (le_message l) (unat (le_len l)), le_ready := 1\<rparr>"
  define q' where "q' = q\<lparr>lq_tail := lq_tail q + 1, lq_data := (lq_data q)[?i := x]\<rparr>"
  have run: "enqueue_log q l = (True, q')"
    using room by (simp add: enqueue_log_def log_full_iff log_tail_slot Let_def q'_def x_def)
  have len: "length (lq_data q) = 128" using ok by (simp add: log_ok_def)
  then have "entry_ok ?slot" using ok by (simp add: log_ok_def)
  then have x: "entry_ok x" "log_value x = log_value l" "le_ready x \<noteq> 0"
    using l put_message_facts [of "le_message ?slot" "unat (le_len l)" "le_message l"]
    by (simp_all add: entry_ok_def x_def log_value_def)
  have "unat (lq_tail q - lq_head q + 1) = Suc ?n"
    using room by (simp add: unat_word_ariths log_size_def)
  then have size: "log_size q' = Suc ?n" by (simp add: log_size_def q'_def algebra_simps)
  have "le_ready ((lq_data q)[?i := x] ! ((?h + j) mod 128)) \<noteq> 0" if "j < Suc ?n" for j
  proof (cases "j = ?n")
    case True
    then show ?thesis using len x by simp
  next
    case False
    then have "?i \<noteq> (?h + j) mod 128" using mod_window_inj [of ?h j 128 ?n] that room by auto
    then show ?thesis using ok that False by (simp add: log_ok_def)
  qed
  moreover have "\<forall>e \<in> set ((lq_data q)[?i := x]). entry_ok e"
    using ok x(1) set_update_subset_insert [of "lq_data q" ?i x] by (auto simp: log_ok_def)
  ultimately have "log_ok q'" using size room len unfolding log_ok_def by (simp add: q'_def)
  moreover have "log_items q' = log_items q @ [log_value l]"
    using ring_items_update [of 128 ?n ?i "lq_head q" ?n "lq_data q" x] room len size x(2)
    by (simp add: log_items_def ring_items_snoc q'_def)
  ultimately show ?thesis using run by simp
qed

lemma dequeue_log_some:
  assumes ok: "log_ok q" and items: "log_items q = v # vs" and l: "length (le_message l) = LOG_MESSAGE_SIZE"
  shows "\<exists>q' l'. dequeue_log q l = Some (True, q', l') \<and> log_value l' = v \<and> entry_ok l'
    \<and> log_ok q' \<and> log_items q' = vs"
proof -
  let ?h = "unat (lq_head q)" and ?i = "unat (lq_head q) mod 128"
  let ?slot = "lq_data q ! ?i"
  from items obtain n where n: "log_size q = Suc n" by (cases "log_size q") (simp_all add: log_items_def)
  define y where "y = ?slot\<lparr>le_ready := 0\<rparr>"
  define q' where "q' = q\<lparr>lq_data := (lq_data q)[?i := y], lq_head := lq_head q + 1\<rparr>"
  define l' where "l' = l\<lparr>le_level := le_level ?slot, le_len := le_len ?slot,
    le_message := put_message (le_message l) (le_message ?slot) (unat (le_len ?slot))\<rparr>"
  have len: "length (lq_data q) = 128" and le: "Suc n \<le> 128" using ok n by (simp_all add: log_ok_def)
  have slot: "entry_ok ?slot" using ok len by (simp add: log_ok_def)
  have ready: "le_ready (lq_data q ! ((?h + j) mod 128)) \<noteq> 0" if "j < Suc n" for j
    using ok that n by (simp add: log_ok_def)
  have "lq_head q \<noteq> lq_tail q" using n by (auto simp: log_size_def)
  then have run: "dequeue_log q l = Some (True, q', l')"
    using ready [of 0] by (simp add: dequeue_log_def Let_def log_slot_eq q'_def y_def l'_def)
  have l': "entry_ok l'" "log_value l' = log_value ?slot"
    using slot l put_message_facts [of "le_message l" "unat (le_len ?slot)" "le_message ?slot"]
    by (simp_all add: entry_ok_def l'_def log_value_def)
  have "unat (lq_tail q - lq_head q - 1) = n"
    using n unfolding log_size_def by (subst unat_minus_one) auto
  then have size: "log_size q' = n" by (simp add: log_size_def q'_def algebra_simps)
  have head: "(unat (lq_head q + 1) + j) mod 128 = (?h + Suc j) mod 128" for j
    by (rule unat_Suc_mod [OF dvd_128])
  have all: "log_items q = log_value ?slot # map log_value (ring_items 128 (lq_data q) (lq_head q + 1) n)"
    using dvd_128 by (simp add: log_items_def n ring_items_Cons)
  have last: "?i = (unat (lq_head q + 1) + 127) mod 128" using head [of 127] by simp
  have keep: "ring_items 128 ((lq_data q)[?i := y]) (lq_head q + 1) n = ring_items 128 (lq_data q) (lq_head q + 1) n"
    by (rule ring_items_update [OF _ _ last]) (use le in auto)
  have "le_ready ((lq_data q)[?i := y] ! ((unat (lq_head q + 1) + j) mod 128)) \<noteq> 0" if "j < n" for j
  proof -
    have "?i \<noteq> (?h + Suc j) mod 128" using mod_window_inj [of ?h "Suc j" 128 0] that le by auto
    then show ?thesis using ready [of "Suc j"] head [of j] that by simp
  qed
  moreover have "\<forall>e \<in> set ((lq_data q)[?i := y]). entry_ok e"
    using ok slot set_update_subset_insert [of "lq_data q" ?i y] by (auto simp: log_ok_def y_def entry_ok_def)
  ultimately have "log_ok q'" using size le len unfolding log_ok_def by (simp add: q'_def)
  moreover have "log_items q' = vs" using items all keep size by (simp add: log_items_def q'_def)
  ultimately show ?thesis using run l' items all by auto
qed

text \<open>The queue of formatted messages: what is queued of a message is what fits a slot.\<close>

definition log_enq :: "log_queue \<Rightarrow> log_level \<times> byte list \<Rightarrow> bool \<times> log_queue" where
  "log_enq q m = (case log_entry_of (fst m) (Some (snd m)) of None \<Rightarrow> (False, q) | Some l \<Rightarrow> enqueue_log q l)"

definition log_deq :: "log_queue \<Rightarrow> (log_level \<times> byte list) option \<times> log_queue" where
  "log_deq q = (case dequeue_log q log_entry0 of Some (True, q', l) \<Rightarrow> (Some (log_value l), q') | _ \<Rightarrow> (None, q))"

definition log_clip :: "log_level \<times> byte list \<Rightarrow> log_level \<times> byte list" where
  "log_clip m = (fst m, take (LOG_MESSAGE_SIZE - 1) (snd m))"

lemma length_log_items [simp]: "length (log_items q) = log_size q"
  by (simp add: log_items_def)

interpretation logs: bounded_queue log_enq log_deq log_clip log_ok log_items "\<lambda>_. 128"
proof
  show "length (log_items q) \<le> 128" if "log_ok q" for q using that by (simp add: log_ok_def)
next
  fix q m assume ok: "log_ok q" and room: "length (log_items q) < 128"
  obtain l where l: "log_entry_of (fst m) (Some (snd m)) = Some l" by (simp add: log_entry_of_def)
  from enqueue_log_room [OF ok _ log_entry_of_ok [OF l]] room log_entry_of_value [OF l] l
  show "\<exists>q'. log_enq q m = (True, q') \<and> log_ok q' \<and> log_items q' = log_items q @ [log_clip m] \<and> (128 :: nat) = 128"
    by (auto simp: log_enq_def log_clip_def)
next
  fix q m assume "log_ok q" "length (log_items q) = 128"
  then show "log_enq q m = (False, q)"
    by (simp add: log_enq_def enqueue_log_def log_full_iff split: option.split)
next
  fix q assume "log_ok q" "log_items q = []"
  moreover from this(2) have "log_size q = 0" by (metis length_log_items list.size(3))
  then have "lq_tail q - lq_head q = 0" by (simp add: log_size_def unat_eq_zero)
  then have "lq_head q = lq_tail q" by simp
  ultimately show "log_deq q = (None, q)" by (simp add: log_deq_def dequeue_log_def)
next
  fix q v vs assume "log_ok q" "log_items q = v # vs"
  from dequeue_log_some [OF this, of log_entry0]
  show "\<exists>q'. log_deq q = (Some v, q') \<and> log_ok q' \<and> log_items q' = vs \<and> (128 :: nat) = 128"
    by (auto simp: log_deq_def log_entry0_def)
qed

lemma log_queue0_ok: "log_ok log_queue0" "log_items log_queue0 = []"
  by (auto simp: log_ok_def log_queue0_def log_size_def log_items_def LOG_QUEUE_SIZE_def entry_ok_def
      log_entry0_def LOG_MESSAGE_SIZE_def)

text \<open>
  C12. Without interference - the calls of \<open>tiny_log\<close> and the reads of the logger thread one after the
  other - and however often the 32-bit counters wrap around: the messages read so far followed by those
  still queued are the accepted ones in order, each with its level and its first 159 bytes; at most 128 are
  queued; and the next message is refused, and then as a whole and without a trace, exactly when 128 are
  queued.
\<close>

theorem log_queue_fifo:
  assumes "queue_run log_enq log_deq log_queue0 ops = (accepted, delivered, q)"
  shows "map log_clip accepted = delivered @ log_items q \<and> length (log_items q) \<le> 128
    \<and> (\<forall>m. fst (log_enq q m) \<longleftrightarrow> length (log_items q) < 128)
    \<and> (\<forall>m. \<not> fst (log_enq q m) \<longrightarrow> snd (log_enq q m) = q)"
proof -
  have q: "log_ok q" "map log_clip accepted = delivered @ log_items q"
    using logs.queue_run_fifo [OF log_queue0_ok(1) assms] log_queue0_ok(2) by auto
  have "fst (log_enq q m)" if "length (log_items q) < 128" for m
    using logs.enq_room [OF q(1) that, of m] by auto
  moreover have "log_enq q m = (False, q)" if "\<not> length (log_items q) < 128" for m
    using logs.enq_full [OF q(1), of m] logs.bound [OF q(1)] that by simp
  ultimately have "(\<forall>m. fst (log_enq q m) \<longleftrightarrow> length (log_items q) < 128) \<and> (\<forall>m. \<not> fst (log_enq q m) \<longrightarrow> snd (log_enq q m) = q)"
    by (metis fst_conv snd_conv)
  with q(2) logs.bound [OF q(1)] show ?thesis by simp
qed

text \<open>128 messages are queued, one more is refused, one is read, and then the next one is accepted again.\<close>

definition log_flood :: "(log_level \<times> byte list) queue_op list" where
  "log_flood = replicate 128 (Enq (INFO, [65])) @ [Enq (INFO, [65]), Deq, Enq (ERROR, [66])]"

lemma log_enqs:
  assumes "log_ok q" and "length (log_items q) + n \<le> 128"
  shows "\<exists>q'. (\<forall>ops. queue_run log_enq log_deq q (replicate n (Enq m) @ ops) =
      (case queue_run log_enq log_deq q' ops of (a, d, q2) \<Rightarrow> (replicate n m @ a, d, q2)))
    \<and> log_ok q' \<and> log_items q' = log_items q @ replicate n (log_clip m)"
  using assms
proof (induction n arbitrary: q)
  case 0
  then show ?case by (intro exI [of _ q]) simp
next
  case (Suc n)
  then obtain q1 where q1: "log_enq q m = (True, q1)" "log_ok q1" "log_items q1 = log_items q @ [log_clip m]"
    using logs.enq_room [of q m] by auto
  have room: "length (log_items q1) + n \<le> 128" using Suc.prems(2) by (simp add: q1(3))
  from Suc.IH [OF q1(2) room] obtain q' where
    "\<forall>ops. queue_run log_enq log_deq q1 (replicate n (Enq m) @ ops) =
      (case queue_run log_enq log_deq q' ops of (a, d, q2) \<Rightarrow> (replicate n m @ a, d, q2))"
    "log_ok q'" "log_items q' = log_items q1 @ replicate n (log_clip m)" by blast
  then show ?case using q1(1,3) by (intro exI [of _ q']) (simp add: split: prod.split)
qed

lemma log_queue_fifo_witness:
  "\<exists>q. queue_run log_enq log_deq log_queue0 log_flood
      = (replicate 128 (INFO, [65]) @ [(ERROR, [66])], [(INFO, [65])], q)
    \<and> log_items q = replicate 127 (INFO, [65]) @ [(ERROR, [66])]
    \<and> \<not> fst (log_enq q (INFO, [67])) \<and> snd (log_enq q (INFO, [67])) = q"
proof -
  let ?m = "(INFO, [65])" and ?m2 = "(ERROR, [66])"
  obtain q1 where q1: "\<And>ops. queue_run log_enq log_deq log_queue0 (replicate 128 (Enq ?m) @ ops) =
      (case queue_run log_enq log_deq q1 ops of (a, d, q2) \<Rightarrow> (replicate 128 ?m @ a, d, q2))"
    "log_ok q1" "log_items q1 = replicate 128 (log_clip ?m)"
    using log_enqs [OF log_queue0_ok(1), of 128 ?m] log_queue0_ok(2) by auto
  have clip: "log_clip ?m = ?m" "log_clip ?m2 = ?m2" by (simp_all add: log_clip_def LOG_MESSAGE_SIZE_def)
  have full: "log_enq q1 ?m = (False, q1)" using logs.enq_full [OF q1(2), of ?m] q1(3) by simp
  have "(128 :: nat) = Suc 127" by simp
  then have "log_items q1 = ?m # replicate 127 ?m" unfolding q1(3) clip(1) by (simp only: replicate_Suc)
  from logs.deq_some [OF q1(2) this] obtain q2 where q2: "log_deq q1 = (Some ?m, q2)" "log_ok q2"
    "log_items q2 = replicate 127 ?m" by auto
  obtain q3 where q3: "log_enq q2 ?m2 = (True, q3)" "log_items q3 = replicate 127 ?m @ [?m2]"
    using logs.enq_room [OF q2(2), of ?m2] q2(3) clip(2) by auto
  have run: "queue_run log_enq log_deq log_queue0 log_flood = (replicate 128 ?m @ [?m2], [?m], q3)"
    by (simp add: log_flood_def q1(1) full q2(1) q3(1))
  from log_queue_fifo [OF run] have "\<not> fst (log_enq q3 (INFO, [67]))" "snd (log_enq q3 (INFO, [67])) = q3"
    by (simp_all add: q3(2))
  with run q3(2) show ?thesis by blast
qed

lemma logger_drain_all:
  assumes "log_ok q" and "length (le_message l) = LOG_MESSAGE_SIZE" and "log_size q \<le> n"
  shows "\<exists>q'. logger_drain n q l = (concat (map snd (log_items q)), q') \<and> log_items q' = []"
  using assms
proof (induction n arbitrary: q l)
  case 0
  then have "log_items q = []" by (metis le_zero_eq length_0_conv length_log_items)
  then show ?case by simp
next
  case (Suc n)
  show ?case
  proof (cases "log_items q")
    case Nil
    moreover from this have "lq_tail q - lq_head q = 0" by (metis length_log_items list.size(3) log_size_def unat_eq_zero)
    ultimately show ?thesis by (simp add: dequeue_log_def)
  next
    case (Cons v vs)
    from dequeue_log_some [OF Suc.prems(1) Cons Suc.prems(2)] obtain q' l' where
      d: "dequeue_log q l = Some (True, q', l')" "log_value l' = v" "entry_ok l'" "log_ok q'" "log_items q' = vs"
      by blast
    have "log_size q = Suc (length vs)" "log_size q' = length vs"
      using Cons d(5) length_log_items [of q] length_log_items [of q'] by simp_all
    then have "log_size q' \<le> n" using Suc.prems(3) by simp
    with Suc.IH [OF d(4), of l'] d(3) obtain q'' where
      "logger_drain n q' l' = (concat (map snd (log_items q')), q'')" "log_items q'' = []"
      by (auto simp: entry_ok_def)
    with d Cons show ?thesis by (auto simp: log_value_def)
  qed
qed

text \<open>
  Shutdown writes out everything. The final loop of the logger thread empties the queue: with
  at least as many rounds as there are entries it writes the texts of all of them in order.
\<close>

theorem logger_drain_complete:
  assumes "log_ok q" and "length (le_message l) = LOG_MESSAGE_SIZE" and "log_size q \<le> n"
  shows "\<exists>q'. logger_drain n q l = (concat (map snd (log_items q)), q') \<and> log_items q' = []"
  using logger_drain_all [OF assms] .

lemma logger_drain_complete_witness:
  "\<exists>q q'. enqueue_log log_queue0 log_entry0 = (True, q) \<and> logger_drain 1 q log_entry0 = ([], q')
    \<and> log_items q' = []"
proof -
  have l: "entry_ok log_entry0" by (simp add: entry_ok_def log_entry0_def LOG_MESSAGE_SIZE_def)
  have "log_size log_queue0 = 0" using log_queue0_ok(2) by (metis length_log_items list.size(3))
  with enqueue_log_room [OF log_queue0_ok(1) _ l] log_queue0_ok(2) obtain q where
    q: "enqueue_log log_queue0 log_entry0 = (True, q)" "log_ok q" "log_items q = [log_value log_entry0]" by auto
  have "log_size q = 1" using q(3) by (metis One_nat_def length_log_items length_Cons list.size(3))
  with logger_drain_complete [OF q(2), of log_entry0 1] l q
  show ?thesis by (auto simp: entry_ok_def log_value_def log_entry0_def)
qed

end
