(* ===== verification/Url_Path.thy ===== *)
theory Url_Path
  imports Tiny_Prelude
begin

text \<open>
  From the path of a request to the relative file name that is opened, \<^verbatim>\<open>src/static.c\<close>:
  \<open>percent_decode\<close>, \<open>normalize_path\<close>, \<open>mime_from_path\<close>. A result length of 0 is the rejection of
  the C functions; it is the empty list here. The final zero byte is left out of the lists.
\<close>

record static_policy =
  allow_dotfiles :: bool
  allow_symlinks :: bool

text \<open>The size of the two path buffers.\<close>

definition STATIC_PATH_MAX :: nat where "STATIC_PATH_MAX = 4096"

section \<open>Percent decoding\<close>

definition hex_val :: "byte \<Rightarrow> int" where
  "hex_val c =
     (if 48 \<le> c \<and> c \<le> 57 then uint c - 48
      else if 65 \<le> c \<and> c \<le> 70 then uint c - 65 + 10
      else if 97 \<le> c \<and> c \<le> 102 then uint c - 97 + 10
      else - 1)"

text \<open>
  One character: the byte and the index of its last byte. The index is a \<open>uint16_t\<close> and the end of
  a \<open>%XX\<close> is tested on the sum cast to 16 bits, so both wrap around; \<open>inp\<close> is the memory from
  \<open>in\<close> on.
\<close>

definition percent_char :: "byte list \<Rightarrow> u16 \<Rightarrow> u16 \<Rightarrow> (byte \<times> u16) option" where
  "percent_char inp in_len i =
     (let c = inp ! unat i in
      if c = 37 then
        if i + 2 \<ge> in_len then None
        else
          let hi = hex_val (inp ! (unat i + 1)); lo = hex_val (inp ! (unat i + 2)) in
          if hi < 0 \<or> lo < 0 then None
          else let c = word_of_int (push_bit 4 hi OR lo) in
            if c = 47 \<or> c = 92 then None else Some (c, i + 2)
      else Some (c, i))"

function percent_decode_loop ::
  "byte list \<Rightarrow> u16 \<Rightarrow> nat \<Rightarrow> u16 \<Rightarrow> byte list \<Rightarrow> byte list option" where
  "percent_decode_loop inp in_len out_cap i out =
     (if i < in_len then
        (case percent_char inp in_len i of
           None \<Rightarrow> None
         | Some (c, i) \<Rightarrow>
             if c < 32 \<or> c = 127 then None
             else if length out + 1 \<ge> out_cap then None
             else percent_decode_loop inp in_len out_cap (i + 1) (out @ [c]))
      else if length out \<ge> out_cap then None else Some out)"
  by pat_completeness auto
termination
  by (relation "measure (\<lambda>(_, _, cap, _, out). cap - length out)") auto

declare percent_decode_loop.simps [simp del, evals]
declare hex_val_def [evals] percent_char_def [evals]

definition percent_decode :: "byte list \<Rightarrow> u16 \<Rightarrow> nat \<Rightarrow> byte list" where
  "percent_decode inp in_len out_cap =
     (case percent_decode_loop inp in_len out_cap 0 [] of None \<Rightarrow> [] | Some out \<Rightarrow> out)"

text \<open>The reference: decoding by structure, with the bytes the server refuses.\<close>

definition clean :: "byte \<Rightarrow> bool" where
  "clean c = (32 \<le> c \<and> c \<noteq> 127)"

fun pct_decode :: "byte list \<Rightarrow> byte list option" where
  "pct_decode [] = Some []"
| "pct_decode (c # cs) =
     (if c = 37 then
        (case cs of
           h # l # ds \<Rightarrow>
             let x = word_of_int (push_bit 4 (hex_val h) OR hex_val l) in
             if hex_val h < 0 \<or> hex_val l < 0 \<or> x = 47 \<or> x = 92 \<or> \<not> clean x then None
             else map_option ((#) x) (pct_decode ds)
         | _ \<Rightarrow> None)
      else if clean c then map_option ((#) c) (pct_decode cs) else None)"

lemma pct_decode_escape:
  "pct_decode (37 # h # l # ds) =
     (let x = word_of_int (push_bit 4 (hex_val h) OR hex_val l) in
      if hex_val h < 0 \<or> hex_val l < 0 \<or> x = 47 \<or> x = 92 \<or> \<not> clean x then None
      else map_option ((#) x) (pct_decode ds))"
  by simp

lemma pct_decode_short: "length cs < 2 \<Longrightarrow> pct_decode (37 # cs) = None"
  by (cases cs rule: list.exhaust [where ?'a = byte, case_product list.exhaust]) (auto split: list.split)

declare pct_decode.simps(2) [simp del]

lemma pct_decode_plain: "c \<noteq> 37 \<Longrightarrow>
    pct_decode (c # cs) = (if clean c then map_option ((#) c) (pct_decode cs) else None)"
  by (simp add: pct_decode.simps)

text \<open>What the loop returns, from what is left to decode.\<close>

definition decode_from :: "nat \<Rightarrow> byte list \<Rightarrow> byte list option \<Rightarrow> byte list option" where
  "decode_from cap out d =
     (case d of None \<Rightarrow> None | Some ds \<Rightarrow> if length out + length ds < cap then Some (out @ ds) else None)"

lemma decode_from_Cons:
  "decode_from cap out (map_option ((#) c) d) =
     (if length out + 1 \<ge> cap then None else decode_from cap (out @ [c]) d)"
  by (auto simp: decode_from_def split: option.splits)

lemma percent_decode_loop_eq:
  assumes n: "unat n < 65535" and len: "unat n \<le> length inp"
  shows "percent_decode_loop inp n cap i out = decode_from cap out (pct_decode (drop (unat i) (take (unat n) inp)))"
  using assms
proof (induction inp n cap i out rule: percent_decode_loop.induct)
  case (1 inp n cap i out)
  let ?b = "take (unat n) inp" and ?c = "inp ! unat i"
  show ?case
  proof (cases "i < n")
    case False
    then have "drop (unat i) ?b = []" by (simp add: word_less_nat_alt)
    with False show ?thesis by (subst percent_decode_loop.simps) (simp add: decode_from_def)
  next
    case True
    then have lt: "unat i < unat n" by (simp add: word_less_nat_alt)
    have at: "drop k ?b = inp ! k # drop (Suc k) ?b" if "k < unat n" for k
      using that 1(3) by (simp add: Cons_nth_drop_Suc [symmetric])
    have step: "unat (i + 1) = Suc (unat i)" using lt 1(2) by (simp add: unat_word_ariths)
    have two: "unat (i + 2) = unat i + 2" if "unat i + 2 < 65536" using that by (simp add: unat_word_ariths)
    have wrap: "i + 2 \<ge> n \<longleftrightarrow> unat n \<le> unat i + 2" using lt 1(2) two by (cases "unat i + 2 < 65536") (auto simp: word_le_nat_alt)
    show ?thesis
    proof (cases "?c = 37")
      case False
      then have char: "percent_char inp n i = Some (?c, i)" by (simp add: percent_char_def)
      show ?thesis
        using True False char at [OF lt] 1(1) [OF True char refl] 1(2,3) step
        by (subst percent_decode_loop.simps)
          (auto simp: pct_decode_plain clean_def decode_from_Cons not_le, simp_all add: decode_from_def)
    next
      case pct: True
      show ?thesis
      proof (cases "unat n \<le> unat i + 2")
        case True
        then have "pct_decode (37 # drop (Suc (unat i)) ?b) = None"
          by (intro pct_decode_short) (use 1(3) in simp)
        moreover have "percent_char inp n i = None" using pct True wrap by (simp add: percent_char_def)
        ultimately show ?thesis
          using at [OF lt] pct \<open>i < n\<close>
          by (subst percent_decode_loop.simps) (simp add: decode_from_def)
      next
        case False
        let ?h = "inp ! (unat i + 1)" and ?l = "inp ! (unat i + 2)"
        let ?x = "word_of_int (push_bit 4 (hex_val ?h) OR hex_val ?l) :: byte"
        have rest: "drop (unat i) ?b = 37 # ?h # ?l # drop (unat i + 3) ?b"
          using at [of "unat i"] at [of "unat i + 1"] at [of "unat i + 2"] False lt pct by (simp add: eval_nat_numeral)
        have step: "unat (i + 2 + 1) = unat i + 3" using False 1(2) by (simp add: unat_word_ariths)
        show ?thesis
        proof (cases "hex_val ?h < 0 \<or> hex_val ?l < 0 \<or> ?x = 47 \<or> ?x = 92")
          case True
          then have "percent_char inp n i = None" using pct by (auto simp: percent_char_def Let_def)
          with True rest \<open>i < n\<close> show ?thesis
            by (subst percent_decode_loop.simps) (auto simp: pct_decode_escape decode_from_def Let_def)
        next
          case ok: False
          then have char: "percent_char inp n i = Some (?x, i + 2)"
            using pct False wrap by (auto simp: percent_char_def Let_def)
          show ?thesis
            using \<open>i < n\<close> char ok rest 1(1) [OF \<open>i < n\<close> char refl] 1(2,3) step
            by (subst percent_decode_loop.simps)
              (auto simp: pct_decode_escape Let_def clean_def decode_from_Cons not_le, simp_all add: decode_from_def)
        qed
      qed
    qed
  qed
qed

text \<open>
  C13. Percent decoding is the reference decoding. For every input the server can hold, the 16-bit
  loop returns exactly what decoding by structure returns: an incomplete or invalid escape, an
  escaped slash or backslash and every control byte, escaped or not, are refused, an escape never
  reads past the input, and so is an output that does not leave room for the final zero byte.
\<close>

theorem percent_decode_reference:
  assumes "unat n < 65535" and "unat n \<le> length inp"
  shows "percent_decode inp n cap =
    (case pct_decode (take (unat n) inp) of None \<Rightarrow> [] | Some ds \<Rightarrow> if length ds < cap then ds else [])"
  using percent_decode_loop_eq [OF assms, of cap 0 "[]"]
  by (simp add: percent_decode_def decode_from_def split: option.split)

lemma percent_decode_reference_witness:
  "percent_decode [47, 37, 50, 69, 97] 5 8 = [47, 46, 97] \<and> percent_decode [47, 37, 50, 70] 4 8 = []"
  using percent_decode_reference [of 5 "[47, 37, 50, 69, 97]" 8] percent_decode_reference [of 4 "[47, 37, 50, 70]" 8]
  by (simp add: pct_decode_escape pct_decode_plain hex_val_def clean_def Let_def)

text \<open>The bytes that come out.\<close>

lemma pct_decode_clean: "pct_decode xs = Some ds \<Longrightarrow> list_all clean ds"
proof (induction xs arbitrary: ds rule: pct_decode.induct)
  case (2 c cs)
  then show ?case
    by (auto simp: pct_decode.simps Let_def clean_def split: if_splits list.splits)
qed simp

lemma percent_decode_clean:
  "unat n < 65535 \<Longrightarrow> unat n \<le> length inp \<Longrightarrow> list_all clean (percent_decode inp n cap)"
  using percent_decode_loop_eq [of n inp cap 0 "[]"]
  by (auto simp: percent_decode_def decode_from_def pct_decode_clean split: option.splits)

text \<open>Encoding, as a client does it, with both separators left as they are.\<close>

definition hex_digit :: "nat \<Rightarrow> byte" where
  "hex_digit d = (if d < 10 then word_of_nat (d + 48) else word_of_nat (d + 55))"

definition pct_encode :: "byte list \<Rightarrow> byte list" where
  "pct_encode s = concat (map (\<lambda>c. if c = 47 \<or> c = 92 then [c]
     else [37, hex_digit (unat c div 16), hex_digit (unat c mod 16)]) s)"

lemma hex_val_hex_digit: "d < 16 \<Longrightarrow> hex_val (hex_digit d) = int d"
proof -
  assume "d < 16"
  then have "d \<in> {0..<16}" by simp
  moreover have "\<forall>d \<in> {0..<16}. hex_val (hex_digit d) = int d"
    by (simp add: atLeast0LessThan lessThan_nat_numeral lessThan_Suc hex_val_def hex_digit_def)
  ultimately show ?thesis by blast
qed

lemma hex_pair:
  assumes "b < 16"
  shows "push_bit 4 (int a) OR int b = int (16 * a + b)"
proof -
  have "take_bit 4 (int b) = int b" using assms by (simp add: take_bit_int_eq_self)
  then have "n < 4" if "bit (int b) n" for n using that bit_take_bit_iff [of 4 "int b" n] by simp
  then have "push_bit 4 (int a) OR int b = push_bit 4 (int a) + int b"
    by (intro disjunctive_add [symmetric]) (force simp: bit_push_bit_iff)
  then show ?thesis by (simp add: push_bit_eq_mult)
qed

lemma hex_pair_byte:
  "word_of_int (push_bit 4 (hex_val (hex_digit (unat c div 16))) OR hex_val (hex_digit (unat c mod 16))) = (c :: byte)"
proof -
  have "unat c div 16 < 16" using unsigned_less [of c, where ?'a = nat] by simp
  then have "push_bit 4 (hex_val (hex_digit (unat c div 16))) OR hex_val (hex_digit (unat c mod 16)) = int (unat c)"
    using hex_pair [of "unat c mod 16" "unat c div 16"] by (simp add: hex_val_hex_digit)
  then show ?thesis by (simp only: of_int_of_nat_eq unat_of_nat) simp
qed

lemma pct_decode_encode: "list_all clean s \<Longrightarrow> pct_decode (pct_encode s) = Some s"
proof (induction s)
  case Nil
  then show ?case by (simp add: pct_encode_def)
next
  case (Cons c s)
  have digits: "\<not> hex_val (hex_digit (unat c div 16)) < 0" "\<not> hex_val (hex_digit (unat c mod 16)) < 0"
    using unsigned_less [of c, where ?'a = nat] by (simp_all add: hex_val_hex_digit)
  show ?case
  proof (cases "c = 47 \<or> c = 92")
    case True
    then have "pct_encode (c # s) = c # pct_encode s" "c \<noteq> 37" by (auto simp: pct_encode_def)
    with Cons show ?thesis by (simp add: pct_decode_plain)
  next
    case False
    then have "pct_encode (c # s) =
        37 # hex_digit (unat c div 16) # hex_digit (unat c mod 16) # pct_encode s"
      by (simp add: pct_encode_def)
    with Cons False digits show ?thesis by (simp add: pct_decode_escape Let_def hex_pair_byte)
  qed
qed

text \<open>
  C14. Percent encoding survives the trip: whatever clean byte string a client encodes, decoding
  the encoded text gives the string back.
\<close>

theorem percent_decode_encode:
  assumes "list_all clean s" and "length (pct_encode s) < 65535" and "length s < cap"
  shows "percent_decode (pct_encode s) (word_of_nat (length (pct_encode s))) cap = s"
proof -
  let ?e = "pct_encode s"
  have "unat (word_of_nat (length ?e) :: u16) = length ?e" using assms(2) by (simp add: unat_of_nat_16)
  then show ?thesis
    using percent_decode_loop_eq [of "word_of_nat (length ?e)" ?e cap 0 "[]"] assms
    by (simp add: percent_decode_def pct_decode_encode decode_from_def)
qed

lemma percent_decode_encode_witness:
  "percent_decode (pct_encode [47, 97, 37]) (word_of_nat (length (pct_encode [47, 97, 37]))) 8 = [47, 97, 37]"
  by (rule percent_decode_encode) (simp_all add: clean_def pct_encode_def)

section \<open>Normalizing\<close>

text \<open>
  The segment loop of \<open>normalize_path\<close> on the rest of the input: the run of slashes is skipped, a
  segment ends at the next slash, and is refused when it holds a backslash or a zero byte.
\<close>

function normalize_loop :: "static_policy \<Rightarrow> nat \<Rightarrow> byte list \<Rightarrow> byte list \<Rightarrow> byte list option" where
  "normalize_loop pol out_cap inp out =
     (let p = dropWhile (\<lambda>c. c = 47) inp in
      if p = [] then Some out
      else
        let seg = takeWhile (\<lambda>c. c \<noteq> 47) p in
        if 92 \<in> set seg \<or> 0 \<in> set seg then None
        else if seg = [46] then None
        else if seg = [46, 46] then None
        else if hd seg = 46 \<and> \<not> allow_dotfiles pol then None
        else if out \<noteq> [] \<and> length out + 1 \<ge> out_cap then None
        else
          let out = (if out \<noteq> [] then out @ [47] else out) in
          if length out + length seg \<ge> out_cap then None
          else normalize_loop pol out_cap (dropWhile (\<lambda>c. c \<noteq> 47) p) (out @ seg))"
  by pat_completeness auto
termination
proof (relation "measure (\<lambda>(_, _, inp, _). length inp)")
  fix inp p :: "byte list"
  assume p: "p = dropWhile (\<lambda>c. c = 47) inp" "p \<noteq> []"
  then have "hd p \<noteq> 47" using hd_dropWhile [of "\<lambda>c. c = 47" inp] by simp
  then have "length (dropWhile (\<lambda>c. c \<noteq> 47) p) < length p"
    using p(2) length_dropWhile_le [of "\<lambda>c. c \<noteq> 47" "tl p"] by (cases p) auto
  also have "length p \<le> length inp" using p(1) by (simp add: length_dropWhile_le)
  finally show "((pol, cap, dropWhile (\<lambda>c. c \<noteq> 47) p, out'), pol, cap, inp, out)
      \<in> measure (\<lambda>(_, _, inp, _). length inp)" for pol cap out out' by simp
qed simp

declare normalize_loop.simps [simp del, evals]

definition normalize_path :: "static_policy \<Rightarrow> byte list \<Rightarrow> nat \<Rightarrow> byte list" where
  "normalize_path pol inp out_cap =
     (if inp = [] \<or> hd inp \<noteq> 47 then []
      else case normalize_loop pol out_cap (tl inp) [] of
          None \<Rightarrow> []
        | Some out \<Rightarrow>
            if out = [] \<or> last inp = 47 then
              let idx = (if out = [] then bytes ''index.html'' else bytes ''/index.html'') in
              if length out + length idx \<ge> out_cap then []
              else if length (out @ idx) \<ge> out_cap then [] else out @ idx
            else if length out \<ge> out_cap then [] else out)"

text \<open>The reference: the non-empty segments, each of them allowed, put together again.\<close>

function path_segments :: "byte list \<Rightarrow> byte list list" where
  "path_segments xs =
     (let p = dropWhile (\<lambda>c. c = 47) xs in
      if p = [] then [] else takeWhile (\<lambda>c. c \<noteq> 47) p # path_segments (dropWhile (\<lambda>c. c \<noteq> 47) p))"
  by pat_completeness auto
termination
proof (relation "measure length")
  fix inp p :: "byte list"
  assume p: "p = dropWhile (\<lambda>c. c = 47) inp" "p \<noteq> []"
  then have "hd p \<noteq> 47" using hd_dropWhile [of "\<lambda>c. c = 47" inp] by simp
  then have "length (dropWhile (\<lambda>c. c \<noteq> 47) p) < length p"
    using p(2) length_dropWhile_le [of "\<lambda>c. c \<noteq> 47" "tl p"] by (cases p) auto
  also have "length p \<le> length inp" using p(1) by (simp add: length_dropWhile_le)
  finally show "(dropWhile (\<lambda>c. c \<noteq> 47) p, inp) \<in> measure length" by simp
qed simp

declare path_segments.simps [simp del]

definition segment_ok :: "static_policy \<Rightarrow> byte list \<Rightarrow> bool" where
  "segment_ok pol seg = (seg \<noteq> [] \<and> 47 \<notin> set seg \<and> 92 \<notin> set seg \<and> 0 \<notin> set seg \<and> seg \<noteq> [46] \<and> seg \<noteq> [46, 46]
     \<and> (hd seg = 46 \<longrightarrow> allow_dotfiles pol))"

fun join_slash :: "byte list list \<Rightarrow> byte list" where
  "join_slash [] = []"
| "join_slash [s] = s"
| "join_slash (s # ss) = s @ 47 # join_slash ss"

definition normalize_ref :: "static_policy \<Rightarrow> byte list \<Rightarrow> byte list list option" where
  "normalize_ref pol inp =
     (if inp = [] \<or> hd inp \<noteq> 47 \<or> \<not> list_all (segment_ok pol) (path_segments inp) then None
      else Some (path_segments inp @ (if last inp = 47 then [bytes ''index.html''] else [])))"

lemma join_slash_snoc: "join_slash (ss @ [s]) = (if ss = [] then s else join_slash ss @ 47 # s)"
  by (induction ss rule: join_slash.induct) auto

lemma join_slash_Nil_iff: "list_all (\<lambda>s. s \<noteq> []) ss \<Longrightarrow> join_slash ss = [] \<longleftrightarrow> ss = []"
  by (induction ss rule: join_slash.induct) auto

lemma length_join_slash_append: "length (join_slash ss) \<le> length (join_slash (ss @ ts))"
proof (induction ts rule: rev_induct)
  case (snoc t ts)
  then show ?case using join_slash_snoc [of "ss @ ts" t] by (auto simp del: append_assoc simp: append_assoc [symmetric])
qed simp

lemma path_segments_Nil [simp]: "path_segments [] = []"
  by (subst path_segments.simps) simp

lemma path_segments_unfold:
  "dropWhile (\<lambda>c. c = 47) xs \<noteq> [] \<Longrightarrow> path_segments xs = takeWhile (\<lambda>c. c \<noteq> 47) (dropWhile (\<lambda>c. c = 47) xs)
     # path_segments (dropWhile (\<lambda>c. c \<noteq> 47) (dropWhile (\<lambda>c. c = 47) xs))"
  by (subst path_segments.simps) (simp add: Let_def)

lemma path_segments_facts: "s \<in> set (path_segments xs) \<Longrightarrow> s \<noteq> [] \<and> 47 \<notin> set s"
proof (induction xs rule: path_segments.induct)
  case (1 xs)
  let ?p = "dropWhile (\<lambda>c. c = 47) xs"
  show ?case
  proof (cases "?p = []")
    case True
    with 1(2) show ?thesis by (simp add: path_segments.simps [of xs])
  next
    case False
    moreover from this have "hd ?p \<noteq> 47" using hd_dropWhile by blast
    ultimately have "takeWhile (\<lambda>c. c \<noteq> 47) ?p \<noteq> []" by (cases ?p) auto
    moreover have "47 \<notin> set (takeWhile (\<lambda>c. c \<noteq> 47) ?p)" by (auto dest: set_takeWhileD)
    moreover have "path_segments xs =
        takeWhile (\<lambda>c. c \<noteq> 47) ?p # path_segments (dropWhile (\<lambda>c. c \<noteq> 47) ?p)"
      using False by (subst path_segments.simps) (simp add: Let_def)
    ultimately show ?thesis using 1(1) [OF refl False] 1(2) by (metis set_ConsD)
  qed
qed

lemma normalize_loop_eq:
  assumes "list_all (\<lambda>s. s \<noteq> []) ss"
  shows "normalize_loop pol cap inp (join_slash ss) =
    (if list_all (segment_ok pol) (path_segments inp)
        \<and> (path_segments inp = [] \<or> length (join_slash (ss @ path_segments inp)) < cap)
     then Some (join_slash (ss @ path_segments inp)) else None)"
  using assms
proof (induction inp arbitrary: ss rule: path_segments.induct)
  case (1 inp)
  let ?p = "dropWhile (\<lambda>c. c = 47) inp" and ?out = "join_slash ss"
  let ?seg = "takeWhile (\<lambda>c. c \<noteq> 47) ?p" and ?rest = "dropWhile (\<lambda>c. c \<noteq> 47) ?p"
  show ?case
  proof (cases "?p = []")
    case True
    then show ?thesis by (subst normalize_loop.simps) (simp add: path_segments.simps [of inp])
  next
    case False
    then have segs: "path_segments inp = ?seg # path_segments ?rest"
      by (subst path_segments.simps) (simp add: Let_def)
    then have seg: "?seg \<noteq> []" "47 \<notin> set ?seg" using path_segments_facts [of ?seg inp] by auto
    have hd: "hd ?seg = hd ?p" using seg(1) False by (cases ?p) auto
    have nil: "?out = [] \<longleftrightarrow> ss = []" using 1(2) by (rule join_slash_Nil_iff)
    have join: "join_slash (ss @ [?seg]) = (if ?out \<noteq> [] then ?out @ [47] else ?out) @ ?seg"
      using nil by (auto simp: join_slash_snoc)
    have fits: "length (join_slash (ss @ [?seg])) < cap" if "length (join_slash (ss @ path_segments inp)) < cap"
      using length_join_slash_append [of "ss @ [?seg]" "path_segments ?rest"] that segs by simp
    show ?thesis
    proof (cases "segment_ok pol ?seg \<and> length (join_slash (ss @ [?seg])) < cap")
      case ok: True
      have IH: "normalize_loop pol cap ?rest (join_slash (ss @ [?seg])) =
        (if list_all (segment_ok pol) (path_segments ?rest)
            \<and> (path_segments ?rest = [] \<or> length (join_slash ((ss @ [?seg]) @ path_segments ?rest)) < cap)
         then Some (join_slash ((ss @ [?seg]) @ path_segments ?rest)) else None)"
        by (rule 1(1) [OF refl False]) (use 1(2) seg in simp)
      have "normalize_loop pol cap inp ?out = normalize_loop pol cap ?rest (join_slash (ss @ [?seg]))"
        using False ok nil hd unfolding join
        by (subst normalize_loop.simps) (auto simp: Let_def segment_ok_def)
      with IH ok show ?thesis by (auto simp: segs)
    next
      case bad: False
      then have "normalize_loop pol cap inp ?out = None"
        using False nil hd seg unfolding join
        by (subst normalize_loop.simps) (auto simp: Let_def segment_ok_def split: if_splits)
      with bad fits show ?thesis by (auto simp: segs)
    qed
  qed
qed

lemma index_html_ok: "segment_ok pol (bytes ''index.html'')"
  by (simp add: segment_ok_def bytes_def)

lemma path_segments_all_slash: "path_segments xs = [] \<Longrightarrow> xs \<noteq> [] \<Longrightarrow> last xs = 47"
proof -
  assume "path_segments xs = []" "xs \<noteq> []"
  then have "dropWhile (\<lambda>c. c = 47) xs = []" by (subst (asm) path_segments.simps) (auto simp: Let_def split: if_splits)
  then show ?thesis using \<open>xs \<noteq> []\<close> by (simp add: dropWhile_eq_Nil_conv)
qed

lemma path_segments_slash: "path_segments (47 # xs) = path_segments xs"
  by (subst (1 2) path_segments.simps) simp

lemma normalize_path_eq:
  "normalize_path pol inp cap =
     (case normalize_ref pol inp of None \<Rightarrow> []
      | Some segs \<Rightarrow> if length (join_slash segs) < cap then join_slash segs else [])"
proof (cases "inp = [] \<or> hd inp \<noteq> 47")
  case True
  then show ?thesis by (auto simp: normalize_path_def normalize_ref_def)
next
  case False
  then obtain xs where inp: "inp = 47 # xs" by (cases inp) auto
  let ?segs = "path_segments inp"
  have segs: "path_segments xs = ?segs" by (simp add: inp path_segments_slash)
  have nonempty: "list_all (\<lambda>s. s \<noteq> []) ?segs" using path_segments_facts by (auto simp: list_all_iff)
  have loop: "normalize_loop pol cap xs [] =
     (if list_all (segment_ok pol) ?segs \<and> (?segs = [] \<or> length (join_slash ?segs) < cap)
      then Some (join_slash ?segs) else None)"
    using normalize_loop_eq [of "[]" pol cap xs] segs by simp
  have last: "last inp = 47" if "?segs = []" using path_segments_all_slash [OF that] inp by simp
  have idx: "join_slash (?segs @ [bytes ''index.html'']) =
      join_slash ?segs @ (if ?segs = [] then bytes ''index.html'' else bytes ''/index.html'')"
    by (auto simp: join_slash_snoc bytes_def)
  note nil = join_slash_Nil_iff [OF nonempty]
  show ?thesis
    unfolding normalize_path_def normalize_ref_def
    using False loop last idx nil by (auto simp: inp Let_def)
qed

text \<open>
  C15. Normalization is segment-wise. The buffer loop of \<open>normalize_path\<close> computes exactly the reference:
  split at slashes, drop empty segments, refuse the whole path when one segment is not allowed,
  join again, add \<open>index.html\<close> after a trailing slash, and refuse when the result and its final
  zero byte do not fit the buffer.
\<close>

theorem normalize_path_reference:
  "normalize_path pol inp cap =
     (case normalize_ref pol inp of None \<Rightarrow> []
      | Some segs \<Rightarrow> if length (join_slash segs) < cap then join_slash segs else [])"
  by (rule normalize_path_eq)

lemma hd_no_slash: "s \<noteq> [] \<Longrightarrow> 47 \<notin> set s \<Longrightarrow> hd s \<noteq> 47" for s :: "byte list"
  by (metis hd_in_set)

lemma path_segments_bytes: "s \<in> set (path_segments xs) \<Longrightarrow> set s \<subseteq> set xs"
proof (induction xs rule: path_segments.induct)
  case (1 xs)
  let ?p = "dropWhile (\<lambda>c. c = 47) xs"
  have sub: "set (takeWhile (\<lambda>c. c \<noteq> 47) ?p) \<subseteq> set xs" "set (dropWhile (\<lambda>c. c \<noteq> 47) ?p) \<subseteq> set xs"
  proof -
    have tw: "set (takeWhile P ys) \<subseteq> set ys" and dw: "set (dropWhile P ys) \<subseteq> set ys" for P and ys :: "byte list"
      by (blast dest: set_takeWhileD, blast dest: set_dropWhileD)
    show "set (takeWhile (\<lambda>c. c \<noteq> 47) ?p) \<subseteq> set xs" "set (dropWhile (\<lambda>c. c \<noteq> 47) ?p) \<subseteq> set xs"
      by (rule order_trans [OF tw dw], rule order_trans [OF dw dw])
  qed
  show ?case
  proof (cases "?p = []")
    case True
    with 1(2) show ?thesis by (simp add: path_segments.simps [of xs])
  next
    case False
    then have "s = takeWhile (\<lambda>c. c \<noteq> 47) ?p \<or> s \<in> set (path_segments (dropWhile (\<lambda>c. c \<noteq> 47) ?p))"
      using 1(2) path_segments_unfold [of xs] by simp
    then show ?thesis
      using 1(1) [OF refl False] sub by (elim disjE) (simp, blast)
  qed
qed

lemma list_all_join_slash: "P 47 \<Longrightarrow> (\<And>s. s \<in> set ss \<Longrightarrow> list_all P s) \<Longrightarrow> list_all P (join_slash ss)"
  by (induction ss rule: join_slash.induct) auto

lemma path_segments_join:
  assumes "list_all (\<lambda>s. s \<noteq> [] \<and> 47 \<notin> set s) ss"
  shows "path_segments (join_slash ss) = ss"
  using assms
proof (induction ss rule: join_slash.induct)
  case 1
  then show ?case by (simp add: path_segments.simps)
next
  case (2 s)
  have d: "dropWhile (\<lambda>c. c = 47) s = s" "takeWhile (\<lambda>c. c \<noteq> 47) s = s" "dropWhile (\<lambda>c. c \<noteq> 47) s = []"
    using 2 hd_no_slash [of s] by (auto simp: takeWhile_eq_all_conv dropWhile_eq_Nil_conv dropWhile_eq_self_iff)
  have "s \<noteq> []" using 2 by simp
  with path_segments_unfold [of s] have "path_segments s = s # path_segments []" unfolding d by blast
  then show ?case by simp
next
  case (3 s t ss)
  let ?xs = "s @ 47 # join_slash (t # ss)"
  have "dropWhile (\<lambda>c. c = 47) ?xs = ?xs" "takeWhile (\<lambda>c. c \<noteq> 47) ?xs = s"
    "dropWhile (\<lambda>c. c \<noteq> 47) ?xs = 47 # join_slash (t # ss)"
    using 3(2) hd_no_slash [of s]
    by (auto simp: dropWhile_eq_self_iff takeWhile_append dropWhile_append hd_append dest: set_dropWhileD)
  then have "path_segments ?xs = s # path_segments (47 # join_slash (t # ss))"
    using path_segments_unfold [of ?xs] by simp
  with 3 show ?case by (simp add: path_segments_slash)
qed

lemma normalize_path_segments:
  assumes "normalize_path pol inp cap = out" and "out \<noteq> []"
  shows "list_all (segment_ok pol) (path_segments out) \<and> out = join_slash (path_segments out) \<and> length out < cap"
proof -
  obtain segs where "normalize_ref pol inp = Some segs" and segs: "out = join_slash segs" "length out < cap"
    using assms normalize_path_eq [of pol inp cap] by (auto split: option.splits if_splits)
  then have ok: "list_all (segment_ok pol) segs"
    using index_html_ok by (auto simp: normalize_ref_def split: if_splits)
  have "path_segments out = segs"
    unfolding segs(1) by (rule path_segments_join) (use ok in \<open>auto simp: list_all_iff segment_ok_def\<close>)
  with ok segs show ?thesis by simp
qed

lemma normalize_path_clean:
  assumes "normalize_path pol inp cap = out" and "out \<noteq> []" and "list_all clean inp"
  shows "list_all clean out"
proof -
  obtain segs where r: "normalize_ref pol inp = Some segs" and out: "out = join_slash segs"
    using assms(1,2) normalize_path_eq [of pol inp cap] by (auto split: option.splits if_splits)
  have "list_all clean (bytes ''index.html'')" by (simp add: bytes_def clean_def)
  moreover have "set s \<subseteq> set inp \<or> s = bytes ''index.html''" if "s \<in> set segs" for s
    using r that path_segments_bytes [of s inp] by (auto simp: normalize_ref_def split: if_splits)
  ultimately have "list_all clean s" if "s \<in> set segs" for s
    using that assms(3) unfolding list_all_iff by blast
  then show ?thesis unfolding out by (intro list_all_join_slash) (simp_all add: clean_def)
qed

text \<open>
  No path leaves the document root: whatever path a client sends, if decoding and normalizing
  yield a file name at all then it is relative, fits its buffer with the final zero, holds no zero
  byte, and every segment the file system sees in it is a proper name: not empty, not \<open>.\<close> or
  \<open>..\<close>, without a backslash or control byte, and without a leading dot unless the policy allows.
\<close>

theorem served_path_safe:
  assumes "unat n < 65535" and "unat n \<le> length url"
    and "normalize_path pol (percent_decode url n STATIC_PATH_MAX) STATIC_PATH_MAX = rel" and "rel \<noteq> []"
  shows "list_all (segment_ok pol) (path_segments rel) \<and> rel = join_slash (path_segments rel)
    \<and> hd rel \<noteq> 47 \<and> list_all clean rel \<and> length rel < STATIC_PATH_MAX"
proof -
  let ?dec = "percent_decode url n STATIC_PATH_MAX"
  note segs = normalize_path_segments [OF assms(3,4)]
  have "path_segments rel \<noteq> []" using segs assms(4) by auto
  then obtain s ss where ss: "path_segments rel = s # ss" by (cases "path_segments rel") auto
  then have s: "s \<noteq> []" "47 \<notin> set s" using path_segments_facts [of s rel] by auto
  have "hd rel = hd s" using segs ss s(1) by (cases ss) (auto simp: hd_append)
  then have hd: "hd rel \<noteq> 47" using hd_no_slash [OF s] by simp
  have "list_all clean ?dec" using assms(1,2) by (rule percent_decode_clean)
  then have clean: "list_all clean rel" using normalize_path_clean assms(3,4) by blast
  with segs hd show ?thesis by simp
qed

lemma served_path_safe_witness:
  "normalize_path \<lparr>allow_dotfiles = False, allow_symlinks = True\<rparr>
      (percent_decode (bytes ''/a%2Eb/'') 7 STATIC_PATH_MAX) STATIC_PATH_MAX = bytes ''a.b/index.html''
    \<and> list_all (segment_ok \<lparr>allow_dotfiles = False, allow_symlinks = True\<rparr>) (path_segments (bytes ''a.b/index.html''))"
proof -
  let ?pol = "\<lparr>allow_dotfiles = False, allow_symlinks = True\<rparr>"
  have run: "normalize_path ?pol (percent_decode (bytes ''/a%2Eb/'') 7 STATIC_PATH_MAX) STATIC_PATH_MAX
      = bytes ''a.b/index.html''"
    by (simp add: normalize_path_def percent_decode_def STATIC_PATH_MAX_def evals)
  then show ?thesis using served_path_safe [OF _ _ run] by (simp add: bytes_def)
qed

section \<open>Content types\<close>

text \<open>The position after the last dot of the last segment, as the loop of \<open>mime_from_path\<close> finds it.\<close>

fun mime_dot :: "byte list \<Rightarrow> nat \<Rightarrow> nat option \<Rightarrow> nat option" where
  "mime_dot [] i dot = dot"
| "mime_dot (c # cs) i dot = mime_dot cs (i + 1) (if c = 47 then None else if c = 46 then Some i else dot)"

definition ext_lower :: "byte \<Rightarrow> byte" where
  "ext_lower c = (if 65 \<le> c \<and> c \<le> 90 then c + 32 else c)"

definition ext_ieq :: "byte list \<Rightarrow> string \<Rightarrow> bool" where
  "ext_ieq ext lit = (length ext = length lit \<and> map ext_lower ext = bytes lit)"

definition mime_from_path :: "byte list \<Rightarrow> string" where
  "mime_from_path path =
     (case mime_dot path 0 None of
        None \<Rightarrow> ''application/octet-stream''
      | Some d \<Rightarrow>
          if d + 1 \<ge> length path then ''application/octet-stream''
          else let ext = drop (d + 1) path in
            if ext_ieq ext ''html'' then ''text/html; charset=utf-8''
            else if ext_ieq ext ''htm'' then ''text/html; charset=utf-8''
            else if ext_ieq ext ''css'' then ''text/css; charset=utf-8''
            else if ext_ieq ext ''js'' then ''text/javascript; charset=utf-8''
            else if ext_ieq ext ''json'' then ''application/json''
            else if ext_ieq ext ''png'' then ''image/png''
            else if ext_ieq ext ''jpg'' then ''image/jpeg''
            else if ext_ieq ext ''jpeg'' then ''image/jpeg''
            else if ext_ieq ext ''gif'' then ''image/gif''
            else if ext_ieq ext ''svg'' then ''image/svg+xml''
            else if ext_ieq ext ''ico'' then ''image/x-icon''
            else if ext_ieq ext ''txt'' then ''text/plain; charset=utf-8''
            else if ext_ieq ext ''wasm'' then ''application/wasm''
            else ''application/octet-stream'')"

lemma mime_dot_append: "mime_dot (xs @ ys) i dot = mime_dot ys (i + length xs) (mime_dot xs i dot)"
  by (induction xs arbitrary: i dot) auto

lemma mime_dot_plain: "47 \<notin> set xs \<Longrightarrow> 46 \<notin> set xs \<Longrightarrow> mime_dot xs i dot = dot"
  by (induction xs arbitrary: i dot) auto

text \<open>The reference: the extension of the last segment, looked up without case.\<close>

definition path_ext :: "byte list \<Rightarrow> byte list" where
  "path_ext path = (let seg = takeWhile (\<lambda>c. c \<noteq> 47) (rev path)
     in if 46 \<in> set seg then rev (takeWhile (\<lambda>c. c \<noteq> 46) seg) else [])"

definition mime_table :: "(string \<times> string) list" where
  "mime_table = [(''html'', ''text/html; charset=utf-8''), (''htm'', ''text/html; charset=utf-8''),
     (''css'', ''text/css; charset=utf-8''), (''js'', ''text/javascript; charset=utf-8''),
     (''json'', ''application/json''), (''png'', ''image/png''), (''jpg'', ''image/jpeg''),
     (''jpeg'', ''image/jpeg''), (''gif'', ''image/gif''), (''svg'', ''image/svg+xml''),
     (''ico'', ''image/x-icon''), (''txt'', ''text/plain; charset=utf-8''), (''wasm'', ''application/wasm'')]"

lemma mime_dot_path_ext:
  "case mime_dot path 0 None of None \<Rightarrow> path_ext path = []
   | Some d \<Rightarrow> drop (d + 1) path = path_ext path \<and> d < length path"
proof -
  let ?seg = "takeWhile (\<lambda>c. c \<noteq> 47) (rev path)" and ?pre = "rev (dropWhile (\<lambda>c. c \<noteq> 47) (rev path))"
  have path: "path = ?pre @ rev ?seg" by (metis rev_append rev_rev_ident takeWhile_dropWhile_id)
  have seg: "47 \<notin> set ?seg" by (auto dest: set_takeWhileD)
  have pre: "mime_dot ?pre 0 None = None"
  proof (cases "dropWhile (\<lambda>c. c \<noteq> 47) (rev path)")
    case (Cons c cs)
    then have "c = 47" using hd_dropWhile [of "\<lambda>c. c \<noteq> 47" "rev path"] by simp
    with Cons show ?thesis by (simp add: mime_dot_append)
  next
    case Nil
    then show ?thesis by (simp only: rev.simps mime_dot.simps)
  qed
  have dot: "mime_dot path 0 None = mime_dot (rev ?seg) (length ?pre) None"
    by (subst path) (simp only: mime_dot_append pre add_0)
  show ?thesis
  proof (cases "46 \<in> set ?seg")
    case False
    then have "mime_dot path 0 None = None" "path_ext path = []"
      using dot seg by (simp_all add: mime_dot_plain path_ext_def Let_def)
    then show ?thesis by simp
  next
    case True
    then obtain ext stem where split: "?seg = ext @ 46 # stem" "46 \<notin> set ext" by (meson split_list_first)
    then have ext: "path_ext path = rev ext"
      unfolding path_ext_def Let_def split(1) by (simp add: takeWhile_append)
    have "47 \<notin> set ext" using seg unfolding split(1) by simp
    then have d: "mime_dot path 0 None = Some (length ?pre + length stem)"
      unfolding dot split(1) using split(2) by (simp add: mime_dot_append mime_dot_plain)
    have path': "path = (?pre @ rev stem) @ 46 # rev ext" using path unfolding split(1) by simp
    have "drop (length (?pre @ rev stem) + 1) ((?pre @ rev stem) @ 46 # rev ext) = rev ext"
      "length (?pre @ rev stem) < length ((?pre @ rev stem) @ 46 # rev ext)" by simp_all
    then have "drop (length ?pre + length stem + 1) path = rev ext \<and> length ?pre + length stem < length path"
      unfolding path' [symmetric] by simp
    with d ext show ?thesis by simp
  qed
qed

lemma ext_ieq_iff: "ext_ieq ext lit \<longleftrightarrow> map ext_lower ext = bytes lit"
  by (auto simp: ext_ieq_def dest: arg_cong [where f = length])

text \<open>
  The content type depends on the extension only: \<open>mime_from_path\<close> looks up, without regard to
  case, the part after the last dot of the last path segment in a fixed table, and answers
  \<open>application/octet-stream\<close> when there is none or it is empty or unknown. A dot in a directory
  name never decides.
\<close>

theorem mime_from_path_table:
  "mime_from_path path =
     (case find (\<lambda>(ext, _). map ext_lower (path_ext path) = bytes ext) mime_table of
        None \<Rightarrow> ''application/octet-stream'' | Some (_, mime) \<Rightarrow> mime)"
proof (cases "mime_dot path 0 None")
  case None
  then have "path_ext path = []" using mime_dot_path_ext [of path] by simp
  then show ?thesis using None by (simp add: mime_from_path_def mime_table_def bytes_def)
next
  case (Some d)
  then have d: "drop (d + 1) path = path_ext path" "d < length path" using mime_dot_path_ext [of path] by simp_all
  show ?thesis
  proof (cases "d + 1 \<ge> length path")
    case True
    then have "path_ext path = []" using d(1) by simp
    with True Some show ?thesis by (simp add: mime_from_path_def mime_table_def bytes_def)
  next
    case False
    then have "mime_from_path path = (let ext = path_ext path in
            if ext_ieq ext ''html'' then ''text/html; charset=utf-8''
            else if ext_ieq ext ''htm'' then ''text/html; charset=utf-8''
            else if ext_ieq ext ''css'' then ''text/css; charset=utf-8''
            else if ext_ieq ext ''js'' then ''text/javascript; charset=utf-8''
            else if ext_ieq ext ''json'' then ''application/json''
            else if ext_ieq ext ''png'' then ''image/png''
            else if ext_ieq ext ''jpg'' then ''image/jpeg''
            else if ext_ieq ext ''jpeg'' then ''image/jpeg''
            else if ext_ieq ext ''gif'' then ''image/gif''
            else if ext_ieq ext ''svg'' then ''image/svg+xml''
            else if ext_ieq ext ''ico'' then ''image/x-icon''
            else if ext_ieq ext ''txt'' then ''text/plain; charset=utf-8''
            else if ext_ieq ext ''wasm'' then ''application/wasm''
            else ''application/octet-stream'')"
      using Some d(1) unfolding mime_from_path_def by simp
    then show ?thesis by (simp only: Let_def mime_table_def find.simps ext_ieq_iff split_conv if_distrib [of "case_option _ _"] option.case)
  qed
qed

end
