(* ===== verification/Site_Config.thy ===== *)
theory Site_Config
  imports Http_Parser_Facts
begin

text \<open>
  The site configuration of \<^verbatim>\<open>src/routes.c\<close>: the line-oriented file, its tokens, the table of
  routes and the checks on it. The file system and the resolver are parameters: \<open>stat_of\<close> says what
  a path names, \<open>resolve\<close> is \<open>getaddrinfo\<close> and gives the bytes of the first address. A C string is
  the list of its bytes before the zero; the lengths stored beside a string are its length.
\<close>

datatype route_type = ROUTE_NONE | ROUTE_STATIC | ROUTE_PROXY | ROUTE_APP

record tiny_route =
  r_type :: route_type
  r_exact :: bool
  r_primary :: bool
  r_dir_fd :: int
  r_prefix :: "byte list"
  r_target :: "byte list"
  r_upstream :: "byte list"

record tiny_site =
  site_port :: u16
  site_routes :: "tiny_route list"

definition TINY_MAX_ROUTES :: nat where "TINY_MAX_ROUTES = 32"
definition TINY_PREFIX_MAX :: nat where "TINY_PREFIX_MAX = 256"
definition TINY_TARGET_MAX :: nat where "TINY_TARGET_MAX = 512"

text \<open>What \<open>stat\<close> reports; \<open>None\<close> is a failure of the call.\<close>

datatype file_kind = Directory | Regular | Other_File

datatype site_error = Line_Too_Long | Bad_Listen | Listen_Repeated | Unknown_Directive | Bad_Route_Line
  | Too_Many_Routes | Bad_Prefix | Prefix_Too_Long | Target_Too_Long | Bad_Upstream | Missing_Listen
  | Missing_Route | Stat_Failed | File_Prefix_Slash | Not_File_Or_Directory | No_Service | Duplicate_Route
  | Missing_Port | Two_Roots | Open_Failed

section \<open>Tokens\<close>

definition is_blank :: "byte \<Rightarrow> bool" where
  "is_blank c = (c = 32 \<or> c = 9)"

definition is_sep :: "byte \<Rightarrow> bool" where
  "is_sep c = (c = 32 \<or> c = 9 \<or> c = 10 \<or> c = 13 \<or> c = 35)"

text \<open>\<open>next_tok\<close>: the token and what \<open>*pp\<close> points to afterwards; a \<open>#\<close> ends the line.\<close>

definition next_tok :: "byte list \<Rightarrow> (byte list \<times> byte list) option" where
  "next_tok s =
     (let p = dropWhile is_blank s in
      if p = [] \<or> hd p = 35 \<or> hd p = 10 \<or> hd p = 13 then None
      else let tok = takeWhile (\<lambda>c. \<not> is_sep c) p; q = dropWhile (\<lambda>c. \<not> is_sep c) p in
        if q \<noteq> [] \<and> hd q = 35 then Some (tok, [])
        else if q \<noteq> [] then Some (tok, tl q)
        else Some (tok, q))"

text \<open>\<open>copy_token\<close> into a buffer of \<open>cap\<close> bytes.\<close>

definition copy_token :: "nat \<Rightarrow> byte list \<Rightarrow> byte list option" where
  "copy_token cap src = (if length src = 0 \<or> length src \<ge> cap then None else Some src)"

definition prefix_ok :: "byte list \<Rightarrow> bool" where
  "prefix_ok p = (p \<noteq> [] \<and> hd p = 47 \<and> list_all (\<lambda>c. \<not> (c \<le> 32 \<or> c \<ge> 127)) p)"

fun port_loop :: "byte list \<Rightarrow> nat \<Rightarrow> nat option" where
  "port_loop [] v = Some v"
| "port_loop (c # cs) v =
     (if \<not> is_digit c then None
      else let v = v * 10 + unat (c - 48) in if v > 65535 then None else port_loop cs v)"

definition parse_port_token :: "byte list \<Rightarrow> u16 option" where
  "parse_port_token s =
     (if s = [] then None
      else case port_loop s 0 of None \<Rightarrow> None | Some v \<Rightarrow> if v = 0 then None else Some (word_of_nat v))"

text \<open>Host and port of an upstream: \<open>[host]:port\<close>, or split at the last colon.\<close>

definition split_upstream :: "byte list \<Rightarrow> (byte list \<times> byte list) option" where
  "split_upstream s =
     (if s = [] then None
      else if hd s = 91 then
        (case memchr s 0 (length s) 93 of
           None \<Rightarrow> None
         | Some rb \<Rightarrow>
             if rb + 1 \<ge> length s \<or> s ! (rb + 1) \<noteq> 58 \<or> rb = 1 then None
             else if rb - 1 \<ge> 256 \<or> length (drop (rb + 2) s) \<ge> 8 then None
             else Some (bslice s 1 rb, drop (rb + 2) s))
      else
        let tail = takeWhile (\<lambda>c. c \<noteq> 58) (rev s); colon = length s - 1 - length tail in
        if 58 \<notin> set s \<or> colon = 0 \<or> colon + 1 = length s then None
        else if colon \<ge> 256 \<or> length (drop (colon + 1) s) \<ge> 8 then None
        else Some (take colon s, drop (colon + 1) s))"

definition parse_upstream ::
  "(byte list \<Rightarrow> byte list \<Rightarrow> byte list option) \<Rightarrow> byte list \<Rightarrow> byte list option" where
  "parse_upstream resolve s =
     (case split_upstream s of
        None \<Rightarrow> None
      | Some (host, port) \<Rightarrow>
          (case parse_port_token port of
             None \<Rightarrow> None
           | Some _ \<Rightarrow>
               (case resolve host port of
                  None \<Rightarrow> None
                | Some addr \<Rightarrow> if length addr > 128 then None else Some addr)))"

section \<open>The table\<close>

definition tiny_route0 :: tiny_route where
  "tiny_route0 = \<lparr>r_type = ROUTE_NONE, r_exact = False, r_primary = False, r_dir_fd = - 1,
     r_prefix = [], r_target = [], r_upstream = []\<rparr>"

definition add_route ::
  "(byte list \<Rightarrow> byte list \<Rightarrow> byte list option) \<Rightarrow> tiny_site \<Rightarrow> route_type \<Rightarrow> byte list \<Rightarrow> byte list
    \<Rightarrow> site_error + tiny_site" where
  "add_route resolve site ty prefix target =
     (if length (site_routes site) \<ge> TINY_MAX_ROUTES then Inl Too_Many_Routes
      else if \<not> prefix_ok prefix then Inl Bad_Prefix
      else case copy_token TINY_PREFIX_MAX prefix of
          None \<Rightarrow> Inl Prefix_Too_Long
        | Some p \<Rightarrow>
            (case copy_token TINY_TARGET_MAX target of
               None \<Rightarrow> Inl Target_Too_Long
             | Some t \<Rightarrow>
                 let r = tiny_route0\<lparr>r_type := ty, r_prefix := p, r_target := t\<rparr> in
                 if ty = ROUTE_PROXY then
                   (case parse_upstream resolve target of
                      None \<Rightarrow> Inl Bad_Upstream
                    | Some addr \<Rightarrow> Inr (site\<lparr>site_routes := site_routes site @ [r\<lparr>r_upstream := addr\<rparr>]\<rparr>))
                 else Inr (site\<lparr>site_routes := site_routes site @ [r]\<rparr>)))"

text \<open>One line of the file, given up to its zero; the flag is \<open>saw_listen\<close>.\<close>

definition site_line ::
  "(byte list \<Rightarrow> byte list \<Rightarrow> byte list option) \<Rightarrow> tiny_site \<times> bool \<Rightarrow> byte list
    \<Rightarrow> site_error + tiny_site \<times> bool" where
  "site_line resolve st line =
     (let (site, saw_listen) = st in
      if length line = 1023 \<and> last line \<noteq> 10 then Inl Line_Too_Long
      else case next_tok line of
          None \<Rightarrow> Inr st
        | Some (kw, p) \<Rightarrow>
            if kw = bytes ''listen'' then
              (case next_tok p of
                 None \<Rightarrow> Inl Bad_Listen
               | Some (a, p) \<Rightarrow>
                   if next_tok p \<noteq> None then Inl Bad_Listen
                   else (case parse_port_token a of
                           None \<Rightarrow> Inl Bad_Listen
                         | Some port \<Rightarrow>
                             if saw_listen then Inl Listen_Repeated
                             else Inr (site\<lparr>site_port := port\<rparr>, True)))
            else if kw \<noteq> bytes ''static'' \<and> kw \<noteq> bytes ''proxy'' \<and> kw \<noteq> bytes ''app'' then
              Inl Unknown_Directive
            else
              (case next_tok p of
                 None \<Rightarrow> Inl Bad_Route_Line
               | Some (a, p) \<Rightarrow>
                   (case next_tok p of
                      None \<Rightarrow> Inl Bad_Route_Line
                    | Some (b, p) \<Rightarrow>
                        if next_tok p \<noteq> None then Inl Bad_Route_Line
                        else
                          let ty = (if kw = bytes ''proxy'' then ROUTE_PROXY
                                    else if kw = bytes ''app'' then ROUTE_APP else ROUTE_STATIC) in
                          (case add_route resolve site ty a b of
                             Inl e \<Rightarrow> Inl e | Inr site \<Rightarrow> Inr (site, saw_listen)))))"

text \<open>\<open>fgets\<close> into a buffer of 1024 bytes: up to a line feed, at most 1023 bytes.\<close>

definition fgets_line :: "byte list \<Rightarrow> byte list" where
  "fgets_line f = take 1023 (takeWhile (\<lambda>c. c \<noteq> 10) f @ take 1 (dropWhile (\<lambda>c. c \<noteq> 10) f))"

lemma fgets_line_progress: "f \<noteq> [] \<Longrightarrow> 0 < length (fgets_line f)"
  by (cases f) (auto simp: fgets_line_def)

function site_lines ::
  "(byte list \<Rightarrow> byte list \<Rightarrow> byte list option) \<Rightarrow> byte list \<Rightarrow> tiny_site \<times> bool
    \<Rightarrow> site_error + tiny_site \<times> bool" where
  "site_lines resolve f st =
     (if f = [] then Inr st
      else case site_line resolve st (takeWhile (\<lambda>c. c \<noteq> 0) (fgets_line f)) of
          Inl e \<Rightarrow> Inl e
        | Inr st \<Rightarrow> site_lines resolve (drop (length (fgets_line f)) f) st)"
  by pat_completeness auto
termination
  by (relation "measure (\<lambda>(_, f, _). length f)") (auto intro!: diff_less dest: fgets_line_progress)

declare site_lines.simps [simp del]

section \<open>The checks\<close>

text \<open>\<open>ensure_dir_slash\<close>; \<open>None\<close> when the prefix would no longer fit. Prefixes are not empty.\<close>

definition ensure_dir_slash :: "tiny_route \<Rightarrow> tiny_route option" where
  "ensure_dir_slash r =
     (if r_prefix r = [47] then Some r
      else if last (r_prefix r) = 47 then Some r
      else if length (r_prefix r) + 1 \<ge> TINY_PREFIX_MAX then None
      else Some (r\<lparr>r_prefix := r_prefix r @ [47]\<rparr>))"

definition check_route :: "(byte list \<Rightarrow> file_kind option) \<Rightarrow> tiny_route \<Rightarrow> site_error + tiny_route" where
  "check_route stat_of r =
     (if r_type r \<noteq> ROUTE_STATIC then Inr r
      else case stat_of (r_target r) of
          None \<Rightarrow> Inl Stat_Failed
        | Some Directory \<Rightarrow> (case ensure_dir_slash r of None \<Rightarrow> Inl Prefix_Too_Long | Some r' \<Rightarrow> Inr r')
        | Some Regular \<Rightarrow>
            if length (r_prefix r) > 1 \<and> last (r_prefix r) = 47 then Inl File_Prefix_Slash else Inr r
        | Some Other_File \<Rightarrow> Inl Not_File_Or_Directory)"

fun check_routes :: "(byte list \<Rightarrow> file_kind option) \<Rightarrow> tiny_route list \<Rightarrow> site_error + tiny_route list" where
  "check_routes stat_of [] = Inr []"
| "check_routes stat_of (r # rs) =
     (case check_route stat_of r of
        Inl e \<Rightarrow> Inl e
      | Inr r' \<Rightarrow> (case check_routes stat_of rs of Inl e \<Rightarrow> Inl e | Inr rs' \<Rightarrow> Inr (r' # rs')))"

text \<open>The double loop over \<open>same_prefix\<close>.\<close>

fun has_duplicate :: "tiny_route list \<Rightarrow> tiny_route list \<Rightarrow> bool" where
  "has_duplicate seen [] = False"
| "has_duplicate seen (r # rs) =
     (list_ex (\<lambda>q. r_prefix r = r_prefix q) seen \<or> has_duplicate (seen @ [r]) rs)"

definition site_check :: "(byte list \<Rightarrow> file_kind option) \<Rightarrow> tiny_site \<Rightarrow> site_error + tiny_site" where
  "site_check stat_of site =
     (if site_routes site = [] then Inl Missing_Route
      else case check_routes stat_of (site_routes site) of
          Inl e \<Rightarrow> Inl e
        | Inr rs \<Rightarrow>
            if \<not> list_ex (\<lambda>r. r_type r = ROUTE_PROXY \<or> r_type r = ROUTE_STATIC) rs then Inl No_Service
            else if has_duplicate [] rs then Inl Duplicate_Route
            else Inr (site\<lparr>site_routes := rs\<rparr>))"

definition site0 :: tiny_site where
  "site0 = \<lparr>site_port = 0, site_routes = []\<rparr>"

text \<open>\<open>tiny_site_load\<close> on the contents of the file, \<open>None\<close> when it cannot be opened.\<close>

definition tiny_site_load ::
  "(byte list \<Rightarrow> byte list \<Rightarrow> byte list option) \<Rightarrow> (byte list \<Rightarrow> file_kind option) \<Rightarrow> byte list option
    \<Rightarrow> site_error + tiny_site" where
  "tiny_site_load resolve stat_of file =
     (case file of
        None \<Rightarrow> Inl Open_Failed
      | Some f \<Rightarrow>
          (case site_lines resolve f (site0, False) of
             Inl e \<Rightarrow> Inl e
           | Inr (site, saw_listen) \<Rightarrow>
               if \<not> saw_listen then Inl Missing_Listen else site_check stat_of site))"

section \<open>What a loaded site satisfies\<close>

lemma port_loop_eq:
  "v \<le> 65535 \<Longrightarrow> port_loop cs v =
     (if list_all is_digit cs \<and> foldl (\<lambda>v c. v * 10 + (unat c - 48)) v cs \<le> 65535
      then Some (foldl (\<lambda>v c. v * 10 + (unat c - 48)) v cs) else None)"
proof (induction cs arbitrary: v)
  case (Cons c cs)
  have grow: "u \<le> foldl (\<lambda>v c. v * 10 + (unat c - 48)) u cs" for u :: nat and cs :: "byte list"
  proof (induction cs arbitrary: u)
    case (Cons c cs)
    show ?case using le_trans [OF _ Cons.IH [of "u * 10 + (unat c - 48)"], of u] by simp
  qed simp
  have digit: "unat (c - 48) = unat c - 48" if "is_digit c"
    using that by (simp add: is_digit_def unat_sub word_le_nat_alt)
  let ?v = "v * 10 + (unat c - 48)"
  have big: "65535 < ?v \<Longrightarrow> 65535 < foldl (\<lambda>v c. v * 10 + (unat c - 48)) ?v cs"
    using grow [of ?v cs] by simp
  show ?case
    using Cons.IH [of ?v] digit big by (auto simp: Let_def not_le)
qed simp

lemma parse_port_token_iff:
  "parse_port_token s = Some p \<longleftrightarrow>
     s \<noteq> [] \<and> list_all is_digit s \<and> 1 \<le> decimal s \<and> decimal s \<le> 65535 \<and> unat p = decimal s"
proof -
  have "word_of_nat d = p \<longleftrightarrow> unat p = d" if "d \<le> 65535" for d
    using that unat_of_nat_16 [of d] by auto
  then show ?thesis
    using port_loop_eq [of 0 s] by (auto simp: parse_port_token_def decimal_def)
qed

text \<open>
  The port token of \<open>listen\<close> and of an upstream is read exactly: it is accepted when it is a
  string of digits with a value from 1 to 65535, leading zeros included, and the 16-bit port is
  that value; everything else is refused, however long.
\<close>

theorem parse_port_token_exact:
  "parse_port_token s = Some p \<longleftrightarrow>
     s \<noteq> [] \<and> list_all is_digit s \<and> 1 \<le> decimal s \<and> decimal s \<le> 65535 \<and> unat p = decimal s"
  by (rule parse_port_token_iff)

text \<open>A route as \<open>add_route\<close> makes it, and after the checks.\<close>

definition route_ok :: "tiny_route \<Rightarrow> bool" where
  "route_ok r = (prefix_ok (r_prefix r) \<and> length (r_prefix r) < TINY_PREFIX_MAX
     \<and> r_target r \<noteq> [] \<and> length (r_target r) < TINY_TARGET_MAX \<and> r_type r \<noteq> ROUTE_NONE
     \<and> r_dir_fd r = - 1 \<and> \<not> r_exact r \<and> \<not> r_primary r
     \<and> (r_type r = ROUTE_PROXY \<longrightarrow> length (r_upstream r) \<le> 128))"

definition route_checked :: "(byte list \<Rightarrow> file_kind option) \<Rightarrow> tiny_route \<Rightarrow> bool" where
  "route_checked stat_of r = (r_type r = ROUTE_STATIC \<longrightarrow>
     (stat_of (r_target r) = Some Directory \<and> last (r_prefix r) = 47
      \<or> stat_of (r_target r) = Some Regular \<and> (r_prefix r = [47] \<or> last (r_prefix r) \<noteq> 47)))"

lemma add_route_Inr:
  assumes "add_route resolve site ty prefix target = Inr site'" and "ty \<noteq> ROUTE_NONE"
  shows "\<exists>r. site' = site\<lparr>site_routes := site_routes site @ [r]\<rparr> \<and> route_ok r
    \<and> length (site_routes site) < TINY_MAX_ROUTES"
  using assms
  by (auto simp: add_route_def copy_token_def parse_upstream_def route_ok_def tiny_route0_def Let_def
      split: if_splits option.splits)

definition load_inv :: "tiny_site \<times> bool \<Rightarrow> bool" where
  "load_inv st = (list_all route_ok (site_routes (fst st)) \<and> length (site_routes (fst st)) \<le> TINY_MAX_ROUTES
     \<and> (snd st \<longrightarrow> site_port (fst st) \<noteq> 0))"

lemma parse_port_token_nonzero: "parse_port_token s = Some p \<Longrightarrow> p \<noteq> 0"
  unfolding parse_port_token_iff by auto

lemma site_line_inv:
  assumes "site_line resolve st line = Inr st'" and "load_inv st"
  shows "load_inv st'"
proof -
  obtain site saw where st: "st = (site, saw)" by fastforce
  consider "st' = st"
    | port where "st' = (site\<lparr>site_port := port\<rparr>, True)" "port \<noteq> 0"
    | ty a b site' where "st' = (site', saw)" "add_route resolve site ty a b = Inr site'" "ty \<noteq> ROUTE_NONE"
    using assms(1) unfolding st site_line_def
    by (auto simp: Let_def split: if_splits option.splits sum.splits) (blast dest: parse_port_token_nonzero)+
  then show ?thesis
  proof cases
    case 3
    with assms(2) st add_route_Inr [OF 3(2,3)] show ?thesis by (auto simp: load_inv_def)
  qed (use assms(2) st in \<open>auto simp: load_inv_def\<close>)
qed

lemma site_lines_inv:
  "site_lines resolve f st = Inr st' \<Longrightarrow> load_inv st \<Longrightarrow> load_inv st'"
proof (induction resolve f st rule: site_lines.induct)
  case (1 resolve f st)
  from 1(2) show ?case
    by (subst (asm) site_lines.simps)
      (use 1(1,3) site_line_inv in \<open>fastforce split: if_splits sum.splits\<close>)
qed

lemma prefix_single: "p \<noteq> [] \<Longrightarrow> hd p = 47 \<Longrightarrow> \<not> Suc 0 < length p \<Longrightarrow> p = [47 :: byte]"
  by (cases p) auto

lemma check_route_Inr:
  assumes "check_route stat_of r = Inr r'" and "route_ok r"
  shows "route_ok r' \<and> route_checked stat_of r'"
  using assms
  by (auto simp: check_route_def route_ok_def route_checked_def ensure_dir_slash_def prefix_ok_def
      hd_append split: if_splits option.splits file_kind.splits dest: prefix_single)

lemma check_routes_Inr:
  assumes "check_routes stat_of rs = Inr rs'" and "list_all route_ok rs"
  shows "list_all (\<lambda>r. route_ok r \<and> route_checked stat_of r) rs' \<and> length rs' = length rs"
  using assms
proof (induction rs arbitrary: rs')
  case (Cons r rs)
  then obtain r' rest where "check_route stat_of r = Inr r'" "check_routes stat_of rs = Inr rest" "rs' = r' # rest"
    by (auto split: sum.splits)
  with Cons check_route_Inr show ?case by auto
qed simp

lemma has_duplicate_iff:
  "distinct (map r_prefix seen) \<Longrightarrow> \<not> has_duplicate seen rs \<longleftrightarrow> distinct (map r_prefix (seen @ rs))"
proof (induction rs arbitrary: seen)
  case (Cons r rs)
  show ?case
  proof (cases "list_ex (\<lambda>q. r_prefix r = r_prefix q) seen")
    case True
    then show ?thesis by (auto simp: list_ex_iff)
  next
    case False
    then have "distinct (map r_prefix (seen @ [r]))" using Cons.prems by (auto simp: list_ex_iff)
    with Cons.IH [OF this] False show ?thesis by simp
  qed
qed simp

definition site_ok :: "(byte list \<Rightarrow> file_kind option) \<Rightarrow> tiny_site \<Rightarrow> bool" where
  "site_ok stat_of site = (site_port site \<noteq> 0 \<and> site_routes site \<noteq> []
     \<and> length (site_routes site) \<le> TINY_MAX_ROUTES
     \<and> list_all (\<lambda>r. route_ok r \<and> route_checked stat_of r) (site_routes site)
     \<and> distinct (map r_prefix (site_routes site))
     \<and> list_ex (\<lambda>r. r_type r = ROUTE_PROXY \<or> r_type r = ROUTE_STATIC) (site_routes site))"

lemma tiny_site_load_site_ok:
  assumes "tiny_site_load resolve stat_of file = Inr site"
  shows "site_ok stat_of site"
proof -
  obtain f site' where lines: "site_lines resolve f (site0, False) = Inr (site', True)"
    and check: "site_check stat_of site' = Inr site"
    using assms by (auto simp: tiny_site_load_def split: option.splits sum.splits if_splits)
  have "load_inv (site0, False)" by (simp add: load_inv_def site0_def)
  from site_lines_inv [OF lines this] have site': "load_inv (site', True)" .
  obtain rs where "check_routes stat_of (site_routes site') = Inr rs" "site_routes site' \<noteq> []"
    "list_ex (\<lambda>r. r_type r = ROUTE_PROXY \<or> r_type r = ROUTE_STATIC) rs" "\<not> has_duplicate [] rs"
    "site = site'\<lparr>site_routes := rs\<rparr>"
    using check by (auto simp: site_check_def split: sum.splits if_splits)
  with check_routes_Inr [of stat_of "site_routes site'" rs] site' has_duplicate_iff [of "[]" rs]
  show ?thesis by (auto simp: site_ok_def load_inv_def)
qed

text \<open>
  C16. A site that loads is well formed. Whatever the file holds and whatever the file system and
  the resolver answer, a successful \<open>tiny_site_load\<close> yields a port other than 0 and between 1 and 32
  routes, one of them a service; every prefix is an absolute path of visible characters that fits
  its buffer, no prefix occurs twice, a directory route ends in a slash, a file route does not, and
  every target and upstream address fits.
\<close>

theorem tiny_site_load_ok:
  assumes "tiny_site_load resolve stat_of file = Inr site"
  shows "site_ok stat_of site"
  using assms by (rule tiny_site_load_site_ok)

declare is_blank_def [evals] is_sep_def [evals] next_tok_def [evals] copy_token_def [evals]
  prefix_ok_def [evals] parse_port_token_def [evals] add_route_def [evals] site_line_def [evals]
  fgets_line_def [evals] site_lines.simps [evals] ensure_dir_slash_def [evals] check_route_def [evals]
  site_check_def [evals] site0_def [evals] tiny_route0_def [evals] tiny_site_load_def [evals]
  TINY_MAX_ROUTES_def [evals] TINY_PREFIX_MAX_def [evals] TINY_TARGET_MAX_def [evals]
  parse_upstream_def [evals] split_upstream_def [evals]

lemma tiny_site_load_ok_witness:
  "\<exists>site. tiny_site_load (\<lambda>_ _. None) (\<lambda>_. Some Directory)
      (Some (bytes ''listen 80 # web'' @ [10] @ bytes ''static /w www'' @ [10])) = Inr site
    \<and> map r_prefix (site_routes site) = [bytes ''/w/''] \<and> site_ok (\<lambda>_. Some Directory) site"
proof -
  let ?file = "bytes ''listen 80 # web'' @ [10] @ bytes ''static /w www'' @ [10]"
  have "\<exists>site. tiny_site_load (\<lambda>_ _. None) (\<lambda>_. Some Directory) (Some ?file) = Inr site
      \<and> map r_prefix (site_routes site) = [bytes ''/w/'']"
    by (simp add: evals Let_def)
  then obtain site where run: "tiny_site_load (\<lambda>_ _. None) (\<lambda>_. Some Directory) (Some ?file) = Inr site"
    "map r_prefix (site_routes site) = [bytes ''/w/'']" by (elim exE conjE)
  from tiny_site_load_ok [OF run(1)] run show ?thesis by (intro exI [of _ site]) simp
qed

end
