(* ===== verification/Routes.thy ===== *)
theory Routes
  imports Site_Config "HOL-Library.Multiset"
begin

text \<open>
  The installed table of \<^verbatim>\<open>src/routes.c\<close>: installation with its descriptors (\<open>routes_init\<close>,
  \<open>routes_shutdown\<close>) and the choice of a route for a path (\<open>route_matches\<close>, \<open>route_match\<close>).
\<close>

section \<open>Matching\<close>

text \<open>\<open>prefix_len\<close> and \<open>plen\<close> are the lengths of the lists; \<open>memcmp\<close> on the first \<open>k\<close> bytes compares \<open>take k\<close>.\<close>

definition route_matches :: "tiny_route \<Rightarrow> byte list \<Rightarrow> bool" where
  "route_matches r path =
     (let n = length (r_prefix r); plen = length path in
      if r_exact r then plen = n \<and> take n path = take n (r_prefix r)
      else if n = 1 \<and> hd (r_prefix r) = 47 then True
      else if n > 0 \<and> r_prefix r ! (n - 1) = 47 then
        (if plen + 1 = n \<and> take plen path = take plen (r_prefix r) then True
         else if plen \<ge> n \<and> take n path = take n (r_prefix r) then True
         else False)
      else if plen < n \<or> take n path \<noteq> take n (r_prefix r) then False
      else plen = n \<or> path ! n = 47)"

fun route_match_loop :: "tiny_route list \<Rightarrow> byte list \<Rightarrow> tiny_route option \<Rightarrow> tiny_route option" where
  "route_match_loop [] path best = best"
| "route_match_loop (r # rs) path best =
     (if \<not> route_matches r path then route_match_loop rs path best
      else if best = None \<or> length (r_prefix r) > length (r_prefix (the best))
      then route_match_loop rs path (Some r) else route_match_loop rs path best)"

definition route_match :: "tiny_route list \<Rightarrow> byte list \<Rightarrow> tiny_route option" where
  "route_match routes path = route_match_loop routes path None"

text \<open>The reference: a directory or proxy route covers its prefix without the final slash and all below.\<close>

definition route_base :: "tiny_route \<Rightarrow> byte list" where
  "route_base r = (if last (r_prefix r) = 47 then butlast (r_prefix r) else r_prefix r)"

definition covers :: "tiny_route \<Rightarrow> byte list \<Rightarrow> bool" where
  "covers r path =
     (if r_exact r then path = r_prefix r
      else r_prefix r = [47] \<or> path = route_base r \<or> (\<exists>rest. path = route_base r @ 47 # rest))"

lemma take_eq_self_iff: "length path = n \<Longrightarrow> take n path = take n p \<longleftrightarrow> path = take n p"
  by auto

lemma route_matches_covers:
  assumes "r_prefix r \<noteq> []" and "hd (r_prefix r) = 47"
  shows "route_matches r path \<longleftrightarrow> covers r path"
proof -
  let ?p = "r_prefix r" and ?n = "length (r_prefix r)"
  have last: "?p ! (?n - 1) = last ?p" using assms(1) by (simp add: last_conv_nth)
  have single: "?n = 1 \<longleftrightarrow> ?p = [47]" using assms by (cases ?p) auto
  have below: "(\<exists>rest. path = b @ 47 # rest) \<longleftrightarrow> length b < length path \<and> take (length b) path = b \<and> path ! length b = 47" for b
  proof
    assume "length b < length path \<and> take (length b) path = b \<and> path ! length b = 47"
    then have "path = b @ 47 # drop (Suc (length b)) path" by (metis id_take_nth_drop)
    then show "\<exists>rest. path = b @ 47 # rest" by blast
  qed auto
  show ?thesis
  proof (cases "r_exact r \<or> ?p = [47]")
    case True
    then show ?thesis using single assms by (auto simp: route_matches_def covers_def Let_def)
  next
    case False
    show ?thesis
    proof (cases "last ?p = 47")
      case True
      define b where "b = butlast ?p"
      then have p: "?p = b @ [47]" using True assms(1) by (metis append_butlast_last_id)
      have n: "?n = length b + 1" using p by simp
      have first: "length path + 1 = ?n \<and> take (length path) path = take (length path) ?p \<longleftrightarrow> path = b"
        unfolding n p by auto
      have "take (length b + 1) path = b @ [47] \<longleftrightarrow> take (length b) path = b \<and> path ! length b = 47"
        if "length b < length path" using that by (simp add: take_Suc_conv_app_nth)
      then have second: "?n \<le> length path \<and> take ?n path = take ?n ?p \<longleftrightarrow> (\<exists>rest. path = b @ 47 # rest)"
        unfolding n below by (auto simp: p)
      have "\<not> (?n = 1 \<and> hd ?p = 47)" "0 < ?n \<and> ?p ! (?n - 1) = 47" "\<not> r_exact r"
        using False True single last assms by auto
      then have "route_matches r path \<longleftrightarrow> length path + 1 = ?n \<and> take (length path) path = take (length path) ?p
          \<or> ?n \<le> length path \<and> take ?n path = take ?n ?p"
        unfolding route_matches_def Let_def by (simp only: simp_thms if_True if_False split: if_split) blast
      also have "\<dots> \<longleftrightarrow> path = b \<or> (\<exists>rest. path = b @ 47 # rest)" unfolding first second ..
      also have "\<dots> \<longleftrightarrow> covers r path" using False True by (simp add: covers_def route_base_def b_def)
      finally show ?thesis .
    next
      case no: False
      have "\<not> (?n = 1 \<and> hd ?p = 47)" "\<not> (0 < ?n \<and> ?p ! (?n - 1) = 47)" "\<not> r_exact r"
        using False no single last assms by auto
      then have "route_matches r path \<longleftrightarrow>
          \<not> (length path < ?n \<or> take ?n path \<noteq> take ?n ?p) \<and> (length path = ?n \<or> path ! ?n = 47)"
        unfolding route_matches_def Let_def by (simp only: simp_thms if_True if_False split: if_split) blast
      also have "\<dots> \<longleftrightarrow> path = ?p \<or> (\<exists>rest. path = ?p @ 47 # rest)"
        unfolding below by (cases "length path = ?n") auto
      also have "\<dots> \<longleftrightarrow> covers r path" using False no by (simp add: covers_def route_base_def)
      finally show ?thesis .
    qed
  qed
qed

text \<open>The prefix of a route that covers a path is the beginning of the path, a final slash added.\<close>

lemma covers_prefix:
  assumes "covers r path" and "r_prefix r \<noteq> []" and "path \<noteq> []" "hd path = 47"
  shows "r_prefix r = take (length (r_prefix r)) (path @ [47])"
proof (cases "r_exact r \<or> r_prefix r = [47]")
  case True
  then have "path = r_prefix r \<or> r_prefix r = [47]" using assms(1) by (auto simp: covers_def)
  then show ?thesis
  proof
    assume "path = r_prefix r"
    then show ?thesis by simp
  next
    assume "r_prefix r = [47]"
    then show ?thesis using assms(3,4) by (cases path) simp_all
  qed
next
  case False
  then obtain rest where path: "path = route_base r @ rest" "rest = [] \<or> hd rest = 47"
    using assms(1) by (auto simp: covers_def)
  have p: "r_prefix r = route_base r \<or> r_prefix r = route_base r @ [47]"
    using assms(2) by (metis append_butlast_last_id route_base_def)
  show ?thesis using p path by (cases rest) (elim disjE; simp)+
qed

lemma route_match_loop_cases:
  "route_match_loop rs path best = None \<and> best = None \<and> (\<forall>q \<in> set rs. \<not> route_matches q path)
   \<or> (\<exists>r. route_match_loop rs path best = Some r \<and> (best = Some r \<or> r \<in> set rs \<and> route_matches r path)
       \<and> (\<forall>q. best = Some q \<longrightarrow> length (r_prefix q) \<le> length (r_prefix r))
       \<and> (\<forall>q \<in> set rs. route_matches q path \<longrightarrow> length (r_prefix q) \<le> length (r_prefix r)))"
proof (induction rs arbitrary: best)
  case (Cons r rs)
  show ?case
    using Cons.IH [of "Some r"] Cons.IH [of best]
    by (cases "route_matches r path"; cases best) (auto split: if_splits intro: order_trans less_imp_le)
qed auto

text \<open>
  C17. Longest prefix wins, and there is only one. For a table that has been loaded and a path that
  starts with a slash, \<open>route_match\<close> finds the route that covers the path with the longest prefix: an
  exact route covers its own path only, every other its prefix and what lies below it, never a
  path that merely continues the last name. Every other covering route has a shorter prefix, and
  the answer is none only when no route covers the path.
\<close>

theorem route_match_longest:
  assumes "distinct (map r_prefix routes)" and "list_all (\<lambda>r. prefix_ok (r_prefix r)) routes"
    and "path \<noteq> []" "hd path = 47"
  shows "case route_match routes path of
      None \<Rightarrow> \<forall>r \<in> set routes. \<not> covers r path
    | Some r \<Rightarrow> r \<in> set routes \<and> covers r path
        \<and> (\<forall>q \<in> set routes. covers q path \<longrightarrow> q = r \<or> length (r_prefix q) < length (r_prefix r))"
proof -
  have prefix: "r_prefix r \<noteq> [] \<and> hd (r_prefix r) = 47" if "r \<in> set routes" for r
    using that assms(2) by (auto simp: list_all_iff prefix_ok_def)
  then have cov: "route_matches r path \<longleftrightarrow> covers r path" if "r \<in> set routes" for r
    using that route_matches_covers by blast
  have uniq: "q = r" if "q \<in> set routes" "r \<in> set routes" "covers q path" "covers r path"
    "length (r_prefix q) = length (r_prefix r)" for q r
  proof -
    have "r_prefix q = r_prefix r"
      using covers_prefix [OF that(3)] covers_prefix [OF that(4)] prefix that assms(3,4) by metis
    then show ?thesis using that(1,2) assms(1) by (auto simp: distinct_map dest: inj_onD)
  qed
  from route_match_loop_cases [of routes path None] show ?thesis
    unfolding route_match_def
    by (auto simp: cov dest: uniq split: option.split) (metis cov le_neq_implies_less uniq)
qed

text \<open>A route without descriptors, for the examples.\<close>

definition sample_route :: "route_type \<Rightarrow> string \<Rightarrow> tiny_route" where
  "sample_route ty p = tiny_route0\<lparr>r_type := ty, r_prefix := bytes p, r_target := bytes ''t''\<rparr>"

lemma route_match_longest_witness:
  "route_match [sample_route ROUTE_STATIC ''/'', sample_route ROUTE_PROXY ''/api''] (bytes ''/apix'')
      = Some (sample_route ROUTE_STATIC ''/'')
    \<and> covers (sample_route ROUTE_STATIC ''/'') (bytes ''/apix'')
    \<and> \<not> covers (sample_route ROUTE_PROXY ''/api'') (bytes ''/apix'')"
proof -
  let ?routes = "[sample_route ROUTE_STATIC ''/'', sample_route ROUTE_PROXY ''/api'']"
  have run: "route_match ?routes (bytes ''/apix'') = Some (sample_route ROUTE_STATIC ''/'')"
    by (simp add: route_match_def route_matches_def sample_route_def tiny_route0_def bytes_def Let_def)
  have "distinct (map r_prefix ?routes)" "list_all (\<lambda>r. prefix_ok (r_prefix r)) ?routes"
    by (simp_all add: sample_route_def tiny_route0_def bytes_def prefix_ok_def)
  moreover have "bytes ''/apix'' \<noteq> []" "hd (bytes ''/apix'') = 47" by (simp_all add: bytes_def)
  ultimately have "covers (sample_route ROUTE_STATIC ''/'') (bytes ''/apix'')
      \<and> (covers (sample_route ROUTE_PROXY ''/api'') (bytes ''/apix'')
         \<longrightarrow> sample_route ROUTE_PROXY ''/api'' = sample_route ROUTE_STATIC ''/''
           \<or> length (r_prefix (sample_route ROUTE_PROXY ''/api'')) < length (r_prefix (sample_route ROUTE_STATIC ''/'')))"
    using route_match_longest [of ?routes "bytes ''/apix''"] run by simp
  then show ?thesis using run by (simp add: sample_route_def tiny_route0_def bytes_def)
qed

section \<open>Installing the table\<close>

text \<open>
  The process-wide state: \<open>g_site\<close>, \<open>g_ready\<close> and \<open>docroot_fd\<close>. \<open>rt_opens\<close> holds the answers of the
  coming \<open>open\<close> calls, a negative one a failure; \<open>rt_opened\<close> and \<open>rt_closed\<close> record the descriptors
  that were opened and closed.
\<close>

record routes_state =
  rt_port :: u16
  rt_routes :: "tiny_route list"
  rt_ready :: bool
  rt_docroot :: int
  rt_opens :: "int list"
  rt_opened :: "int list"
  rt_closed :: "int list"

definition do_open :: "routes_state \<Rightarrow> int \<times> routes_state" where
  "do_open st =
     (case rt_opens st of
        [] \<Rightarrow> (- 1, st)
      | fd # fds \<Rightarrow> (fd, st\<lparr>rt_opens := fds, rt_opened := rt_opened st @ (if fd \<ge> 0 then [fd] else [])\<rparr>))"

definition static_init :: "byte list \<Rightarrow> routes_state \<Rightarrow> bool \<times> routes_state" where
  "static_init docroot st =
     (if docroot = [] then (False, st)
      else let (fd, st) = do_open st in
        if fd < 0 then (False, st) else (True, st\<lparr>rt_docroot := fd\<rparr>))"

definition static_shutdown :: "routes_state \<Rightarrow> routes_state" where
  "static_shutdown st =
     (if rt_docroot st \<ge> 0 then st\<lparr>rt_docroot := - 1, rt_closed := rt_closed st @ [rt_docroot st]\<rparr> else st)"

definition dir_fds :: "tiny_route list \<Rightarrow> int list" where
  "dir_fds rs = filter (\<lambda>fd. fd \<ge> 0) (map r_dir_fd rs)"

definition routes_shutdown :: "routes_state \<Rightarrow> routes_state" where
  "routes_shutdown st =
     (let st1 = st\<lparr>rt_closed := rt_closed st @ dir_fds (rt_routes st)\<rparr>;
          st2 = (if rt_ready st \<or> rt_routes st \<noteq> [] then static_shutdown st1 else st1)
      in st2\<lparr>rt_ready := False, rt_routes := []\<rparr>)"

text \<open>
  One round of the loop over the routes: entry \<open>i\<close> of the table becomes \<open>r\<close>, a copy of the site's
  route, and a directory route opens its directory. The flag is \<open>primary\<close>.
\<close>

abbreviation put_route :: "nat \<Rightarrow> tiny_route \<Rightarrow> routes_state \<Rightarrow> routes_state" where
  "put_route i r st \<equiv> st\<lparr>rt_routes := (rt_routes st)[i := r]\<rparr>"

definition install_dir ::
  "nat \<Rightarrow> tiny_route \<Rightarrow> bool \<Rightarrow> routes_state \<Rightarrow> (site_error + bool) \<times> routes_state" where
  "install_dir i r primary st =
     (if r_prefix r = [47] then
        if primary then (Inl Two_Roots, st)
        else let (ok, st) = static_init (r_target r) st in
          if \<not> ok then (Inl Open_Failed, st)
          else (Inr True, put_route i (r\<lparr>r_primary := True\<rparr>) st)
      else let (fd, st) = do_open st in
        if fd < 0 then (Inl Open_Failed, st)
        else (Inr primary, put_route i (r\<lparr>r_dir_fd := fd\<rparr>) st))"

definition install_entry ::
  "(byte list \<Rightarrow> file_kind option) \<Rightarrow> nat \<Rightarrow> tiny_route \<Rightarrow> bool \<Rightarrow> routes_state
    \<Rightarrow> (site_error + bool) \<times> routes_state" where
  "install_entry stat_of i r primary st =
     (if r_type r \<noteq> ROUTE_STATIC then (Inr primary, st)
      else case stat_of (r_target r) of
          None \<Rightarrow> (Inl Stat_Failed, st)
        | Some Directory \<Rightarrow>
            (case ensure_dir_slash r of
               None \<Rightarrow> (Inl Prefix_Too_Long, st)
             | Some r \<Rightarrow> install_dir i r primary (put_route i r st))
        | Some Regular \<Rightarrow>
            if last (r_prefix r) = 47 \<and> length (r_prefix r) > 1 then (Inl File_Prefix_Slash, st)
            else (Inr primary, put_route i (r\<lparr>r_exact := True\<rparr>) st)
        | Some Other_File \<Rightarrow> (Inl Not_File_Or_Directory, st))"

definition install_route ::
  "(byte list \<Rightarrow> file_kind option) \<Rightarrow> nat \<Rightarrow> tiny_route \<Rightarrow> bool \<Rightarrow> routes_state
    \<Rightarrow> (site_error + bool) \<times> routes_state" where
  "install_route stat_of i src primary st =
     (let r = src\<lparr>r_dir_fd := - 1, r_exact := False, r_primary := False\<rparr>
      in install_entry stat_of i r primary (put_route i r st))"

fun install_routes ::
  "(byte list \<Rightarrow> file_kind option) \<Rightarrow> nat \<Rightarrow> tiny_route list \<Rightarrow> bool \<Rightarrow> routes_state
    \<Rightarrow> (site_error + unit) \<times> routes_state" where
  "install_routes stat_of i [] primary st = (Inr (), st)"
| "install_routes stat_of i (src # rest) primary st =
     (case install_route stat_of i src primary st of
        (Inl e, st) \<Rightarrow> (Inl e, routes_shutdown st)
      | (Inr primary, st) \<Rightarrow> install_routes stat_of (i + 1) rest primary st)"

definition routes_init ::
  "(byte list \<Rightarrow> file_kind option) \<Rightarrow> tiny_site option \<Rightarrow> routes_state \<Rightarrow> (site_error + unit) \<times> routes_state" where
  "routes_init stat_of site st =
     (let st = (routes_shutdown st)\<lparr>rt_port := 0, rt_routes := []\<rparr> in
      case site of
        None \<Rightarrow> (Inl Missing_Port, st)
      | Some site \<Rightarrow>
          if site_port site = 0 then (Inl Missing_Port, st)
          else
            let st = st\<lparr>rt_port := site_port site,
                 rt_routes := replicate (length (site_routes site)) tiny_route0\<rparr> in
            (case install_routes stat_of 0 (site_routes site) False st of
               (Inl e, st) \<Rightarrow> (Inl e, st)
             | (Inr _, st) \<Rightarrow>
                 if has_duplicate [] (rt_routes st) then (Inl Duplicate_Route, routes_shutdown st)
                 else (Inr (), st\<lparr>rt_ready := True\<rparr>)))"

text \<open>The target of the primary route, the empty string when there is none.\<close>

definition routes_docroot :: "routes_state \<Rightarrow> byte list" where
  "routes_docroot st = (case filter r_primary (rt_routes st) of [] \<Rightarrow> [] | r # _ \<Rightarrow> r_target r)"

text \<open>The descriptors the table and the document root own, and the balance of opens and closes.\<close>

definition owned :: "routes_state \<Rightarrow> int list" where
  "owned st = (if rt_docroot st \<ge> 0 then [rt_docroot st] else []) @ dir_fds (rt_routes st)"

definition fds_balanced :: "routes_state \<Rightarrow> bool" where
  "fds_balanced st = (mset (rt_opened st) = mset (owned st) + mset (rt_closed st)
     \<and> (rt_docroot st \<ge> 0 \<longrightarrow> rt_ready st \<or> rt_routes st \<noteq> []))"

lemma routes_shutdown_balanced:
  assumes "fds_balanced st"
  shows "fds_balanced (routes_shutdown st) \<and> owned (routes_shutdown st) = []
    \<and> rt_docroot (routes_shutdown st) < 0"
  using assms
  by (auto simp: fds_balanced_def routes_shutdown_def static_shutdown_def owned_def dir_fds_def Let_def)

lemma mset_dir_fds_update:
  assumes "i < length rs"
  shows "mset (dir_fds (rs[i := r])) + mset (dir_fds [rs ! i]) = mset (dir_fds rs) + mset (dir_fds [r])"
proof -
  have rs: "rs = take i rs @ rs ! i # drop (Suc i) rs" using assms by (rule id_take_nth_drop)
  have "rs[i := r] = take i rs @ r # drop (Suc i) rs" using assms by (rule upd_conv_take_nth_drop)
  then show ?thesis by (subst (3) rs) (simp add: dir_fds_def ac_simps)
qed

text \<open>A table of \<open>n\<close> entries whose entries from \<open>i\<close> on own nothing; \<open>primary\<close> says if the root is open.\<close>

definition installing :: "nat \<Rightarrow> nat \<Rightarrow> bool \<Rightarrow> routes_state \<Rightarrow> bool" where
  "installing n i primary st = (length (rt_routes st) = n \<and> 0 < n \<and> fds_balanced st
     \<and> (\<forall>j. i \<le> j \<longrightarrow> j < n \<longrightarrow> r_dir_fd (rt_routes st ! j) < 0) \<and> primary = (rt_docroot st \<ge> 0))"

lemma mset_owned_put:
  assumes "i < length (rt_routes st)" and "r_dir_fd (rt_routes st ! i) < 0"
  shows "mset (owned (put_route i r st)) = mset (owned st) + mset (dir_fds [r])"
  using mset_dir_fds_update [OF assms(1), of r] assms(2) by (simp add: owned_def dir_fds_def)

lemma installing_put:
  assumes "installing n i primary st" and "i < n" and "r_dir_fd r < 0"
  shows "installing n i primary (put_route i r st)"
proof -
  have "mset (owned (put_route i r st)) = mset (owned st)"
    using mset_owned_put [of i st r] assms by (simp add: installing_def dir_fds_def)
  with assms show ?thesis by (auto simp: installing_def fds_balanced_def nth_list_update)
qed

lemma installing_Suc: "installing n i primary st \<Longrightarrow> installing n (Suc i) primary st"
  by (simp add: installing_def)

text \<open>Opening a directory and storing the descriptor in the entry, or as the root.\<close>

lemma installing_open_dir:
  assumes inst: "installing n i primary st" and i: "i < n" and run: "do_open st = (fd, st')" and fd: "0 \<le> fd"
  shows "installing n (Suc i) primary (put_route i (r\<lparr>r_dir_fd := fd\<rparr>) st')"
proof -
  from run fd have st': "st' = st\<lparr>rt_opens := tl (rt_opens st), rt_opened := rt_opened st @ [fd]\<rparr>"
    by (auto simp: do_open_def split: list.splits)
  have own: "owned st' = owned st" by (simp add: st' owned_def)
  have lt: "i < length (rt_routes st')" "r_dir_fd (rt_routes st' ! i) < 0"
    using inst i by (simp_all add: installing_def st')
  note own' = mset_owned_put [OF lt, of "r\<lparr>r_dir_fd := fd\<rparr>"]
  have "mset (rt_opened st') = mset (owned (put_route i (r\<lparr>r_dir_fd := fd\<rparr>) st')) + mset (rt_closed st')"
    unfolding own' using inst fd by (simp add: installing_def fds_balanced_def own) (simp add: st' dir_fds_def)
  with inst i show ?thesis
    by (auto simp: installing_def fds_balanced_def st' nth_list_update)
qed

lemma installing_open_fail:
  assumes inst: "installing n i primary st" and run: "do_open st = (fd, st')" and fd: "fd < 0"
  shows "installing n i primary st'"
proof -
  have "rt_opened st' = rt_opened st" "rt_closed st' = rt_closed st" "rt_routes st' = rt_routes st"
    "rt_docroot st' = rt_docroot st" "rt_ready st' = rt_ready st"
    using run fd by (auto simp: do_open_def split: list.splits)
  with inst show ?thesis by (simp add: installing_def fds_balanced_def owned_def)
qed

lemma installing_open_root:
  assumes inst: "installing n i False st" and i: "i < n" and run: "do_open st = (fd, st')" and fd: "0 \<le> fd"
  shows "installing n i True (st'\<lparr>rt_docroot := fd\<rparr>)"
proof -
  from run fd have st': "st' = st\<lparr>rt_opens := tl (rt_opens st), rt_opened := rt_opened st @ [fd]\<rparr>"
    by (auto simp: do_open_def split: list.splits)
  from inst fd show ?thesis
    by (auto simp: installing_def fds_balanced_def st' owned_def)
qed

lemma ensure_dir_slash_fd: "ensure_dir_slash r = Some q \<Longrightarrow> r_dir_fd q = r_dir_fd r"
  by (auto simp: ensure_dir_slash_def split: if_splits)

lemma install_dir_installing:
  assumes inst: "installing n i primary st" and i: "i < n" and r: "r_dir_fd r < 0"
    and run: "install_dir i r primary st = (R, st')"
  shows "case R of Inl _ \<Rightarrow> \<exists>p. installing n i p st' | Inr p \<Rightarrow> installing n (Suc i) p st'"
proof -
  obtain fd st1 where o: "do_open st = (fd, st1)" by fastforce
  show ?thesis
  proof (cases "fd < 0")
    case True
    note fail = installing_open_fail [OF inst o True]
    from run show ?thesis
      using fail inst True o
      by (auto simp: install_dir_def static_init_def Let_def split: if_splits)
  next
    case False
    then have fd: "0 \<le> fd" by simp
    have root: "installing n (Suc i) True (put_route i (r\<lparr>r_primary := True\<rparr>) (st1\<lparr>rt_docroot := fd\<rparr>))" if "\<not> primary"
      by (rule installing_Suc, rule installing_put [OF installing_open_root [OF _ i o fd] i])
        (use inst that r in simp_all)
    from run show ?thesis
      using root inst installing_open_dir [OF inst i o fd, of r] False o
      by (auto simp: install_dir_def static_init_def Let_def split: if_splits)
  qed
qed

lemma install_route_installing:
  assumes inst: "installing n i primary st" and i: "i < n"
    and run: "install_route stat_of i src primary st = (R, st')"
  shows "case R of Inl _ \<Rightarrow> \<exists>p. installing n i p st' | Inr p \<Rightarrow> installing n (Suc i) p st'"
proof -
  define r where "r = src\<lparr>r_dir_fd := - 1, r_exact := False, r_primary := False\<rparr>"
  define st1 where "st1 = put_route i r st"
  have r: "r_dir_fd r < 0" by (simp add: r_def)
  have st1: "installing n i primary st1"
    unfolding st1_def by (rule installing_put [OF inst i r])
  have step: "install_entry stat_of i r primary st1 = (R, st')"
    using run by (simp add: install_route_def Let_def r_def st1_def)
  show ?thesis
  proof (cases "r_type r = ROUTE_STATIC \<and> stat_of (r_target r) = Some Directory")
    case False
    with step show ?thesis
      using st1 installing_Suc [OF st1] installing_Suc [OF installing_put [OF st1 i, of "r\<lparr>r_exact := True\<rparr>"]] r
      by (auto simp: install_entry_def split: if_splits option.splits file_kind.splits)
  next
    case True
    show ?thesis
    proof (cases "ensure_dir_slash r")
      case None
      with True step st1 show ?thesis by (auto simp: install_entry_def)
    next
      case (Some q)
      then have q: "r_dir_fd q < 0" using ensure_dir_slash_fd r by simp
      from True Some step have "install_dir i q primary (put_route i q st1) = (R, st')"
        by (simp add: install_entry_def)
      from install_dir_installing [OF installing_put [OF st1 i q] i q this] show ?thesis .
    qed
  qed
qed

lemma install_routes_balanced:
  assumes "installing n i primary st" and "i + length rest = n"
    and "install_routes stat_of i rest primary st = (R, st')"
  shows "fds_balanced st' \<and> (case R of Inl _ \<Rightarrow> owned st' = [] | Inr _ \<Rightarrow> True)"
  using assms
proof (induction rest arbitrary: i primary st)
  case Nil
  then show ?case by (auto simp: installing_def)
next
  case (Cons src rest)
  obtain R1 st1 where step: "install_route stat_of i src primary st = (R1, st1)" by fastforce
  note inst = install_route_installing [OF Cons.prems(1) _ step]
  show ?case
  proof (cases R1)
    case (Inl e)
    then have "fds_balanced st1" using inst Cons.prems(2) by (auto simp: installing_def)
    with routes_shutdown_balanced Inl Cons.prems(3) step show ?thesis by auto
  next
    case (Inr p)
    with Cons.IH [of "Suc i" p st1] inst Cons.prems step show ?thesis by simp
  qed
qed

text \<open>
  On every failure \<open>routes_init\<close> has closed each descriptor it opened, once; on success the table and
  the document root own them. What the process owned before is closed first.
\<close>

lemma routes_init_balanced:
  assumes "fds_balanced st" and "routes_init stat_of site st = (R, st')"
  shows "fds_balanced st' \<and> (case R of Inl _ \<Rightarrow> owned st' = [] | Inr _ \<Rightarrow> rt_ready st')"
proof -
  note down = routes_shutdown_balanced [OF assms(1)]
  define st0 where "st0 = (routes_shutdown st)\<lparr>rt_port := 0, rt_routes := []\<rparr>"
  have st0: "fds_balanced st0" "owned st0 = []" "rt_docroot st0 < 0"
  proof -
    show "rt_docroot st0 < 0" using down by (simp add: st0_def)
    then show own: "owned st0 = []" by (simp add: owned_def st0_def dir_fds_def)
    have "mset (rt_opened st0) = mset (rt_closed st0)" using down by (simp add: st0_def fds_balanced_def)
    with own \<open>rt_docroot st0 < 0\<close> show "fds_balanced st0" by (simp add: fds_balanced_def)
  qed
  show ?thesis
  proof (cases "site = None \<or> site_port (the site) = 0")
    case True
    then have "R = Inl Missing_Port \<and> st' = st0" using assms(2) by (auto simp: routes_init_def Let_def st0_def split: option.splits)
    with st0 show ?thesis by (simp add: fds_balanced_def)
  next
    case False
    then obtain s where s: "site = Some s" "site_port s \<noteq> 0" by auto
    define st1 where "st1 = st0\<lparr>rt_port := site_port s, rt_routes := replicate (length (site_routes s)) tiny_route0\<rparr>"
    obtain R1 st2 where inst: "install_routes stat_of 0 (site_routes s) False st1 = (R1, st2)" by fastforce
    have "fds_balanced st2 \<and> (case R1 of Inl _ \<Rightarrow> owned st2 = [] | Inr _ \<Rightarrow> True)"
    proof (cases "site_routes s = []")
      case True
      then have "st2 = st1" "R1 = Inr ()" using inst by auto
      moreover have "rt_routes st1 = rt_routes st0" using True by (simp add: st1_def) (simp add: st0_def)
      then have "owned st1 = owned st0" by (simp add: owned_def st1_def)
      ultimately show ?thesis using st0 by (simp add: fds_balanced_def) (simp add: st1_def)
    next
      case False
      have "dir_fds (replicate n tiny_route0) = []" for n by (induction n) (auto simp: dir_fds_def tiny_route0_def)
      then have "installing (length (site_routes s)) 0 False st1"
        using st0 False by (simp add: installing_def st1_def fds_balanced_def owned_def tiny_route0_def) 
      from install_routes_balanced [OF this _ inst] show ?thesis by simp
    qed
    moreover have "(R, st') = (case R1 of Inl e \<Rightarrow> (Inl e, st2)
        | Inr _ \<Rightarrow> if has_duplicate [] (rt_routes st2) then (Inl Duplicate_Route, routes_shutdown st2)
          else (Inr (), st2\<lparr>rt_ready := True\<rparr>))"
      using assms(2) s inst by (simp add: routes_init_def Let_def st0_def [symmetric] st1_def [symmetric])
    ultimately show ?thesis
      using routes_shutdown_balanced [of st2]
      by (auto simp: fds_balanced_def owned_def split: sum.splits if_splits)
  qed
qed

definition sample_routes_state :: "int list \<Rightarrow> routes_state" where
  "sample_routes_state fds = \<lparr>rt_port = 0, rt_routes = [], rt_ready = False, rt_docroot = - 1,
     rt_opens = fds, rt_opened = [], rt_closed = []\<rparr>"

definition sample_site :: tiny_site where
  "sample_site = \<lparr>site_port = 80, site_routes = [sample_route ROUTE_STATIC ''/'', sample_route ROUTE_STATIC ''/d'']\<rparr>"

end
