(* ===== verification/Proxy_Chunk.thy ===== *)
theory Proxy_Chunk
  imports Tiny_Prelude
begin

text \<open>
  The chunked-framing state machine of \<^verbatim>\<open>src/proxy.c\<close>, \<open>chunk_feed\<close>: bytes of an upstream body are
  forwarded unchanged, and the machine only finds where the body ends. It is fed whatever a read
  returned, so it stops and resumes at any byte.
\<close>

datatype ch_state = CH_SIZE | CH_EXT | CH_SIZE_LF | CH_DATA | CH_DATA_CR | CH_DATA_LF
  | CH_TRAIL | CH_TRAIL_CR | CH_SKIP | CH_SKIP_CR

text \<open>The fields of \<open>proxy_conn\<close> the machine uses.\<close>

record chunk_conn =
  chunk_state :: ch_state
  saw_digit :: bool
  chunk_size :: u64

definition px_hex_val :: "byte \<Rightarrow> int" where
  "px_hex_val c =
     (if 48 \<le> c \<and> c \<le> 57 then uint c - 48
      else if 97 \<le> c \<and> c \<le> 102 then uint c - 97 + 10
      else if 65 \<le> c \<and> c \<le> 70 then uint c - 65 + 10
      else - 1)"

text \<open>
  The rest of the input and the number of bytes already consumed give the new machine, the
  consumed total, \<open>*done\<close> and \<open>*bad\<close>.
\<close>

function chunk_feed_loop ::
  "'a chunk_conn_scheme \<Rightarrow> byte list \<Rightarrow> nat \<Rightarrow> 'a chunk_conn_scheme \<times> nat \<times> bool \<times> bool" where
  "chunk_feed_loop px s i =
     (case s of
        [] \<Rightarrow> (px, i, False, False)
      | c # cs \<Rightarrow>
          (case chunk_state px of
             CH_SIZE \<Rightarrow>
               (let h = px_hex_val c in
                if h \<ge> 0 then
                  if chunk_size px > drop_bit 4 (- 1) then (px, i, False, True)
                  else chunk_feed_loop
                    (px\<lparr>chunk_size := push_bit 4 (chunk_size px) OR word_of_int h, saw_digit := True\<rparr>) cs (i + 1)
                else if c = 59 then
                  if \<not> saw_digit px then (px, i, False, True)
                  else chunk_feed_loop (px\<lparr>chunk_state := CH_EXT\<rparr>) cs (i + 1)
                else if c = 13 then
                  if \<not> saw_digit px then (px, i, False, True)
                  else chunk_feed_loop (px\<lparr>chunk_state := CH_SIZE_LF\<rparr>) cs (i + 1)
                else (px, i, False, True))
           | CH_EXT \<Rightarrow>
               if c = 10 then (px, i, False, True)
               else chunk_feed_loop (if c = 13 then px\<lparr>chunk_state := CH_SIZE_LF\<rparr> else px) cs (i + 1)
           | CH_SIZE_LF \<Rightarrow>
               if c \<noteq> 10 then (px, i, False, True)
               else chunk_feed_loop (px\<lparr>chunk_state := if chunk_size px = 0 then CH_TRAIL else CH_DATA\<rparr>) cs (i + 1)
           | CH_DATA \<Rightarrow>
               (let left = (if length s > unat (chunk_size px) then unat (chunk_size px) else length s);
                    px' = px\<lparr>chunk_size := chunk_size px - word_of_nat left\<rparr>
                in chunk_feed_loop (if chunk_size px' = 0 then px'\<lparr>chunk_state := CH_DATA_CR\<rparr> else px')
                     (drop left s) (i + left))
           | CH_DATA_CR \<Rightarrow>
               if c \<noteq> 13 then (px, i, False, True)
               else chunk_feed_loop (px\<lparr>chunk_state := CH_DATA_LF\<rparr>) cs (i + 1)
           | CH_DATA_LF \<Rightarrow>
               if c \<noteq> 10 then (px, i, False, True)
               else chunk_feed_loop (px\<lparr>chunk_state := CH_SIZE, saw_digit := False, chunk_size := 0\<rparr>) cs (i + 1)
           | CH_TRAIL \<Rightarrow>
               chunk_feed_loop (px\<lparr>chunk_state := if c = 13 then CH_TRAIL_CR else CH_SKIP\<rparr>) cs (i + 1)
           | CH_TRAIL_CR \<Rightarrow>
               if c \<noteq> 10 then (px, i, False, True) else (px, i + 1, True, False)
           | CH_SKIP \<Rightarrow>
               chunk_feed_loop (if c = 13 then px\<lparr>chunk_state := CH_SKIP_CR\<rparr> else px) cs (i + 1)
           | CH_SKIP_CR \<Rightarrow>
               if c \<noteq> 10 then (px, i, False, True)
               else chunk_feed_loop (px\<lparr>chunk_state := CH_TRAIL\<rparr>) cs (i + 1)))"
  by pat_completeness auto
termination
  by (relation "measures [\<lambda>(_, s, _). length s, \<lambda>(px, _, _). if chunk_state px = CH_DATA then 1 else 0]")
    (auto simp: unat_gt_0 split: if_splits)

declare chunk_feed_loop.simps [simp del, evals]

definition chunk_feed ::
  "'a chunk_conn_scheme \<Rightarrow> byte list \<Rightarrow> 'a chunk_conn_scheme \<times> nat \<times> bool \<times> bool" where
  "chunk_feed px s = chunk_feed_loop px s 0"

text \<open>The machine as \<open>rewrite_response\<close> resets it.\<close>

definition chunk_start :: chunk_conn where
  "chunk_start = \<lparr>chunk_state = CH_SIZE, saw_digit = False, chunk_size = 0\<rparr>"

section \<open>Feeding in pieces\<close>

text \<open>One round on a byte outside a data block; \<open>Inl\<close> is the end, with \<open>*done\<close>.\<close>

definition chunk_byte :: "'a chunk_conn_scheme \<Rightarrow> byte \<Rightarrow> bool + 'a chunk_conn_scheme" where
  "chunk_byte px c =
     (case chunk_state px of
        CH_SIZE \<Rightarrow>
          (if px_hex_val c \<ge> 0 then
             if chunk_size px > drop_bit 4 (- 1) then Inl False
             else Inr (px\<lparr>chunk_size := push_bit 4 (chunk_size px) OR word_of_int (px_hex_val c), saw_digit := True\<rparr>)
           else if (c = 59 \<or> c = 13) \<and> saw_digit px then
             Inr (px\<lparr>chunk_state := if c = 59 then CH_EXT else CH_SIZE_LF\<rparr>)
           else Inl False)
      | CH_EXT \<Rightarrow> if c = 10 then Inl False else Inr (if c = 13 then px\<lparr>chunk_state := CH_SIZE_LF\<rparr> else px)
      | CH_SIZE_LF \<Rightarrow>
          if c \<noteq> 10 then Inl False else Inr (px\<lparr>chunk_state := if chunk_size px = 0 then CH_TRAIL else CH_DATA\<rparr>)
      | CH_DATA \<Rightarrow> Inl False
      | CH_DATA_CR \<Rightarrow> if c \<noteq> 13 then Inl False else Inr (px\<lparr>chunk_state := CH_DATA_LF\<rparr>)
      | CH_DATA_LF \<Rightarrow>
          if c \<noteq> 10 then Inl False else Inr (px\<lparr>chunk_state := CH_SIZE, saw_digit := False, chunk_size := 0\<rparr>)
      | CH_TRAIL \<Rightarrow> Inr (px\<lparr>chunk_state := if c = 13 then CH_TRAIL_CR else CH_SKIP\<rparr>)
      | CH_TRAIL_CR \<Rightarrow> if c \<noteq> 10 then Inl False else Inl True
      | CH_SKIP \<Rightarrow> Inr (if c = 13 then px\<lparr>chunk_state := CH_SKIP_CR\<rparr> else px)
      | CH_SKIP_CR \<Rightarrow> if c \<noteq> 10 then Inl False else Inr (px\<lparr>chunk_state := CH_TRAIL\<rparr>))"

text \<open>A data block, or what there is of it.\<close>

definition chunk_data :: "'a chunk_conn_scheme \<Rightarrow> nat \<Rightarrow> 'a chunk_conn_scheme" where
  "chunk_data px n = (let px' = px\<lparr>chunk_size := chunk_size px - word_of_nat n\<rparr>
     in if chunk_size px' = 0 then px'\<lparr>chunk_state := CH_DATA_CR\<rparr> else px')"

lemma chunk_loop_Nil [simp]: "chunk_feed_loop px [] i = (px, i, False, False)"
  by (simp add: chunk_feed_loop.simps)

lemma chunk_loop_byte:
  "chunk_state px \<noteq> CH_DATA \<Longrightarrow> chunk_feed_loop px (c # cs) i =
    (case chunk_byte px c of
       Inl d \<Rightarrow> (px, if d then i + 1 else i, d, \<not> d)
     | Inr px' \<Rightarrow> chunk_feed_loop px' cs (i + 1))"
  by (subst chunk_feed_loop.simps) (auto simp: chunk_byte_def Let_def split: ch_state.split)

lemma chunk_loop_data:
  "chunk_state px = CH_DATA \<Longrightarrow> s \<noteq> [] \<Longrightarrow> chunk_feed_loop px s i =
    (let n = min (length s) (unat (chunk_size px)) in chunk_feed_loop (chunk_data px n) (drop n s) (i + n))"
  by (subst chunk_feed_loop.simps) (auto simp: chunk_data_def Let_def min_def split: list.split)

lemma chunk_data_add:
  assumes "chunk_state px = CH_DATA" and "n < unat (chunk_size px)" and "m \<le> unat (chunk_size px) - n"
  shows "chunk_data (chunk_data px n) m = chunk_data px (n + m)" "chunk_state (chunk_data px n) = CH_DATA"
    "unat (chunk_size (chunk_data px n)) = unat (chunk_size px) - n"
proof -
  have n: "unat (word_of_nat n :: u64) = n"
    using assms(2) unsigned_less [of "chunk_size px", where ?'a = nat] by (simp add: unat_of_nat)
  then have sub: "unat (chunk_size px - word_of_nat n) = unat (chunk_size px) - n"
    using assms(2) by (simp add: unat_sub word_le_nat_alt)
  then have "chunk_size px - word_of_nat n \<noteq> 0" using assms(2) by (auto simp: unat_eq_zero [symmetric])
  then show "chunk_data (chunk_data px n) m = chunk_data px (n + m)" "chunk_state (chunk_data px n) = CH_DATA"
    "unat (chunk_size (chunk_data px n)) = unat (chunk_size px) - n"
    using assms(1) sub by (simp_all add: chunk_data_def Let_def algebra_simps)
qed

text \<open>A run that has not ended consumes everything and can go on; one that has ended stays so.\<close>

lemma chunk_loop_append:
  fixes px :: "'a chunk_conn_scheme"
  shows "chunk_feed_loop px a i = (px', j, d, bad) \<Longrightarrow>
    chunk_feed_loop px (a @ b) i = (if d \<or> bad then (px', j, d, bad) else chunk_feed_loop px' b j)
    \<and> (\<not> d \<and> \<not> bad \<longrightarrow> j = i + length a)"
proof (induction "length a" arbitrary: a px i rule: less_induct)
  case less
  note IH = less.hyps
  have byte: "chunk_feed_loop px (a @ b) i = (if d \<or> bad then (px', j, d, bad) else chunk_feed_loop px' b j)
      \<and> (\<not> d \<and> \<not> bad \<longrightarrow> j = i + length a)"
    if run: "chunk_feed_loop px a i = (px', j, d, bad)" and st: "chunk_state px \<noteq> CH_DATA"
    for px :: "'a chunk_conn_scheme" and i
  proof (cases a)
    case Nil
    then show ?thesis using run by simp
  next
    case (Cons c cs)
    show ?thesis
    proof (cases "chunk_byte px c")
      case (Inl x)
      then show ?thesis using run st Cons by (auto simp: chunk_loop_byte)
    next
      case (Inr q)
      then have "chunk_feed_loop q cs (i + 1) = (px', j, d, bad)" using run st Cons by (simp add: chunk_loop_byte)
      from IH [OF _ this] Inr st Cons show ?thesis by (simp add: chunk_loop_byte)
    qed
  qed
  show ?case
  proof (cases "chunk_state px = CH_DATA \<and> a \<noteq> []")
    case False
    then show ?thesis using byte [OF less.prems] less.prems by (cases "a = []") auto
  next
    case data: True
    let ?z = "unat (chunk_size px)"
    show ?thesis
    proof (cases "length a < ?z")
      case True
      have run: "chunk_feed_loop px a i = (chunk_data px (length a), i + length a, False, False)"
        using data True by (simp add: chunk_loop_data Let_def)
      let ?m = "min (length b) (?z - length a)"
      note add = chunk_data_add [of px "length a" ?m]
      have "chunk_feed_loop px (a @ b) i = chunk_feed_loop (chunk_data px (length a)) b (i + length a)"
      proof (cases "b = []")
        case True
        then show ?thesis using run by simp
      next
        case False
        have "min (length a + length b) ?z = length a + ?m" using True by simp
        then show ?thesis
          using False data True add by (simp add: chunk_loop_data Let_def add.assoc)
      qed
      with run less.prems show ?thesis by simp
    next
      case False
      then have run: "chunk_feed_loop px (a @ x) i = chunk_feed_loop (chunk_data px ?z) (drop ?z a @ x) (i + ?z)" for x
        using data by (simp add: chunk_loop_data Let_def)
      have rest: "chunk_feed_loop (chunk_data px ?z) (drop ?z a) (i + ?z) = (px', j, d, bad)"
        using run [of "[]"] less.prems by simp
      show ?thesis
      proof (cases "?z = 0")
        case True
        then have "chunk_state (chunk_data px 0) \<noteq> CH_DATA" by (simp add: chunk_data_def unat_eq_zero)
        with byte [of "chunk_data px 0" i] rest run [of b] True show ?thesis by simp
      next
        case z: False
        with IH [OF _ rest] run [of b] data False show ?thesis by simp
      qed
    qed
  qed
qed

lemma chunk_loop_shift:
  fixes px :: "'a chunk_conn_scheme"
  shows "chunk_feed_loop px s (i + k) = (case chunk_feed_loop px s i of (px', j, d, bad) \<Rightarrow> (px', j + k, d, bad))"
proof (induction "length s" arbitrary: s px i rule: less_induct)
  case less
  have byte: "chunk_feed_loop px s (i + k) =
      (case chunk_feed_loop px s i of (px', j, d, bad) \<Rightarrow> (px', j + k, d, bad))"
    if st: "chunk_state px \<noteq> CH_DATA" for px :: "'a chunk_conn_scheme" and i
  proof (cases s)
    case (Cons c cs)
    have "chunk_feed_loop q cs (Suc i + k) =
        (case chunk_feed_loop q cs (Suc i) of (px', j, d, bad) \<Rightarrow> (px', j + k, d, bad))"
      for q :: "'a chunk_conn_scheme"
      by (rule less.hyps) (simp add: Cons)
    with st Cons show ?thesis by (simp add: chunk_loop_byte split: sum.split)
  qed simp
  show ?case
  proof (cases "chunk_state px = CH_DATA \<and> s \<noteq> []")
    case False
    then show ?thesis using byte [of px i] by (cases "s = []") (auto split: prod.split)
  next
    case True
    let ?n = "min (length s) (unat (chunk_size px))"
    show ?thesis
    proof (cases "?n = 0")
      case True
      then have z: "unat (chunk_size px) = 0"
        using \<open>chunk_state px = CH_DATA \<and> s \<noteq> []\<close> by (simp add: min_def split: if_splits)
      then have "chunk_state (chunk_data px 0) \<noteq> CH_DATA" by (simp add: chunk_data_def unat_eq_zero)
      from byte [OF this, of i] z True \<open>chunk_state px = CH_DATA \<and> s \<noteq> []\<close> show ?thesis
        by (simp add: chunk_loop_data Let_def split: prod.split)
    next
      case False
      with less.hyps [of "drop ?n s" "chunk_data px ?n" "i + ?n"] True show ?thesis
        by (simp add: chunk_loop_data Let_def add.assoc add.commute [of k])
    qed
  qed
qed

text \<open>
  C18. Where the reads split the stream does not matter. Feeding two pieces one after the other
  gives the same machine, the same verdicts and the same number of body bytes as feeding them
  together; the second piece is not looked at once the end or an error has been found, and until
  then every byte is consumed.
\<close>

theorem chunk_feed_append:
  "chunk_feed px (a @ b) =
     (case chunk_feed px a of (px', n, done, bad) \<Rightarrow>
        if done \<or> bad then (px', n, done, bad)
        else (case chunk_feed px' b of (px'', m, done', bad') \<Rightarrow> (px'', length a + m, done', bad')))"
proof -
  obtain px' n dn bad where run: "chunk_feed_loop px a 0 = (px', n, dn, bad)" by (cases "chunk_feed_loop px a 0")
  from chunk_loop_append [OF run, of b] chunk_loop_shift [of px' b 0 n] run show ?thesis
    by (auto simp: chunk_feed_def add.commute split: prod.splits)
qed

section \<open>Finding the end\<close>

text \<open>
  A chunked body as RFC 9112 writes it: chunks of a size line (hex digits and an optional
  extension) and that many bytes of data, a last chunk of size 0, trailer lines, an empty line.
\<close>

definition hex_step :: "nat \<Rightarrow> byte \<Rightarrow> nat" where
  "hex_step v c = 16 * v + nat (px_hex_val c)"

definition size_line_ok :: "byte list \<Rightarrow> byte list \<Rightarrow> bool" where
  "size_line_ok ds ext = (ds \<noteq> [] \<and> list_all (\<lambda>c. px_hex_val c \<ge> 0) ds
     \<and> (ext = [] \<or> hd ext = 59 \<and> 13 \<notin> set ext \<and> 10 \<notin> set ext))"

definition chunk_ok :: "byte list \<times> byte list \<times> byte list \<Rightarrow> bool" where
  "chunk_ok ch = (case ch of (ds, ext, data) \<Rightarrow>
     size_line_ok ds ext \<and> data \<noteq> [] \<and> foldl hex_step 0 ds = length data \<and> length data < 2 ^ 64)"

definition last_ok :: "byte list \<times> byte list \<Rightarrow> bool" where
  "last_ok l = (size_line_ok (fst l) (snd l) \<and> foldl hex_step 0 (fst l) = 0)"

definition trailer_ok :: "byte list \<Rightarrow> bool" where
  "trailer_ok t = (t \<noteq> [] \<and> 13 \<notin> set t)"

definition chunk_encode ::
  "(byte list \<times> byte list \<times> byte list) list \<Rightarrow> byte list \<times> byte list \<Rightarrow> byte list list \<Rightarrow> byte list" where
  "chunk_encode chs l ts =
     concat (map (\<lambda>(ds, ext, data). ds @ ext @ [13, 10] @ data @ [13, 10]) chs)
     @ fst l @ snd l @ [13, 10] @ concat (map (\<lambda>t. t @ [13, 10]) ts) @ [13, 10]"

lemma px_hex_val_range: "px_hex_val c \<ge> 0 \<Longrightarrow> px_hex_val c < 16"
  by (auto simp: px_hex_val_def word_le_def split: if_splits)

lemma shift_or_digit:
  fixes v :: u64
  assumes "0 \<le> h" and "h < 16" and "16 * unat v + nat h < 2 ^ 64"
  shows "push_bit 4 v OR word_of_int h = word_of_nat (16 * unat v + nat h)"
proof -
  have h: "(word_of_int h :: u64) = word_of_nat (nat h)" using assms(1) by simp
  have small: "unat (word_of_nat (nat h) :: u64) = nat h" using assms(2) by (simp add: unat_of_nat)
  have "take_bit 4 (word_of_nat (nat h) :: u64) = word_of_nat (nat h)"
    using assms(2) small by (simp add: word_unat_eq_iff unsigned_take_bit_eq take_bit_nat_eq_self_iff
        del: of_nat_nat)
  then have "n < 4" if "bit (word_of_nat (nat h) :: u64) n" for n
    using that bit_take_bit_iff [of 4 "word_of_nat (nat h) :: u64" n] by simp
  then have "push_bit 4 v OR word_of_nat (nat h) = push_bit 4 v + word_of_nat (nat h)"
    by (intro disjunctive_add [symmetric]) (force simp: bit_push_bit_iff)
  then show ?thesis unfolding h by (simp add: push_bit_eq_mult mult.commute)
qed

lemma foldl_hex_mono: "v \<le> foldl hex_step v ds"
proof (induction ds arbitrary: v)
  case (Cons c ds)
  have "v \<le> hex_step v c" by (simp add: hex_step_def)
  then show ?case using Cons [of "hex_step v c"] by simp
qed simp

lemma chunk_loop_digits:
  assumes "chunk_state px = CH_SIZE" and "list_all (\<lambda>c. px_hex_val c \<ge> 0) ds"
    and "foldl hex_step (unat (chunk_size px)) ds < 2 ^ 64"
  shows "chunk_feed_loop px (ds @ rest) i =
    chunk_feed_loop (px\<lparr>chunk_size := word_of_nat (foldl hex_step (unat (chunk_size px)) ds),
      saw_digit := saw_digit px \<or> ds \<noteq> []\<rparr>) rest (i + length ds)"
  using assms
proof (induction ds arbitrary: px i)
  case Nil
  then show ?case by simp
next
  case (Cons c ds)
  let ?v = "unat (chunk_size px)" and ?h = "px_hex_val c"
  have h: "0 \<le> ?h" "?h < 16" using Cons.prems(2) px_hex_val_range by auto
  have le: "16 * ?v + nat ?h < 2 ^ 64"
  proof -
    have "hex_step ?v c \<le> foldl hex_step (hex_step ?v c) ds" by (rule foldl_hex_mono)
    also have "\<dots> < 2 ^ 64" using Cons.prems(3) by simp
    finally show ?thesis by (simp add: hex_step_def)
  qed
  have "unat (drop_bit 4 (- 1 :: u64)) = 2 ^ 60 - 1" by (simp add: drop_bit_eq_div)
  then have small: "\<not> drop_bit 4 (- 1) < chunk_size px" using le by (simp add: word_less_nat_alt)
  define q where "q = px\<lparr>chunk_size := word_of_nat (16 * ?v + nat ?h), saw_digit := True\<rparr>"
  have "unat (word_of_nat (16 * ?v + nat ?h) :: u64) = 16 * ?v + nat ?h"
    using le unfolding unat_of_nat by simp
  then have q: "unat (chunk_size q) = hex_step ?v c" unfolding q_def hex_step_def by simp
  have "chunk_byte px c = Inr q"
    using Cons.prems(1) h small shift_or_digit [OF h le] by (simp add: chunk_byte_def q_def)
  then have "chunk_feed_loop px ((c # ds) @ rest) i = chunk_feed_loop q (ds @ rest) (i + 1)"
    using Cons.prems(1) by (simp add: chunk_loop_byte)
  also have "\<dots> = chunk_feed_loop (q\<lparr>chunk_size := word_of_nat (foldl hex_step (unat (chunk_size q)) ds),
      saw_digit := saw_digit q \<or> ds \<noteq> []\<rparr>) rest (i + 1 + length ds)"
    by (rule Cons.IH) (use Cons.prems q in \<open>simp_all add: q_def\<close>)
  finally show ?case unfolding q by (simp add: q_def)
qed

text \<open>Bytes that leave the state as it is: an extension, or a trailer line, up to its CR.\<close>

lemma chunk_loop_ext:
  assumes "chunk_state px = CH_EXT" and "13 \<notin> set xs" "10 \<notin> set xs"
  shows "chunk_feed_loop px (xs @ 13 # 10 # rest) i =
    chunk_feed_loop (px\<lparr>chunk_state := CH_SIZE_LF\<rparr>) (10 # rest) (i + length xs + 1)"
  using assms
proof (induction xs arbitrary: i)
  case (Cons c xs)
  then have "chunk_byte px c = Inr px" by (auto simp: chunk_byte_def)
  then have "chunk_feed_loop px (c # xs @ 13 # 10 # rest) i = chunk_feed_loop px (xs @ 13 # 10 # rest) (i + 1)"
    using Cons.prems(1) by (simp add: chunk_loop_byte)
  with Cons.IH [of "i + 1"] Cons.prems show ?case by simp
qed (simp add: chunk_loop_byte chunk_byte_def)

lemma chunk_loop_skip:
  assumes "chunk_state px = CH_SKIP" and "13 \<notin> set xs"
  shows "chunk_feed_loop px (xs @ 13 # 10 # rest) i =
    chunk_feed_loop (px\<lparr>chunk_state := CH_TRAIL\<rparr>) rest (i + length xs + 2)"
  using assms
proof (induction xs arbitrary: i)
  case (Cons c xs)
  then have "chunk_byte px c = Inr px" by (auto simp: chunk_byte_def)
  then have "chunk_feed_loop px (c # xs @ 13 # 10 # rest) i = chunk_feed_loop px (xs @ 13 # 10 # rest) (i + 1)"
    using Cons.prems(1) by (simp add: chunk_loop_byte)
  with Cons.IH [of "i + 1"] Cons.prems show ?case by simp
qed (simp add: chunk_loop_byte chunk_byte_def)

lemma chunk_loop_size_line:
  assumes line: "size_line_ok ds ext" and small: "foldl hex_step 0 ds < 2 ^ 64"
    and px: "chunk_state px = CH_SIZE" "chunk_size px = 0"
  shows "chunk_feed_loop px (ds @ ext @ 13 # 10 # rest) i =
    chunk_feed_loop (px\<lparr>chunk_size := word_of_nat (foldl hex_step 0 ds), saw_digit := True,
      chunk_state := if foldl hex_step 0 ds = 0 then CH_TRAIL else CH_DATA\<rparr>) rest (i + length (ds @ ext) + 2)"
proof -
  let ?z = "word_of_nat (foldl hex_step 0 ds) :: u64"
  define q where "q = px\<lparr>chunk_size := ?z, saw_digit := True\<rparr>"
  have z: "?z = 0 \<longleftrightarrow> foldl hex_step 0 ds = 0"
    using small by (simp add: word_unat_eq_iff unat_of_nat)
  have hex: "px_hex_val 59 < 0" "px_hex_val 13 < 0" by (simp_all add: px_hex_val_def)
  have "chunk_feed_loop px (ds @ ext @ 13 # 10 # rest) i = chunk_feed_loop q (ext @ 13 # 10 # rest) (i + length ds)"
    using chunk_loop_digits [OF px(1), of ds "ext @ 13 # 10 # rest" i] line small px
    by (simp add: size_line_ok_def q_def)
  also have "\<dots> = chunk_feed_loop (q\<lparr>chunk_state := CH_SIZE_LF\<rparr>) (10 # rest) (i + length ds + length ext + 1)"
  proof (cases ext)
    case Nil
    then show ?thesis using px hex by (simp add: chunk_loop_byte chunk_byte_def q_def)
  next
    case (Cons c cs)
    then have "chunk_feed_loop q (ext @ 13 # 10 # rest) (i + length ds) =
        chunk_feed_loop (q\<lparr>chunk_state := CH_EXT\<rparr>) (cs @ 13 # 10 # rest) (i + length ds + 1)"
      using px hex line by (simp add: chunk_loop_byte chunk_byte_def q_def size_line_ok_def)
    with chunk_loop_ext [of "q\<lparr>chunk_state := CH_EXT\<rparr>" cs rest "i + length ds + 1"] line Cons
    show ?thesis by (simp add: size_line_ok_def)
  qed
  also have "\<dots> = chunk_feed_loop (q\<lparr>chunk_state := if foldl hex_step 0 ds = 0 then CH_TRAIL else CH_DATA\<rparr>)
      rest (i + length ds + length ext + 2)"
    using z by (simp add: chunk_loop_byte chunk_byte_def q_def)
  finally show ?thesis by (simp add: q_def add.assoc)
qed

lemma chunk_loop_chunk:
  assumes ok: "chunk_ok (ds, ext, data)" and px: "chunk_state px = CH_SIZE" "chunk_size px = 0"
  shows "chunk_feed_loop px (ds @ ext @ 13 # 10 # data @ 13 # 10 # rest) i =
    chunk_feed_loop (px\<lparr>chunk_state := CH_SIZE, saw_digit := False, chunk_size := 0\<rparr>) rest
      (i + length (ds @ ext @ data) + 4)"
proof -
  let ?n = "length data" and ?z = "word_of_nat (length data) :: u64"
  let ?q = "px\<lparr>chunk_size := ?z, saw_digit := True, chunk_state := CH_DATA\<rparr>"
  have n: "foldl hex_step 0 ds = ?n" "?n < 2 ^ 64" "data \<noteq> []" "size_line_ok ds ext" using ok by (simp_all add: chunk_ok_def)
  then have z: "unat ?z = ?n" by (simp add: unat_of_nat)
  have "chunk_feed_loop px (ds @ ext @ 13 # 10 # data @ 13 # 10 # rest) i =
      chunk_feed_loop ?q (data @ 13 # 10 # rest) (i + length (ds @ ext) + 2)"
    using chunk_loop_size_line [OF n(4) _ px, of "data @ 13 # 10 # rest" i] n by simp
  also have "\<dots> = chunk_feed_loop (chunk_data ?q ?n) (13 # 10 # rest) (i + length (ds @ ext) + 2 + ?n)"
    using n z by (simp add: chunk_loop_data Let_def)
  also have "\<dots> = chunk_feed_loop (px\<lparr>chunk_state := CH_SIZE, saw_digit := False, chunk_size := 0\<rparr>) rest
      (i + length (ds @ ext @ data) + 4)"
    by (simp add: chunk_data_def Let_def chunk_loop_byte chunk_byte_def eval_nat_numeral add.assoc)
  finally show ?thesis .
qed

lemma chunk_loop_trailers:
  assumes "list_all trailer_ok ts" and "chunk_state px = CH_TRAIL"
  shows "\<exists>q. chunk_feed_loop px (concat (map (\<lambda>t. t @ [13, 10]) ts) @ 13 # 10 # rest) i =
    (q, i + length (concat (map (\<lambda>t. t @ [13, 10]) ts)) + 2, True, False)"
  using assms
proof (induction ts arbitrary: px i)
  case Nil
  then show ?case by (simp add: chunk_loop_byte chunk_byte_def)
next
  case (Cons t ts)
  then obtain c cs where t: "t = c # cs" "c \<noteq> 13" "13 \<notin> set cs" by (cases t) (auto simp: trailer_ok_def)
  let ?more = "concat (map (\<lambda>t. t @ [13, 10]) ts) @ 13 # 10 # rest"
  let ?q = "px\<lparr>chunk_state := CH_SKIP\<rparr>"
  have "chunk_feed_loop px (c # cs @ 13 # 10 # ?more) i = chunk_feed_loop ?q (cs @ 13 # 10 # ?more) (i + 1)"
    using Cons.prems(2) t by (simp add: chunk_loop_byte chunk_byte_def)
  also have "\<dots> = chunk_feed_loop (?q\<lparr>chunk_state := CH_TRAIL\<rparr>) ?more (i + 1 + length cs + 2)"
    by (rule chunk_loop_skip) (use t in simp_all)
  finally show ?case using Cons.IH [of "?q\<lparr>chunk_state := CH_TRAIL\<rparr>" "i + 1 + length cs + 2"] Cons.prems t by auto
qed

lemma chunk_loop_encode:
  assumes "list_all chunk_ok chs" and "last_ok l" and "list_all trailer_ok ts"
    and "chunk_state px = CH_SIZE" and "chunk_size px = 0"
  shows "\<exists>q. chunk_feed_loop px (chunk_encode chs l ts @ rest) i =
    (q, i + length (chunk_encode chs l ts), True, False)"
  using assms
proof (induction chs arbitrary: px i)
  case Nil
  have last: "size_line_ok (fst l) (snd l)" "foldl hex_step 0 (fst l) = 0"
    using Nil.prems(2) by (simp_all add: last_ok_def)
  have "chunk_feed_loop px (chunk_encode [] l ts @ rest) i =
      chunk_feed_loop (px\<lparr>chunk_size := 0, saw_digit := True, chunk_state := CH_TRAIL\<rparr>)
        (concat (map (\<lambda>t. t @ [13, 10]) ts) @ 13 # 10 # rest) (i + length (fst l @ snd l) + 2)"
    using chunk_loop_size_line [OF last(1) _ Nil.prems(4,5)] last(2) by (simp add: chunk_encode_def)
  with chunk_loop_trailers [OF Nil.prems(3), of "px\<lparr>chunk_size := 0, saw_digit := True, chunk_state := CH_TRAIL\<rparr>"
      rest "i + length (fst l @ snd l) + 2"]
  show ?case by (auto simp: chunk_encode_def)
next
  case (Cons ch chs)
  obtain ds ext data where ch: "ch = (ds, ext, data)" by (cases ch)
  let ?q = "px\<lparr>chunk_state := CH_SIZE, saw_digit := False, chunk_size := 0\<rparr>"
  have "chunk_feed_loop px (chunk_encode (ch # chs) l ts @ rest) i =
      chunk_feed_loop ?q (chunk_encode chs l ts @ rest) (i + length (ds @ ext @ data) + 4)"
    using chunk_loop_chunk [of ds ext data px "chunk_encode chs l ts @ rest" i] Cons.prems ch
    by (simp add: chunk_encode_def)
  with Cons.IH [of ?q "i + length (ds @ ext @ data) + 4"] Cons.prems ch
  show ?case by (auto simp: chunk_encode_def)
qed

text \<open>
  C19. The machine finds the end of every well-formed chunked body. Whatever chunk
  sizes below \<open>2 ^ 64\<close>, leading zeros, extensions, data and trailers it has, and whatever follows
  it on the connection, \<open>chunk_feed\<close> reports the end exactly after its last byte, so the bytes of
  a next response are never taken for body.
\<close>

theorem chunk_feed_end:
  assumes "list_all chunk_ok chs" and "last_ok l" and "list_all trailer_ok ts"
  shows "\<exists>px. chunk_feed chunk_start (chunk_encode chs l ts @ rest) = (px, length (chunk_encode chs l ts), True, False)"
  using chunk_loop_encode [OF assms, of chunk_start rest 0] by (simp add: chunk_feed_def chunk_start_def)

text \<open>One chunk \<open>a\<close> of three bytes with an extension, a last chunk \<open>00\<close>, one trailer.\<close>

lemma chunk_feed_end_witness:
  "\<exists>px. chunk_feed chunk_start
      (chunk_encode [([51], [59, 120], [97, 98, 99])] ([48, 48], []) [[84, 58, 49]] @ [72, 84, 84, 80])
    = (px, length (chunk_encode [([51], [59, 120], [97, 98, 99])] ([48, 48], []) [[84, 58, 49]]), True, False)"
  by (rule chunk_feed_end)
    (simp_all add: chunk_ok_def last_ok_def trailer_ok_def size_line_ok_def hex_step_def px_hex_val_def)

end
