(* ===== verification/Kernel.thy ===== *)
theory Kernel
  imports Http_Types Conn_Queue Allocator
begin

text \<open>
  The system calls of the connection code, and the state of one client connection
  (\<open>http_conn\<close>, \<^verbatim>\<open>src/http.h\<close>). The operating system is a script: for every descriptor
  the finite list of the answers its reads and writes will give, in any order, so that a statement about
  all scripts covers every finite way a socket can behave. A call that is interrupted for ever does
  not exist in the model. What the program does to the outside is
  recorded: the bytes the kernel accepted on each descriptor and the descriptors closed.
\<close>

datatype read_answer = Rd "byte list" | Rd_Eof | Rd_Intr | Rd_Again | Rd_Err

text \<open>\<open>Wr n\<close>: the kernel takes up to \<open>n\<close> bytes; \<open>Wr 0\<close> is a call that returns 0.\<close>

datatype write_answer = Wr nat | Wr_Intr | Wr_Again | Wr_Err

text \<open>
  \<open>k_sockets\<close>, \<open>k_connects\<close>, \<open>k_epolls\<close> and \<open>k_sockopts\<close> are the answers of the next calls of
  \<open>socket\<close>, \<open>connect\<close>, \<open>epoll_ctl\<close> with \<open>ADD\<close> or \<open>MOD\<close>, and \<open>setsockopt\<close>; \<open>k_files\<close> is the
  contents of the open files.
\<close>

record kernel =
  k_reads :: "int \<Rightarrow> read_answer list"
  k_writes :: "int \<Rightarrow> write_answer list"
  k_sent :: "int \<Rightarrow> byte list"
  k_closed :: "int list"
  k_sockets :: "int list"
  k_connects :: "bool list"
  k_epolls :: "bool list"
  k_sockopts :: "bool list"
  k_files :: "int \<Rightarrow> byte list"

section \<open>System calls\<close>

text \<open>
  One \<open>read\<close> of up to \<open>cap\<close> bytes. What does not fit stays for the next read. A descriptor
  whose script has run out would block.
\<close>

definition sys_read :: "int \<Rightarrow> nat \<Rightarrow> 'a kernel_scheme \<Rightarrow> read_answer \<times> 'a kernel_scheme" where
  "sys_read fd cap k =
     (case k_reads k fd of
        [] \<Rightarrow> (Rd_Again, k)
      | Rd bs # rest \<Rightarrow>
          if bs = [] then (Rd_Eof, k\<lparr>k_reads := (k_reads k)(fd := rest)\<rparr>)
          else (Rd (take cap bs),
            k\<lparr>k_reads := (k_reads k)(fd := if length bs > cap then Rd (drop cap bs) # rest else rest)\<rparr>)
      | a # rest \<Rightarrow> (a, k\<lparr>k_reads := (k_reads k)(fd := rest)\<rparr>))"

text \<open>One \<open>send\<close>, \<open>sendmsg\<close> or \<open>sendfile\<close> of the bytes \<open>bs\<close>.\<close>

definition sys_send :: "int \<Rightarrow> byte list \<Rightarrow> 'a kernel_scheme \<Rightarrow> write_answer \<times> 'a kernel_scheme" where
  "sys_send fd bs k =
     (case k_writes k fd of
        [] \<Rightarrow> (Wr_Again, k)
      | Wr n # rest \<Rightarrow>
          (Wr (min n (length bs)), k\<lparr>k_writes := (k_writes k)(fd := rest),
            k_sent := (k_sent k)(fd := k_sent k fd @ take n bs)\<rparr>)
      | a # rest \<Rightarrow> (a, k\<lparr>k_writes := (k_writes k)(fd := rest)\<rparr>))"

definition sys_close :: "int \<Rightarrow> 'a kernel_scheme \<Rightarrow> 'a kernel_scheme" where
  "sys_close fd k = k\<lparr>k_closed := k_closed k @ [fd]\<rparr>"

definition sys_socket :: "'a kernel_scheme \<Rightarrow> int \<times> 'a kernel_scheme" where
  "sys_socket k = (case k_sockets k of [] \<Rightarrow> (- 1, k) | fd # rest \<Rightarrow> (fd, k\<lparr>k_sockets := rest\<rparr>))"

text \<open>\<open>True\<close>: connected, or in progress.\<close>

definition sys_connect :: "'a kernel_scheme \<Rightarrow> bool \<times> 'a kernel_scheme" where
  "sys_connect k = (case k_connects k of [] \<Rightarrow> (True, k) | b # rest \<Rightarrow> (b, k\<lparr>k_connects := rest\<rparr>))"

definition sys_epoll :: "'a kernel_scheme \<Rightarrow> bool \<times> 'a kernel_scheme" where
  "sys_epoll k = (case k_epolls k of [] \<Rightarrow> (True, k) | b # rest \<Rightarrow> (b, k\<lparr>k_epolls := rest\<rparr>))"

definition sys_sockopt :: "'a kernel_scheme \<Rightarrow> bool \<times> 'a kernel_scheme" where
  "sys_sockopt k = (case k_sockopts k of [] \<Rightarrow> (True, k) | b # rest \<Rightarrow> (b, k\<lparr>k_sockopts := rest\<rparr>))"

declare sys_read_def [evals] sys_send_def [evals] sys_close_def [evals] sys_socket_def [evals]
  sys_connect_def [evals] sys_epoll_def [evals] sys_sockopt_def [evals]

lemma sys_close_fields [simp]:
  "k_reads (sys_close fd k) = k_reads k" "k_writes (sys_close fd k) = k_writes k"
  "k_sent (sys_close fd k) = k_sent k" "k_closed (sys_close fd k) = k_closed k @ [fd]"
  "k_files (sys_close fd k) = k_files k"
  by (simp_all add: sys_close_def)

lemma sys_sockopt_fields [simp]:
  "k_reads (snd (sys_sockopt k)) = k_reads k" "k_writes (snd (sys_sockopt k)) = k_writes k"
  "k_sent (snd (sys_sockopt k)) = k_sent k" "k_closed (snd (sys_sockopt k)) = k_closed k"
  "k_files (snd (sys_sockopt k)) = k_files k"
  by (simp_all add: sys_sockopt_def split: list.split)

section \<open>The send loop\<close>

text \<open>
  The loop \<open>while (off < len) send(...)\<close> that \<open>write_fixed\<close>, \<open>static_on_write\<close>, \<open>sock_send\<close> and
  \<open>flush_100\<close> all have: it goes on after \<open>EINTR\<close> and partial writes, stops at \<open>EAGAIN\<close>, and
  gives up on an error or a call that returns 0. The result is how it stopped and the new offset.
\<close>

datatype send_end = Send_All | Send_Again | Send_Dead

lemma sys_send_progress:
  "sys_send fd bs k = (a, k') \<Longrightarrow> a \<noteq> Wr_Again \<Longrightarrow> length (k_writes k' fd) < length (k_writes k fd)"
  by (auto simp: sys_send_def split: list.splits write_answer.splits)

function send_loop ::
  "int \<Rightarrow> byte list \<Rightarrow> nat \<Rightarrow> 'a kernel_scheme \<Rightarrow> send_end \<times> nat \<times> 'a kernel_scheme" where
  "send_loop fd data off k =
     (if off < length data then
        (case sys_send fd (drop off data) k of
           (Wr n, k') \<Rightarrow> if n = 0 then (Send_Dead, off, k') else send_loop fd data (off + n) k'
         | (Wr_Intr, k') \<Rightarrow> send_loop fd data off k'
         | (Wr_Again, k') \<Rightarrow> (Send_Again, off, k')
         | (Wr_Err, k') \<Rightarrow> (Send_Dead, off, k'))
      else (Send_All, off, k))"
  by pat_completeness auto

termination
  by (relation "measure (\<lambda>(fd, _, _, k). length (k_writes k fd))") (auto intro: sys_send_progress [OF sym])

declare send_loop.simps [simp del, evals]

text \<open>What a call or a loop may do to the rest of the machine: nothing but write to \<open>fd\<close>.\<close>

definition only_sends :: "int \<Rightarrow> 'a kernel_scheme \<Rightarrow> 'a kernel_scheme \<Rightarrow> bool" where
  "only_sends fd k k' = (k_reads k' = k_reads k \<and> k_closed k' = k_closed k \<and> k_files k' = k_files k
     \<and> k_sockets k' = k_sockets k \<and> k_connects k' = k_connects k \<and> k_epolls k' = k_epolls k
     \<and> k_sockopts k' = k_sockopts k \<and> kernel.more k' = kernel.more k
     \<and> (\<forall>f. f \<noteq> fd \<longrightarrow> k_writes k' f = k_writes k f \<and> k_sent k' f = k_sent k f))"

lemma only_sends_refl [simp]: "only_sends fd k k"
  by (simp add: only_sends_def)

lemma only_sends_trans: "only_sends fd k k' \<Longrightarrow> only_sends fd k' k'' \<Longrightarrow> only_sends fd k k''"
  by (simp add: only_sends_def)

lemma sys_send_effect:
  "sys_send fd bs k = (a, k') \<Longrightarrow> only_sends fd k k'
     \<and> k_sent k' fd = k_sent k fd @ (case a of Wr n \<Rightarrow> take n bs | _ \<Rightarrow> [])
     \<and> (\<forall>n. a = Wr n \<longrightarrow> n \<le> length bs)"
  by (auto simp: sys_send_def only_sends_def min_def split: list.splits write_answer.splits)

text \<open>
  The loop hands over exactly the bytes between the two offsets, once and in order, and it says
  \<open>Send_All\<close> just when nothing is left.
\<close>

lemma send_loop_exact:
  "send_loop fd data off k = (r, off', k') \<Longrightarrow> off \<le> length data \<Longrightarrow>
    off \<le> off' \<and> off' \<le> length data \<and> k_sent k' fd = k_sent k fd @ take (off' - off) (drop off data)
    \<and> (r = Send_All \<longleftrightarrow> off' = length data) \<and> only_sends fd k k'"
proof (induction fd data off k arbitrary: r off' k' rule: send_loop.induct)
  case (1 fd data off k)
  show ?case
  proof (cases "off < length data")
    case False
    then show ?thesis using "1.prems" by (simp add: send_loop.simps)
  next
    case True
    obtain a k1 where call: "sys_send fd (drop off data) k = (a, k1)"
      by (cases "sys_send fd (drop off data) k")
    note eff = sys_send_effect [OF call]
    have run: "send_loop fd data off k =
        (case a of Wr n \<Rightarrow> if n = 0 then (Send_Dead, off, k1) else send_loop fd data (off + n) k1
         | Wr_Intr \<Rightarrow> send_loop fd data off k1 | Wr_Again \<Rightarrow> (Send_Again, off, k1)
         | Wr_Err \<Rightarrow> (Send_Dead, off, k1))"
      using True call by (subst send_loop.simps) simp
    show ?thesis
    proof (cases a)
      case (Wr n)
      show ?thesis
      proof (cases "n = 0")
        case True
        then show ?thesis using run "1.prems" Wr eff \<open>off < length data\<close> by auto
      next
        case n: False
        have le: "off + n \<le> length data" using eff Wr True by auto
        note IH = "1.IH"(1) [OF True call [symmetric] Wr n, of r off' k']
        have "send_loop fd data (off + n) k1 = (r, off', k')" using run "1.prems"(1) Wr n by simp
        with IH le have ih: "off + n \<le> off' \<and> off' \<le> length data
            \<and> k_sent k' fd = k_sent k1 fd @ take (off' - (off + n)) (drop (off + n) data)
            \<and> (r = Send_All \<longleftrightarrow> off' = length data) \<and> only_sends fd k1 k'" by blast
        have "take (off' - off) (drop off data) =
            take n (drop off data) @ take (off' - (off + n)) (drop (off + n) data)"
          using ih take_add [of n "off' - (off + n)" "drop off data"] by (simp add: add.commute)
        with ih eff Wr show ?thesis by (auto intro: only_sends_trans)
      qed
    next
      case Wr_Intr
      then have "send_loop fd data off k1 = (r, off', k')" using run "1.prems"(1) by simp
      from "1.IH"(2) [OF True call [symmetric] Wr_Intr this "1.prems"(2)] eff Wr_Intr
      show ?thesis by (auto intro: only_sends_trans)
    qed (use run "1.prems" eff True in auto)
  qed
qed

section \<open>One client connection\<close>

text \<open>
  \<open>http_conn\<close>. The bytes of \<open>header_buf\<close> that are in use are the list \<open>hc_buf\<close>, so \<open>used\<close> is its
  length; \<open>hc_fixed\<close> and \<open>hc_out_hdr\<close> are the bytes the pointers of these names stand for, with
  their lengths; the arena is the one of the slot.
\<close>

record http_conn =
  hc_conn :: connection
  hc_arena :: bump
  hc_buf :: "byte list"
  hc_header_cap :: nat
  hc_read_timeout :: u64
  hc_send_timeout :: u64
  hc_keepalive :: u64
  hc_req :: http_request
  hc_phase :: http_phase
  hc_send_body :: bool
  hc_cork_on :: bool
  hc_keep :: bool
  hc_file_owned :: bool
  hc_status :: u16
  hc_deadline :: u64
  hc_last_active :: u64
  hc_fixed :: "byte list"
  hc_fixed_off :: nat
  hc_out_hdr :: "byte list"
  hc_out_hdr_off :: nat
  hc_file_fd :: int
  hc_file_size :: int
  hc_file_off :: int

abbreviation hc_fd :: "http_conn \<Rightarrow> int" where
  "hc_fd hc \<equiv> c_fd (hc_conn hc)"

definition http_should_keepalive :: "http_request \<Rightarrow> bool" where
  "http_should_keepalive req =
     (if req_method req \<noteq> METHOD_GET \<and> req_method req \<noteq> METHOD_HEAD then False
      else if has_flag req HTTP_FLAG_CONNECTION_CLOSE then False
      else if has_flag req HTTP_FLAG_TRANSFER_ENCODING then False
      else if has_flag req HTTP_FLAG_CONTENT_LENGTH \<and> req_content_length req > 0 then False
      else if req_minor_version req \<ge> 1 then True
      else has_flag req HTTP_FLAG_CONNECTION_KEEP_ALIVE)"

declare http_should_keepalive_def [evals]

text \<open>A connection on descriptor 5 for the examples.\<close>

definition http_conn0 :: http_conn where
  "http_conn0 = \<lparr>hc_conn = \<lparr>c_accept_time = 0, c_ip0 = 0, c_ip1 = 0, c_fd = 5, c_port = 0, c_flags = 0, c_ready = 0\<rparr>,
     hc_arena = \<lparr>bp_offset = 0, bp_size = 12288, bp_mem = 4096\<rparr>, hc_buf = [], hc_header_cap = 4096,
     hc_read_timeout = 10000, hc_send_timeout = 30000, hc_keepalive = 15000,
     hc_req = http_request0\<lparr>req_method := METHOD_GET, req_minor_version := 1\<rparr>,
     hc_phase = PHASE_READ, hc_send_body = False, hc_cork_on = False, hc_keep = False, hc_file_owned = True,
     hc_status = 0, hc_deadline = 10000, hc_last_active = 0, hc_fixed = [], hc_fixed_off = 0, hc_out_hdr = [],
     hc_out_hdr_off = 0, hc_file_fd = - 1, hc_file_size = 0, hc_file_off = 0\<rparr>"

end
