(* ===== verification/Proxy_Headers.thy ===== *)
theory Proxy_Headers
  imports Kernel Http_Grammar Proxy_Chunk
begin

text \<open>
  The header work of \<^verbatim>\<open>src/proxy.c\<close>: \<open>rewrite_request\<close> makes the request that goes upstream,
  \<open>rewrite_response\<close> the response head that goes to the client, together with the framing of the
  body that follows it. A C pointer \<open>p\<close> below its \<open>end\<close> is the list of the bytes from \<open>p\<close> on.
\<close>

section \<open>The proxied connection\<close>

definition PROXY_HDR_MAX :: nat where "PROXY_HDR_MAX = 8192"
definition PROXY_BUF_MAX :: nat where "PROXY_BUF_MAX = 8192"

text \<open>The bits of \<open>flags\<close>, kept as a set.\<close>

datatype px_flag = PX_SEND_100 | PX_CORK | PX_RESP_CL | PX_RESP_CHUNKED | PX_RESP_EOF | PX_BODY_DONE
  | PX_RESP_SENT | PX_UP_CLOSE | PX_CLIENT_KEEP | PX_REUSED | PX_OVERREAD

text \<open>\<open>PX_NONE\<close> is phase 0.\<close>

datatype px_phase = PX_NONE | PX_SEND_REQ | PX_SEND_BODY | PX_RECV_HDR | PX_SEND_RESP | PX_STREAM

text \<open>
  \<open>px_hdr\<close> and \<open>px_buf\<close> are the bytes in use, so \<open>hdr_len\<close> and \<open>buf_len\<close> are their lengths.
  \<open>px_up_addr\<close> is the address with its length: \<open>up_len\<close> is 0 just when it is empty.
\<close>

record proxy_conn = chunk_conn +
  px_fd :: int
  px_phase :: px_phase
  px_armed :: http_io
  px_in_epoll :: bool
  px_cont_off :: nat
  px_flags :: "px_flag set"
  px_status :: u16
  px_up_addr :: "byte list"
  px_hdr :: "byte list"
  px_hdr_off :: nat
  px_buf :: "byte list"
  px_buf_off :: nat
  px_body_off :: nat
  px_body_end :: nat
  px_body_left :: nat
  px_resp_left :: u64

section \<open>Comparing, searching, appending\<close>

definition lower_byte :: "byte \<Rightarrow> byte" where
  "lower_byte c = (if 65 \<le> c \<and> c \<le> 90 then c - 65 + 97 else c)"

text \<open>\<open>ieq(a, b, n)\<close> for names of \<open>n\<close> bytes; the callers compare the lengths first.\<close>

definition ieq :: "byte list \<Rightarrow> string \<Rightarrow> bool" where
  "ieq a lit = (map lower_byte a = bytes lit)"

fun px_find_crlf :: "byte list \<Rightarrow> nat option" where
  "px_find_crlf (a # b # s) =
     (if a = CR \<and> b = LF then Some 0 else map_option Suc (px_find_crlf (b # s)))"
| "px_find_crlf _ = None"

definition named :: "byte list \<Rightarrow> nat \<Rightarrow> string \<Rightarrow> bool" where
  "named name n lit = (length name = n \<and> ieq name lit)"

definition hop_by_hop :: "byte list \<Rightarrow> bool \<Rightarrow> bool" where
  "hop_by_hop name request =
     (if named name 10 ''connection'' then True
      else if named name 10 ''keep-alive'' then True
      else if named name 16 ''proxy-connection'' then True
      else if named name 7 ''upgrade'' then True
      else if named name 2 ''te'' then True
      else if named name 7 ''trailer'' then True
      else if request \<and> named name 6 ''expect'' then True
      else if request \<and> named name 17 ''transfer-encoding'' then True
      else False)"

text \<open>\<open>append_bytes\<close> into a buffer of \<open>PROXY_HDR_MAX\<close> bytes of which \<open>dst\<close> is in use.\<close>

definition append_bytes :: "byte list \<Rightarrow> byte list \<Rightarrow> byte list option" where
  "append_bytes dst s = (if length s > PROXY_HDR_MAX - length dst then None else Some (dst @ s))"

definition CONNECTION_CLOSE :: "byte list" where
  "CONNECTION_CLOSE = bytes ''Connection: close'' @ [CR, LF, CR, LF]"

definition CONNECTION_KEEP :: "byte list" where
  "CONNECTION_KEEP = bytes ''Connection: keep-alive'' @ [CR, LF, CR, LF]"

section \<open>The request\<close>

text \<open>One line, up to its CRLF at offset \<open>e\<close>: the header so far goes on unless it is dropped.\<close>

definition request_line_out :: "byte list \<Rightarrow> nat \<Rightarrow> byte list \<Rightarrow> byte list option" where
  "request_line_out s e out =
     (case memchr s 0 e 58 of
        None \<Rightarrow> None
      | Some colon \<Rightarrow>
          if \<not> hop_by_hop (take colon s) True then append_bytes out (take (e + 2) s) else Some out)"

lemma px_find_crlf_bounds: "px_find_crlf s = Some e \<Longrightarrow> e + 2 \<le> length s"
  by (induction s arbitrary: e rule: px_find_crlf.induct) (auto split: if_splits)

function request_lines :: "byte list \<Rightarrow> byte list \<Rightarrow> byte list option" where
  "request_lines s out =
     (if s = [] then Some out
      else if 2 \<le> length s \<and> s ! 0 = CR \<and> s ! 1 = LF then Some out
      else
        (case px_find_crlf s of
           None \<Rightarrow> None
         | Some e \<Rightarrow>
             (case request_line_out s e out of
                None \<Rightarrow> None
              | Some out' \<Rightarrow> request_lines (drop (e + 2) s) out')))"
  by pat_completeness auto
termination
  by (relation "measure (\<lambda>(s, _). length s)") (auto dest: px_find_crlf_bounds)

declare request_lines.simps [simp del]

text \<open>
  \<open>rewrite_request\<close> on the request's bytes and the length of its header section; the result is
  what \<open>px->hdr\<close> holds, \<open>None\<close> for \<open>-1\<close>.
\<close>

definition rewrite_request :: "byte list \<Rightarrow> nat \<Rightarrow> byte list option" where
  "rewrite_request buf header_bytes =
     (let p = take header_bytes buf in
      case px_find_crlf p of
        None \<Rightarrow> None
      | Some e \<Rightarrow>
          (case append_bytes [] (take (e + 2) p) of
             None \<Rightarrow> None
           | Some out \<Rightarrow>
               (case request_lines (drop (e + 2) p) out of
                  None \<Rightarrow> None
                | Some out' \<Rightarrow> append_bytes out' CONNECTION_KEEP)))"

text \<open>\<open>expects_continue\<close>: the loop over the header block. A line without a colon is passed over.\<close>

definition is_expect_line :: "byte list \<Rightarrow> nat \<Rightarrow> bool" where
  "is_expect_line s e =
     (case memchr s 0 e 58 of
        None \<Rightarrow> False
      | Some colon \<Rightarrow> named (take colon s) 6 ''expect''
          \<and> named (trim_ows (drop (colon + 1) (take e s))) 12 ''100-continue'')"

function expect_loop :: "byte list \<Rightarrow> bool" where
  "expect_loop s =
     (if s = [] then False
      else
        (case px_find_crlf s of
           None \<Rightarrow> False
         | Some e \<Rightarrow> if is_expect_line s e then True else expect_loop (drop (e + 2) s)))"
  by pat_completeness auto
termination
  by (relation "measure length") (auto dest: px_find_crlf_bounds)

declare expect_loop.simps [simp del]

definition expects_continue :: "byte list \<Rightarrow> http_request \<Rightarrow> bool" where
  "expects_continue buf req = expect_loop (slice_of buf (req_header_block req))"

section \<open>The response\<close>

fun u64_loop :: "byte list \<Rightarrow> u64 \<Rightarrow> u64 option" where
  "u64_loop [] v = Some v"
| "u64_loop (c # cs) v =
     (if \<not> is_digit c then None
      else let d = ucast (c - 48) in
        if v > (- 1 - d) div 10 then None else u64_loop cs (v * 10 + d))"

definition parse_u64 :: "byte list \<Rightarrow> u64 option" where
  "parse_u64 p = (if p = [] then None else u64_loop p 0)"

definition value_is_chunked :: "byte list \<Rightarrow> bool" where
  "value_is_chunked v = named (trim_ows v) 7 ''chunked''"

function header_has_token :: "byte list \<Rightarrow> string \<Rightarrow> bool" where
  "header_has_token v tok =
     (if v = [] then False
      else
        let s = dropWhile (\<lambda>c. c = 32 \<or> c = 9 \<or> c = 44) v;
            t = rev (dropWhile is_ows (rev (takeWhile (\<lambda>c. c \<noteq> 44) s)))
        in if named t (length tok) tok then True
           else header_has_token (dropWhile (\<lambda>c. c \<noteq> 44) s) tok)"
  by pat_completeness auto
termination
proof (relation "measure (\<lambda>(v, _). length v)", goal_cases)
  case (2 v tok s t)
  have le: "length (dropWhile P xs) \<le> length xs" for P and xs :: "byte list" by (rule length_dropWhile_le)
  show ?case
  proof (cases v)
    case (Cons c cs)
    show ?thesis
    proof (cases "c = 32 \<or> c = 9 \<or> c = 44")
      case True
      then have "length s \<le> length cs" using 2 Cons le by auto
      then show ?thesis using Cons le [of "\<lambda>c. c \<noteq> 44" s] by simp
    next
      case False
      then have "s = c # cs" "c \<noteq> 44" using 2 Cons by auto
      then show ?thesis using Cons le [of "\<lambda>c. c \<noteq> 44" cs] by simp
    qed
  qed (use 2 in simp)
qed simp

declare header_has_token.simps [simp del]

text \<open>The status code of the line up to \<open>eol\<close>, \<open>None\<close> for a line that is refused.\<close>

definition response_code :: "byte list \<Rightarrow> nat \<Rightarrow> nat option" where
  "response_code src eol =
     (if eol < 12 then None
      else if take 7 src \<noteq> bytes ''HTTP/1.'' then None
      else
        (case memchr src 0 eol 32 of
           None \<Rightarrow> None
         | Some sp \<Rightarrow>
             if eol - (sp + 1) < 3 then None
             else if \<not> is_digit (src ! (sp + 1)) \<or> \<not> is_digit (src ! (sp + 2)) \<or> \<not> is_digit (src ! (sp + 3))
               then None
             else if sp + 4 < eol \<and> src ! (sp + 4) \<noteq> 32 \<and> src ! (sp + 4) \<noteq> 13 then None
             else Some (unat (src ! (sp + 1) - 48) * 100 + unat (src ! (sp + 2) - 48) * 10
               + unat (src ! (sp + 3) - 48))))"

text \<open>The local variables of the header loop; \<open>sc_hdr\<close> is \<open>px->hdr\<close> up to \<open>len\<close>.\<close>

record resp_scan =
  sc_hdr :: "byte list"
  sc_saw_cl :: bool
  sc_saw_te :: bool
  sc_up_close :: bool
  sc_up_ka :: bool

text \<open>What a header means: the framing and the state of the upstream connection.\<close>

definition response_field ::
  "byte list \<Rightarrow> byte list \<Rightarrow> proxy_conn \<Rightarrow> resp_scan \<Rightarrow> (proxy_conn \<times> resp_scan) option" where
  "response_field name v px sc =
     (if named name 14 ''content-length'' then
        if sc_saw_cl sc then None
        else (case parse_u64 v of
                None \<Rightarrow> None
              | Some cl \<Rightarrow> Some (px\<lparr>px_resp_left := cl, px_flags := insert PX_RESP_CL (px_flags px)\<rparr>,
                  sc\<lparr>sc_saw_cl := True\<rparr>))
      else if named name 17 ''transfer-encoding'' then
        if sc_saw_te sc \<or> \<not> value_is_chunked v then None
        else Some (px\<lparr>px_flags := insert PX_RESP_CHUNKED (px_flags px)\<rparr>, sc\<lparr>sc_saw_te := True\<rparr>)
      else if named name 10 ''connection'' then
        Some (px, sc\<lparr>sc_up_close := sc_up_close sc \<or> header_has_token v ''close'',
                    sc_up_ka := sc_up_ka sc \<or> header_has_token v ''keep-alive''\<rparr>)
      else Some (px, sc))"

definition response_line ::
  "byte list \<Rightarrow> nat \<Rightarrow> proxy_conn \<Rightarrow> resp_scan \<Rightarrow> (proxy_conn \<times> resp_scan) option" where
  "response_line s e px sc =
     (case memchr s 0 e 58 of
        None \<Rightarrow> None
      | Some colon \<Rightarrow>
          (case response_field (take colon s) (trim_ows (drop (colon + 1) (take e s))) px sc of
             None \<Rightarrow> None
           | Some (px', sc') \<Rightarrow>
               if \<not> hop_by_hop (take colon s) False then
                 (case append_bytes (sc_hdr sc') (take (e + 2) s) of
                    None \<Rightarrow> None
                  | Some out \<Rightarrow> Some (px', sc'\<lparr>sc_hdr := out\<rparr>))
               else Some (px', sc')))"

function response_lines ::
  "byte list \<Rightarrow> proxy_conn \<Rightarrow> resp_scan \<Rightarrow> (proxy_conn \<times> resp_scan) option" where
  "response_lines s px sc =
     (if length s < 2 then Some (px, sc)
      else if s ! 0 = CR \<and> s ! 1 = LF then Some (px, sc)
      else
        (case px_find_crlf s of
           None \<Rightarrow> None
         | Some e \<Rightarrow>
             (case response_line s e px sc of
                None \<Rightarrow> None
              | Some (px', sc') \<Rightarrow> response_lines (drop (e + 2) s) px' sc')))"
  by pat_completeness auto
termination
  by (relation "measure (\<lambda>(s, _, _). length s)") (auto dest: px_find_crlf_bounds)

declare response_lines.simps [simp del]

text \<open>After the loop: the framing that remains, and the \<open>Connection\<close> headers on both sides.\<close>

definition response_framing :: "nat \<Rightarrow> proxy_conn \<Rightarrow> proxy_conn" where
  "response_framing code px =
     (if code = 204 \<or> code = 304 then px\<lparr>px_flags := insert PX_BODY_DONE (px_flags px)\<rparr>
      else if PX_RESP_CL \<notin> px_flags px \<and> PX_RESP_CHUNKED \<notin> px_flags px then
        px\<lparr>px_flags := insert PX_RESP_EOF (px_flags px)\<rparr>
      else if PX_RESP_CL \<in> px_flags px \<and> px_resp_left px = 0 then
        px\<lparr>px_flags := insert PX_BODY_DONE (px_flags px)\<rparr>
      else px)"

definition response_connection :: "http_request \<Rightarrow> bool \<Rightarrow> proxy_conn \<Rightarrow> resp_scan \<Rightarrow> proxy_conn option" where
  "response_connection req http10 px sc =
     (let px = (if (http10 \<and> \<not> sc_up_ka sc) \<or> sc_up_close sc
                then px\<lparr>px_flags := insert PX_UP_CLOSE (px_flags px)\<rparr> else px);
          px = (if http_should_keepalive req then px\<lparr>px_flags := insert PX_CLIENT_KEEP (px_flags px)\<rparr> else px)
      in (case append_bytes (sc_hdr sc)
              (if PX_CLIENT_KEEP \<in> px_flags px then CONNECTION_KEEP else CONNECTION_CLOSE) of
            None \<Rightarrow> None
          | Some hdr \<Rightarrow> Some (px\<lparr>px_hdr := hdr, px_hdr_off := 0\<rparr>)))"

definition response_reset :: "nat \<Rightarrow> proxy_conn \<Rightarrow> proxy_conn" where
  "response_reset code px = px\<lparr>px_status := word_of_nat code,
     px_flags := px_flags px - {PX_RESP_CL, PX_RESP_CHUNKED, PX_RESP_EOF, PX_BODY_DONE},
     px_resp_left := 0, chunk_state := CH_SIZE, saw_digit := False, chunk_size := 0\<rparr>"

text \<open>
  \<open>rewrite_response\<close> on the bytes of a response head, its empty line included. The result is
  \<open>None\<close> for \<open>-1\<close>; otherwise whether the block is an informational one to be skipped, and the
  connection. After \<open>-1\<close> the only caller closes the upstream and resets the connection, so the
  fields the code has written by then are not kept.
\<close>

definition rewrite_response :: "http_request \<Rightarrow> proxy_conn \<Rightarrow> byte list \<Rightarrow> (bool \<times> proxy_conn) option" where
  "rewrite_response req px src =
     (case px_find_crlf src of
        None \<Rightarrow> None
      | Some eol \<Rightarrow>
          (case response_code src eol of
             None \<Rightarrow> None
           | Some code \<Rightarrow>
               if 100 \<le> code \<and> code < 200 then if code = 101 then None else Some (True, px)
               else
                 (case append_bytes [] (take (eol + 2) src) of
                    None \<Rightarrow> None
                  | Some out \<Rightarrow>
                      (case response_lines (drop (eol + 2) src) (response_reset code px)
                          \<lparr>sc_hdr = out, sc_saw_cl = False, sc_saw_te = False, sc_up_close = False,
                           sc_up_ka = False\<rparr> of
                         None \<Rightarrow> None
                       | Some (px', sc) \<Rightarrow>
                           if PX_RESP_CL \<in> px_flags px' \<and> PX_RESP_CHUNKED \<in> px_flags px' then None
                           else map_option (Pair False)
                             (response_connection req (src ! 7 = 48) (response_framing code px') sc)))))"

definition find_hdr_end :: "byte list \<Rightarrow> nat option" where
  "find_hdr_end b = find (\<lambda>i. b ! i = CR \<and> b ! (i + 1) = LF \<and> b ! (i + 2) = CR \<and> b ! (i + 3) = LF)
     [0..<length b - 3]"

text \<open>\<open>note_body\<close>: framing of the last \<open>n\<close> bytes of the buffer, which is cut at the end of the body.\<close>

definition note_body :: "proxy_conn \<Rightarrow> nat \<Rightarrow> proxy_conn option" where
  "note_body px n =
     (if n = 0 \<or> PX_BODY_DONE \<in> px_flags px then Some px
      else if PX_RESP_CHUNKED \<in> px_flags px then
        (let base = length (px_buf px) - n in
         case chunk_feed px (drop base (px_buf px)) of
           (px', c, fin, bad) \<Rightarrow>
             if bad then None
             else
               let px' = (if c < n then px'\<lparr>px_buf := take (base + c) (px_buf px'),
                            px_flags := insert PX_OVERREAD (px_flags px')\<rparr> else px')
               in Some (if fin then px'\<lparr>px_flags := insert PX_BODY_DONE (px_flags px')\<rparr> else px'))
      else if PX_RESP_CL \<in> px_flags px then
        (let px' = (if n > unat (px_resp_left px)
                    then px\<lparr>px_flags := insert PX_OVERREAD (px_flags px),
                      px_buf := take (length (px_buf px) - (n - unat (px_resp_left px))) (px_buf px)\<rparr>
                    else px);
             m = min n (unat (px_resp_left px));
             px' = px'\<lparr>px_resp_left := px_resp_left px - word_of_nat m\<rparr>
         in Some (if px_resp_left px' = 0 then px'\<lparr>px_flags := insert PX_BODY_DONE (px_flags px')\<rparr> else px'))
      else Some px)"

end
