(* ===== verification/Proxy_Forward.thy ===== *)
theory Proxy_Forward
  imports Proxy_Headers
begin

text \<open>
  What the proxy forwards, in terms of messages instead of bytes: requests and response heads are
  lists of headers (\<open>render_headers\<close> of \<open>Http_Grammar\<close>), and the rewriting is a filter on them.
\<close>

section \<open>Names and values\<close>

lemma lower_byte_eq: "lower_byte = ascii_lower"
  by (rule ext) (simp add: lower_byte_def ascii_lower_def algebra_simps)

lemma named_iff: "length lit = n \<Longrightarrow> named name n lit \<longleftrightarrow> lower name = bytes lit"
  using map_eq_imp_length_eq [of ascii_lower name] by (auto simp: named_def ieq_def lower_def lower_byte_eq bytes_def)

definition hop_names :: "bool \<Rightarrow> byte list set" where
  "hop_names request =
     bytes ` ({''connection'', ''keep-alive'', ''proxy-connection'', ''upgrade'', ''te'', ''trailer''}
       \<union> (if request then {''expect'', ''transfer-encoding''} else {}))"

lemma hop_by_hop_iff: "hop_by_hop name request \<longleftrightarrow> lower name \<in> hop_names request"
  unfolding hop_by_hop_def by (simp add: named_iff hop_names_def)

lemma u64_guard:
  fixes v d :: u64
  assumes "unat d \<le> 9"
  shows "(- 1 - d) div 10 < v \<longleftrightarrow> 2 ^ 64 \<le> unat v * 10 + unat d"
    and "unat v * 10 + unat d < 2 ^ 64 \<Longrightarrow> unat (v * 10 + d) = unat v * 10 + unat d"
proof -
  have m: "unat (- 1 :: u64) = 2 ^ 64 - 1"
    by (simp add: unsigned_minus_1_eq_mask mask_eq_exp_minus_1)
  have "d \<le> - 1" by simp
  then have "unat (- 1 - d) = 2 ^ 64 - 1 - unat d" by (simp only: unat_sub m)
  then show "(- 1 - d) div 10 < v \<longleftrightarrow> 2 ^ 64 \<le> unat v * 10 + unat d"
    using assms by (simp add: word_less_nat_alt unat_div) arith
  show "unat (v * 10 + d) = unat v * 10 + unat d" if "unat v * 10 + unat d < 2 ^ 64"
    using that by (simp add: unat_word_ariths)
qed

lemma unat_digit_64: "is_digit c \<Longrightarrow> unat (ucast (c - 48) :: u64) = unat c - 48 \<and> unat c - 48 \<le> 9"
proof -
  assume "is_digit c"
  then have c: "48 \<le> unat c" "unat c \<le> 57" by (simp_all add: is_digit_def word_le_nat_alt)
  then have "unat (c - 48) = unat c - 48" by (simp add: unat_sub word_le_nat_alt)
  with c show ?thesis by (simp add: unsigned_ucast_eq take_bit_nat_eq_self_iff) linarith
qed

lemma u64_loop_eq:
  "u64_loop p v =
     (let n = foldl (\<lambda>v c. v * 10 + (unat c - 48)) (unat v) p in
      if list_all is_digit p \<and> n < 2 ^ 64 then Some (word_of_nat n) else None)"
proof (induction p v rule: u64_loop.induct)
  case (1 v)
  have "unat v < 2 ^ 64" using unsigned_less [of v, where ?'a = nat] by simp
  then show ?case by (simp add: Let_def)
next
  case (2 c cs v)
  show ?case
  proof (cases "is_digit c")
    case True
    let ?d = "ucast (c - 48) :: u64"
    note d = unat_digit_64 [OF True] and guard = u64_guard [of ?d v]
    show ?thesis
    proof (cases "v > (- 1 - ?d) div 10")
      case over: True
      then have "2 ^ 64 \<le> unat v * 10 + (unat c - 48)" using guard d by simp
      then have "\<not> foldl (\<lambda>v c. v * 10 + (unat c - 48)) (unat v * 10 + (unat c - 48)) cs < 2 ^ 64"
        using foldl_decimal_mono [of "unat v * 10 + (unat c - 48)" cs] by linarith
      with over True show ?thesis by (simp add: Let_def)
    next
      case False
      with guard d have "unat (v * 10 + ?d) = unat v * 10 + (unat c - 48)" by simp
      with "2.IH" [of ?d] False True show ?thesis by (simp add: Let_def)
    qed
  qed simp
qed

lemma parse_u64_eq:
  "parse_u64 p = (if p \<noteq> [] \<and> list_all is_digit p \<and> decimal p < 2 ^ 64 then Some (word_of_nat (decimal p)) else None)"
  by (simp add: parse_u64_def u64_loop_eq decimal_def Let_def)

section \<open>One header line on the wire\<close>

lemma px_find_crlf_hit: "CR \<notin> set xs \<Longrightarrow> px_find_crlf (xs @ CR # LF # ys) = Some (length xs)"
proof (induction xs)
  case (Cons x xs)
  then show ?case by (cases "xs @ CR # LF # ys") auto
qed simp

lemma not_blank_line: "CR \<notin> set xs \<Longrightarrow> xs \<noteq> [] \<Longrightarrow> (xs @ ys) ! 0 \<noteq> CR"
  by (cases xs) auto

lemma trim_ows_id: "v \<noteq> [] \<longrightarrow> \<not> is_ows (hd v) \<and> \<not> is_ows (last v) \<Longrightarrow> trim_ows v = v"
proof -
  have keep: "dropWhile is_ows xs = xs" if "xs \<noteq> [] \<longrightarrow> \<not> is_ows (hd xs)" for xs
    using that by (cases xs) auto
  assume "v \<noteq> [] \<longrightarrow> \<not> is_ows (hd v) \<and> \<not> is_ows (last v)"
  then have "dropWhile is_ows v = v" "dropWhile is_ows (rev v) = rev v"
    by (auto intro!: keep simp: hd_rev)
  then show ?thesis by (simp add: trim_ows_def)
qed

lemma header_wire:
  assumes "wf_header h"
  shows "px_find_crlf (render_header h @ CR # LF # ys) = Some (length (render_header h))"
    "memchr (render_header h @ CR # LF # ys) 0 (length (render_header h)) 58 = Some (length (fst h))"
    "take (length (fst h)) (render_header h @ zs) = fst h"
    "trim_ows (drop (length (fst h) + 1) (render_header h)) = snd h"
    "(render_header h @ zs) ! 0 \<noteq> CR" "2 \<le> length (render_header h)" "render_header h \<noteq> []"
proof -
  have n: "fst h \<noteq> []" "list_all is_tchar (fst h)" and v: "snd h \<noteq> [] \<longrightarrow> \<not> is_ows (hd (snd h)) \<and> \<not> is_ows (last (snd h))"
    using assms by (auto simp: wf_header_def)
  note cr = render_header_no_CR [OF assms]
  show "px_find_crlf (render_header h @ CR # LF # ys) = Some (length (render_header h))"
    using px_find_crlf_hit cr by simp
  show "memchr (render_header h @ CR # LF # ys) 0 (length (render_header h)) 58 = Some (length (fst h))"
    using header_part(1) [of "render_header h @ CR # LF # ys" "[]" h "CR # LF # ys"] assms by simp
  show "take (length (fst h)) (render_header h @ zs) = fst h" by (simp add: render_header_def)
  have "trim_ows (32 # snd h) = trim_ows (snd h)" by (simp add: trim_ows_def is_ows_def)
  with trim_ows_id [OF v] show "trim_ows (drop (length (fst h) + 1) (render_header h)) = snd h"
    by (simp add: render_header_def)
  show "(render_header h @ zs) ! 0 \<noteq> CR" using not_blank_line cr by simp
  show "2 \<le> length (render_header h)" "render_header h \<noteq> []" by (simp_all add: render_header_def)
qed

section \<open>The forwarded request\<close>

text \<open>The headers that stay, and appending with the bound of the buffer.\<close>

definition end_to_end :: "bool \<Rightarrow> (byte list \<times> byte list) list \<Rightarrow> (byte list \<times> byte list) list" where
  "end_to_end request hs = filter (\<lambda>h. lower (fst h) \<notin> hop_names request) hs"

definition fit :: "byte list \<Rightarrow> byte list option" where
  "fit out = (if length out \<le> PROXY_HDR_MAX then Some out else None)"

lemma append_bytes_fit: "length out \<le> PROXY_HDR_MAX \<Longrightarrow> append_bytes out s = fit (out @ s)"
  by (auto simp: append_bytes_def fit_def)

lemma fit_None_append: "fit out = None \<Longrightarrow> fit (out @ s) = None"
  by (auto simp: fit_def split: if_splits)

lemma fit_Some: "fit out = Some x \<longleftrightarrow> x = out \<and> length out \<le> PROXY_HDR_MAX"
  by (auto simp: fit_def)

lemma request_lines_render:
  assumes "list_all wf_header hs" and "length out \<le> PROXY_HDR_MAX"
  shows "request_lines (render_headers hs @ [CR, LF]) out = fit (out @ render_headers (end_to_end True hs))"
  using assms
proof (induction hs arbitrary: out)
  case Nil
  then show ?case by (subst request_lines.simps) (simp add: end_to_end_def fit_def)
next
  case (Cons h hs)
  have wf: "wf_header h" using Cons.prems by simp
  let ?r = "render_header h" and ?rest = "render_headers hs @ [CR, LF]"
  have step: "request_lines (render_headers (h # hs) @ [CR, LF]) out =
      (case request_line_out (?r @ CR # LF # ?rest) (length ?r) out of
         None \<Rightarrow> None | Some out' \<Rightarrow> request_lines ?rest out')"
    using header_wire [OF wf] by (subst request_lines.simps) (simp split: option.split)
  show ?case
  proof (cases "lower (fst h) \<in> hop_names True")
    case True
    then have "request_line_out (?r @ CR # LF # ?rest) (length ?r) out = Some out"
      using header_wire [OF wf] by (simp add: request_line_out_def hop_by_hop_iff)
    with step Cons True show ?thesis by (simp add: end_to_end_def)
  next
    case False
    then have "request_line_out (?r @ CR # LF # ?rest) (length ?r) out = fit (out @ ?r @ [CR, LF])"
      using header_wire [OF wf] Cons.prems(2)
      by (simp add: request_line_out_def hop_by_hop_iff append_bytes_fit)
    with step False Cons.IH [of "out @ ?r @ [CR, LF]"] Cons.prems
      fit_None_append [of "out @ ?r @ [CR, LF]" "render_headers (end_to_end True hs)"]
    show ?thesis by (auto simp: end_to_end_def fit_Some split: option.split)
  qed
qed

text \<open>The request that goes upstream: the client's without its connection headers, kept open.\<close>

definition keep_alive_header :: "byte list \<times> byte list" where
  "keep_alive_header = (bytes ''Connection'', bytes ''keep-alive'')"

definition forwarded :: "abs_request \<Rightarrow> abs_request" where
  "forwarded a = a\<lparr>a_headers := end_to_end True (a_headers a) @ [keep_alive_header]\<rparr>"

lemma render_headers_append [simp]: "render_headers (xs @ ys) = render_headers xs @ render_headers ys"
  by (simp add: render_headers_def)

lemma CONNECTION_KEEP_render: "CONNECTION_KEEP = render_headers [keep_alive_header] @ [CR, LF]"
  by (simp add: CONNECTION_KEEP_def keep_alive_header_def render_header_def bytes_def)

lemma render_forwarded:
  "render_request (forwarded a) = render_line a @ [CR, LF] @ render_headers (end_to_end True (a_headers a)) @ CONNECTION_KEEP"
  by (simp add: render_request_def forwarded_def CONNECTION_KEEP_render render_line_def render_target_def)

lemma rewrite_request_render:
  assumes wf: "wf_request a"
  shows "rewrite_request (render_request a @ rest) (length (render_request a)) = fit (render_request (forwarded a))"
proof -
  let ?l = "render_line a" and ?hs = "render_headers (a_headers a) @ [CR, LF]"
  have "take (length (render_request a)) (render_request a @ rest) = render_request a" by simp
  then have p: "take (length (render_request a)) (render_request a @ rest) = ?l @ CR # LF # ?hs"
    by (simp only: render_request_def append_Cons append_Nil append_assoc)
  have line: "px_find_crlf (?l @ CR # LF # ?hs) = Some (length ?l)"
    by (rule px_find_crlf_hit [OF render_line_no_CR [OF wf]])
  have hs: "list_all wf_header (a_headers a)" using wf by (simp add: wf_request_def)
  let ?e = "render_headers (end_to_end True (a_headers a))"
  show ?thesis
  proof (cases "fit (?l @ [CR, LF])")
    case None
    then show ?thesis
      using fit_None_append [OF None, of "?e @ CONNECTION_KEEP"]
      unfolding rewrite_request_def p by (simp add: line append_bytes_fit [of "[]"] render_forwarded)
  next
    case (Some x)
    then have len: "length (?l @ [CR, LF]) \<le> PROXY_HDR_MAX" by (simp add: fit_Some)
    have "request_lines ?hs (?l @ [CR, LF]) = fit (?l @ [CR, LF] @ ?e)"
      using request_lines_render [OF hs len] by simp
    moreover have "append_bytes [] (?l @ [CR, LF]) = Some (?l @ [CR, LF])"
      using len by (simp add: append_bytes_def)
    moreover have "(case fit (?l @ [CR, LF] @ ?e) of None \<Rightarrow> None | Some out \<Rightarrow> append_bytes out CONNECTION_KEEP)
        = fit ((?l @ [CR, LF] @ ?e) @ CONNECTION_KEEP)"
      using fit_None_append [of "?l @ [CR, LF] @ ?e" CONNECTION_KEEP]
      by (auto simp: fit_Some append_bytes_fit split: option.split)
    ultimately show ?thesis unfolding rewrite_request_def p by (simp add: line render_forwarded)
  qed
qed

text \<open>
  C20. The request that goes upstream. For every well-formed request, whatever follows it in the
  buffer, \<open>rewrite_request\<close> produces the rendering of the same request line with the end-to-end
  headers, in their order, and \<open>Connection: keep-alive\<close>; it fails just when that does not fit
  \<open>PROXY_HDR_MAX\<close> bytes. No connection header of the client is forwarded and no other is lost.
\<close>

theorem rewrite_request_forwards:
  assumes "wf_request a"
  shows "rewrite_request (render_request a @ rest) (length (render_request a)) =
    (if length (render_request (forwarded a)) \<le> PROXY_HDR_MAX then Some (render_request (forwarded a)) else None)"
  using rewrite_request_render [OF assms] by (simp add: fit_def)

text \<open>\<open>GET / HTTP/1.1\<close> with \<open>Host\<close>, \<open>TE\<close> and \<open>Connection: close\<close>.\<close>

definition hop_sample :: abs_request where
  "hop_sample = \<lparr>a_method = bytes ''GET'', a_path = bytes ''/'', a_query = None, a_minor = 1,
     a_headers = [(bytes ''Host'', bytes ''h''), (bytes ''TE'', bytes ''x''), (bytes ''Connection'', bytes ''close'')]\<rparr>"

lemma rewrite_request_forwards_witness:
  "rewrite_request (render_request hop_sample @ [65]) (length (render_request hop_sample)) =
    Some (bytes ''GET / HTTP/1.1'' @ [CR, LF] @ bytes ''Host: h'' @ [CR, LF] @ CONNECTION_KEEP)"
proof -
  have wf: "wf_request hop_sample"
    by (simp add: hop_sample_def wf_request_def wf_header_def render_request_def render_line_def render_target_def
        render_headers_def render_header_def bytes_def is_tchar_def is_target_char_def is_field_vchar_def
        is_ows_def HTTP_PARSE_MAX_LEN_def)
  have out: "render_request (forwarded hop_sample) =
      bytes ''GET / HTTP/1.1'' @ [CR, LF] @ bytes ''Host: h'' @ [CR, LF] @ CONNECTION_KEEP"
    by (simp add: hop_sample_def render_request_def render_line_def render_target_def
        render_headers_def render_header_def forwarded_def end_to_end_def hop_names_def keep_alive_header_def
        lower_def ascii_lower_def bytes_def CONNECTION_KEEP_def)
  show ?thesis
    using rewrite_request_forwards [OF wf, of "[65]"] unfolding out
    by (simp add: PROXY_HDR_MAX_def CONNECTION_KEEP_def bytes_def)
qed

section \<open>The forwarded response head\<close>

text \<open>The header loop on rendered headers.\<close>

fun response_fields ::
  "(byte list \<times> byte list) list \<Rightarrow> proxy_conn \<Rightarrow> resp_scan \<Rightarrow> (proxy_conn \<times> resp_scan) option" where
  "response_fields [] px sc = Some (px, sc)"
| "response_fields (h # hs) px sc =
     (case response_field (fst h) (snd h) px sc of
        None \<Rightarrow> None
      | Some (px', sc') \<Rightarrow> response_fields hs px' sc')"

text \<open>\<open>response_field\<close> neither reads nor writes the bytes collected so far.\<close>

lemma response_field_hdr:
  "response_field n v px (sc\<lparr>sc_hdr := out\<rparr>) =
    map_option (\<lambda>(px', sc'). (px', sc'\<lparr>sc_hdr := out\<rparr>)) (response_field n v px sc)"
  by (auto simp: response_field_def split: option.split)

lemma response_field_keeps: "response_field n v px sc = Some (px', sc') \<Longrightarrow> sc_hdr sc' = sc_hdr sc"
  by (auto simp: response_field_def split: if_splits option.splits)

lemma response_fields_hdr:
  "response_fields hs px (sc\<lparr>sc_hdr := out\<rparr>) =
    map_option (\<lambda>(px', sc'). (px', sc'\<lparr>sc_hdr := out\<rparr>)) (response_fields hs px sc)"
  by (induction hs arbitrary: px sc) (auto simp: response_field_hdr split: option.split)

lemma response_lines_render:
  assumes "list_all wf_header hs" and "length (sc_hdr sc) \<le> PROXY_HDR_MAX"
  shows "response_lines (render_headers hs @ [CR, LF]) px sc =
    (case response_fields hs px sc of
       None \<Rightarrow> None
     | Some (px', sc') \<Rightarrow>
         map_option (\<lambda>out. (px', sc'\<lparr>sc_hdr := out\<rparr>)) (fit (sc_hdr sc @ render_headers (end_to_end False hs))))"
  using assms
proof (induction hs arbitrary: px sc)
  case Nil
  then show ?case by (subst response_lines.simps) (simp add: end_to_end_def fit_def)
next
  case (Cons h hs)
  have wf: "wf_header h" using Cons.prems by simp
  let ?r = "render_header h" and ?rest = "render_headers hs @ [CR, LF]"
  have step: "response_lines (render_headers (h # hs) @ [CR, LF]) px sc =
      (case response_line (?r @ CR # LF # ?rest) (length ?r) px sc of
         None \<Rightarrow> None | Some (px', sc') \<Rightarrow> response_lines ?rest px' sc')"
    using header_wire [OF wf] by (subst response_lines.simps) (simp split: option.split)
  have line: "response_line (?r @ CR # LF # ?rest) (length ?r) px sc =
      (case response_field (fst h) (snd h) px sc of
         None \<Rightarrow> None
       | Some (px', sc') \<Rightarrow>
           if lower (fst h) \<in> hop_names False then Some (px', sc')
           else map_option (\<lambda>out. (px', sc'\<lparr>sc_hdr := out\<rparr>)) (fit (sc_hdr sc @ ?r @ [CR, LF])))"
    using header_wire [OF wf] Cons.prems(2)
    by (auto simp: response_line_def hop_by_hop_iff append_bytes_fit response_field_keeps
        split: option.split)
  show ?case
  proof (cases "response_field (fst h) (snd h) px sc")
    case None
    then show ?thesis using step line by simp
  next
    case (Some r)
    obtain px1 sc1 where r: "r = (px1, sc1)" by (cases r)
    then have sc1: "sc_hdr sc1 = sc_hdr sc" using Some response_field_keeps by simp
    have hs: "list_all wf_header hs" using Cons.prems by simp
    show ?thesis
    proof (cases "lower (fst h) \<in> hop_names False")
      case True
      then show ?thesis
        using step line Some r Cons.IH [OF hs, of sc1 px1] Cons.prems(2) sc1
        by (auto simp: end_to_end_def split: option.split)
    next
      case False
      let ?o = "sc_hdr sc @ ?r @ [CR, LF]"
      show ?thesis
      proof (cases "fit ?o")
        case None
        then have "fit (?o @ render_headers (end_to_end False hs)) = None" by (rule fit_None_append)
        then show ?thesis using None step line Some r False by (simp add: end_to_end_def split: option.split)
      next
        case (Some x)
        then have x: "x = ?o" "length ?o \<le> PROXY_HDR_MAX" by (simp_all add: fit_Some)
        show ?thesis
          using Some step line \<open>response_field (fst h) (snd h) px sc = Some r\<close> r False x
            Cons.IH [OF hs, of "sc1\<lparr>sc_hdr := ?o\<rparr>" px1]
          by (simp add: end_to_end_def response_fields_hdr split: option.split)
      qed
    qed
  qed
qed

section \<open>The meaning of the response headers\<close>

text \<open>\<open>header_has_token\<close> and the parser's own token list agree.\<close>

lemma has_token_Nil [simp]: "\<not> has_token [] t"
  by (simp add: has_token_def conn_tokens.simps)

abbreviation blank_or_comma :: "byte \<Rightarrow> bool" where
  "blank_or_comma c \<equiv> c = 32 \<or> c = 9 \<or> c = 44"

abbreviation no_comma :: "byte \<Rightarrow> bool" where
  "no_comma c \<equiv> c \<noteq> 44"

lemma header_has_token_step:
  assumes "v \<noteq> []" and "s = dropWhile blank_or_comma v"
  shows "header_has_token v tok \<longleftrightarrow>
    named (rev (dropWhile is_ows (rev (takeWhile no_comma s)))) (length tok) tok
      \<or> header_has_token (dropWhile no_comma s) tok"
  unfolding assms(2) by (subst header_has_token.simps, simp only: assms(1) if_False Let_def) simp

lemma header_has_token_Nil [simp]: "\<not> header_has_token [] tok"
  by (simp add: header_has_token.simps)

lemma named_Nil [simp]: "tok \<noteq> [] \<Longrightarrow> \<not> named [] (length tok) tok"
  by (simp add: named_def)

lemma header_has_token_skip:
  assumes "tok \<noteq> []"
  shows "header_has_token (dropWhile blank_or_comma v) tok = header_has_token v tok"
proof (cases "v = []")
  case False
  obtain s where s: "s = dropWhile blank_or_comma v" by simp
  have idem: "s = dropWhile blank_or_comma s" unfolding s by (rule dropWhile_idem [symmetric])
  show ?thesis
  proof (cases "s = []")
    case True
    then show ?thesis using header_has_token_step [OF False s, of tok] assms unfolding s [symmetric] by simp
  next
    case False
    show ?thesis
      using header_has_token_step [OF \<open>v \<noteq> []\<close> s, of tok] header_has_token_step [OF False idem, of tok]
      unfolding s [symmetric] by blast
  qed
qed simp

lemma trim_ows_blank: "list_all is_ows xs \<Longrightarrow> trim_ows xs = []"
  by (simp add: trim_ows_def list_all_iff dropWhile_eq_Nil_conv [THEN iffD2])

lemma dropWhile_blanks:
  assumes "\<not> list_all is_ows xs" and "44 \<notin> set xs"
  shows "dropWhile blank_or_comma (xs @ ys) = dropWhile is_ows xs @ ys"
  using assms by (induction xs) (auto simp: is_ows_def)

lemma header_has_token_unfold:
  assumes tok: "tok \<noteq> []" and v: "v = xs @ ys" "44 \<notin> set xs" "ys = [] \<or> hd ys = 44"
  shows "header_has_token v tok \<longleftrightarrow> named (trim_ows xs) (length tok) tok \<or> header_has_token ys tok"
proof (cases "list_all is_ows xs")
  case True
  then have skip: "dropWhile blank_or_comma v = dropWhile blank_or_comma ys"
    unfolding v(1) by (subst dropWhile_append2) (auto simp: list_all_iff is_ows_def)
  have "header_has_token v tok = header_has_token (dropWhile blank_or_comma v) tok"
    by (rule header_has_token_skip [OF tok, symmetric])
  also have "\<dots> = header_has_token ys tok" unfolding skip by (rule header_has_token_skip [OF tok])
  finally have "header_has_token v tok = header_has_token ys tok" .
  then show ?thesis using tok trim_ows_blank [OF True] by (simp add: named_def)
next
  case False
  let ?s = "dropWhile is_ows xs"
  have s: "dropWhile blank_or_comma v = ?s @ ys" unfolding v(1) by (rule dropWhile_blanks [OF False v(2)])
  have "44 \<notin> set ?s" using v(2) set_dropWhileD by fastforce
  then have s_no: "\<And>c. c \<in> set ?s \<Longrightarrow> no_comma c" by auto
  have ys: "takeWhile no_comma ys = []" "dropWhile no_comma ys = ys" using v(3) by (cases ys; simp)+
  have "takeWhile no_comma (?s @ ys) = ?s @ takeWhile no_comma ys"
    "dropWhile no_comma (?s @ ys) = dropWhile no_comma ys"
    by (rule takeWhile_append2, erule s_no) (rule dropWhile_append2, erule s_no)
  then have "takeWhile no_comma (?s @ ys) = ?s" "dropWhile no_comma (?s @ ys) = ys"
    unfolding ys append_Nil2 by blast+
  moreover have "v \<noteq> []" using False v(1) by auto
  ultimately show ?thesis
    using header_has_token_step [OF _ s [symmetric], of tok] unfolding trim_ows_def by (simp only: simp_thms not_False_eq_True)
qed

lemma header_has_token_eq: "tok \<noteq> [] \<Longrightarrow> header_has_token v tok \<longleftrightarrow> has_token v tok"
proof (induction v rule: conn_tokens.induct)
  case (1 v)
  let ?x = "takeWhile no_comma v" and ?y = "dropWhile no_comma v"
  have y: "?y = [] \<or> hd ?y = 44" using hd_dropWhile [of no_comma v] by auto
  have x: "44 \<notin> set ?x" by (auto dest: set_takeWhileD)
  have unf: "header_has_token v tok \<longleftrightarrow> lower (trim_ows ?x) = bytes tok \<or> header_has_token ?y tok"
    using header_has_token_unfold [OF "1.prems" _ x y, of v] by (simp add: named_iff)
  show ?case
  proof (cases "v = []")
    case True
    then show ?thesis by simp
  next
    case False
    then have toks: "has_token v tok \<longleftrightarrow> lower (trim_ows ?x) = bytes tok
        \<or> (case ?y of [] \<Rightarrow> False | _ # rest \<Rightarrow> has_token rest tok)"
      unfolding has_token_def
      by (subst conn_tokens.simps) (auto simp del: dropWhile_eq_Nil_conv split: list.split)
    show ?thesis
    proof (cases ?y)
      case Nil
      then show ?thesis using unf toks by (simp del: dropWhile_eq_Nil_conv)
    next
      case (Cons c rest)
      then have "c = 44" using y by simp
      then have "header_has_token ?y tok = header_has_token rest tok"
        using header_has_token_skip [OF "1.prems", of ?y] header_has_token_skip [OF "1.prems", of rest] Cons by simp
      with "1.IH" [OF False Cons "1.prems"] unf toks Cons show ?thesis by simp
    qed
  qed
qed

text \<open>The framing a list of headers announces; \<open>None\<close> when they contradict each other or cannot be read.\<close>

datatype framing = Length_Framed nat | Chunk_Framed | Close_Framed

definition field_values :: "string \<Rightarrow> (byte list \<times> byte list) list \<Rightarrow> byte list list" where
  "field_values name hs = map snd (filter (\<lambda>h. lower (fst h) = bytes name) hs)"

definition length_value :: "byte list \<Rightarrow> bool" where
  "length_value v = (v \<noteq> [] \<and> list_all is_digit v \<and> decimal v < 2 ^ 64)"

definition abs_framing :: "(byte list \<times> byte list) list \<Rightarrow> framing option" where
  "abs_framing hs =
     (case (field_values ''content-length'' hs, field_values ''transfer-encoding'' hs) of
        ([], []) \<Rightarrow> Some Close_Framed
      | ([v], []) \<Rightarrow> if length_value v then Some (Length_Framed (decimal v)) else None
      | ([], [v]) \<Rightarrow> if lower (trim_ows v) = bytes ''chunked'' then Some Chunk_Framed else None
      | _ \<Rightarrow> None)"

definition announces :: "string \<Rightarrow> (byte list \<times> byte list) list \<Rightarrow> bool" where
  "announces tok hs = list_ex (\<lambda>v. has_token v tok) (field_values ''connection'' hs)"

lemma field_values_simps [simp]:
  "field_values name [] = []"
  "field_values name (h # hs) = (if lower (fst h) = bytes name then snd h # field_values name hs else field_values name hs)"
  by (simp_all add: field_values_def)

lemma response_field_eq:
  "response_field n v px sc =
     (if lower n = bytes ''content-length'' then
        if sc_saw_cl sc \<or> \<not> length_value v then None
        else Some (px\<lparr>px_resp_left := word_of_nat (decimal v), px_flags := insert PX_RESP_CL (px_flags px)\<rparr>,
          sc\<lparr>sc_saw_cl := True\<rparr>)
      else if lower n = bytes ''transfer-encoding'' then
        if sc_saw_te sc \<or> lower (trim_ows v) \<noteq> bytes ''chunked'' then None
        else Some (px\<lparr>px_flags := insert PX_RESP_CHUNKED (px_flags px)\<rparr>, sc\<lparr>sc_saw_te := True\<rparr>)
      else if lower n = bytes ''connection'' then
        Some (px, sc\<lparr>sc_up_close := sc_up_close sc \<or> has_token v ''close'',
                    sc_up_ka := sc_up_ka sc \<or> has_token v ''keep-alive''\<rparr>)
      else Some (px, sc))"
  unfolding response_field_def
  by (simp add: named_iff value_is_chunked_def parse_u64_eq length_value_def header_has_token_eq)

text \<open>At most one good value, given whether one has been seen.\<close>

definition at_most_one :: "bool \<Rightarrow> (byte list \<Rightarrow> bool) \<Rightarrow> byte list list \<Rightarrow> bool" where
  "at_most_one seen ok vs = (vs = [] \<or> \<not> seen \<and> (\<exists>v. vs = [v] \<and> ok v))"

lemma at_most_one_Cons: "at_most_one seen ok (v # vs) \<longleftrightarrow> \<not> seen \<and> ok v \<and> at_most_one True ok vs"
  by (auto simp: at_most_one_def)

abbreviation chunked_value :: "byte list \<Rightarrow> bool" where
  "chunked_value v \<equiv> lower (trim_ows v) = bytes ''chunked''"

lemma response_fields_eq:
  "response_fields hs px sc =
     (let cl = field_values ''content-length'' hs; te = field_values ''transfer-encoding'' hs in
      if at_most_one (sc_saw_cl sc) length_value cl \<and> at_most_one (sc_saw_te sc) chunked_value te then
        Some (px\<lparr>px_resp_left := (if cl = [] then px_resp_left px else word_of_nat (decimal (hd cl))),
            px_flags := px_flags px \<union> (if cl = [] then {} else {PX_RESP_CL})
              \<union> (if te = [] then {} else {PX_RESP_CHUNKED})\<rparr>,
          sc\<lparr>sc_saw_cl := sc_saw_cl sc \<or> cl \<noteq> [], sc_saw_te := sc_saw_te sc \<or> te \<noteq> [],
            sc_up_close := sc_up_close sc \<or> announces ''close'' hs,
            sc_up_ka := sc_up_ka sc \<or> announces ''keep-alive'' hs\<rparr>)
      else None)"
proof (induction hs arbitrary: px sc)
  case Nil
  show ?case by (simp add: at_most_one_def announces_def)
next
  case (Cons h hs)
  have names: "bytes ''content-length'' \<noteq> bytes ''transfer-encoding''" "bytes ''connection'' \<noteq> bytes ''content-length''"
    "bytes ''connection'' \<noteq> bytes ''transfer-encoding''" by (simp_all add: bytes_def)
  consider (cl) "lower (fst h) = bytes ''content-length''" | (te) "lower (fst h) = bytes ''transfer-encoding''"
    | (conn) "lower (fst h) = bytes ''connection''"
    | (other) "lower (fst h) \<notin> bytes ` {''content-length'', ''transfer-encoding'', ''connection''}"
    by auto
  then show ?case
  proof cases
    case cl
    have one: "at_most_one True length_value vs \<longleftrightarrow> vs = []" for vs by (simp add: at_most_one_def)
    show ?thesis
      unfolding response_fields.simps response_field_eq using cl names Cons.IH
      by (auto simp: at_most_one_Cons one announces_def Let_def)
  next
    case te
    have one: "at_most_one True chunked_value vs \<longleftrightarrow> vs = []" for vs by (simp add: at_most_one_def)
    show ?thesis
      unfolding response_fields.simps response_field_eq using te names Cons.IH
      by (auto simp: at_most_one_Cons one announces_def Let_def)
  next
    case conn
    then show ?thesis
      unfolding response_fields.simps response_field_eq using names Cons.IH
      by (auto simp: announces_def Let_def)
  next
    case other
    then show ?thesis
      unfolding response_fields.simps response_field_eq using Cons.IH by (auto simp: announces_def Let_def)
  qed
qed

section \<open>The whole response head\<close>

definition render_head :: "byte list \<Rightarrow> (byte list \<times> byte list) list \<Rightarrow> byte list" where
  "render_head line hs = line @ [CR, LF] @ render_headers hs @ [CR, LF]"

definition conn_header :: "bool \<Rightarrow> byte list \<times> byte list" where
  "conn_header keep = (bytes ''Connection'', bytes (if keep then ''keep-alive'' else ''close''))"

definition no_body :: "nat \<Rightarrow> bool" where
  "no_body code = (code = 204 \<or> code = 304)"

text \<open>The framing state of the connection after a head that announces \<open>f\<close>.\<close>

definition framed_as :: "framing \<Rightarrow> nat \<Rightarrow> proxy_conn \<Rightarrow> bool" where
  "framed_as f code px =
     (px_status px = word_of_nat code \<and> chunk_state px = CH_SIZE \<and> chunk_size px = 0 \<and> \<not> saw_digit px
    \<and> (PX_RESP_CL \<in> px_flags px \<longleftrightarrow> (\<exists>n. f = Length_Framed n))
    \<and> (PX_RESP_CHUNKED \<in> px_flags px \<longleftrightarrow> f = Chunk_Framed)
    \<and> (PX_RESP_EOF \<in> px_flags px \<longleftrightarrow> f = Close_Framed \<and> \<not> no_body code)
    \<and> (PX_BODY_DONE \<in> px_flags px \<longleftrightarrow> no_body code \<or> f = Length_Framed 0)
    \<and> (case f of Length_Framed n \<Rightarrow> unat (px_resp_left px) = n | _ \<Rightarrow> True))"

lemma CONNECTION_render:
  "(if keep then CONNECTION_KEEP else CONNECTION_CLOSE) = render_headers [conn_header keep] @ [CR, LF]"
  by (simp add: CONNECTION_KEEP_def CONNECTION_CLOSE_def conn_header_def render_header_def bytes_def)

lemma response_code_append:
  assumes "eol \<le> length xs"
  shows "response_code (xs @ ys) eol = response_code xs eol"
proof (cases "eol < 12")
  case False
  then have "take 7 (xs @ ys) = take 7 xs" using assms by simp
  moreover have "(xs @ ys) ! k = xs ! k" if "k < eol" for k using that assms by (simp add: nth_append)
  ultimately show ?thesis
    using assms by (auto simp: response_code_def memchr_append split: option.split)
qed (simp add: response_code_def)

lemma abs_framing_fields:
  "abs_framing hs =
     (let cl = field_values ''content-length'' hs; te = field_values ''transfer-encoding'' hs in
      if at_most_one False length_value cl \<and> at_most_one False chunked_value te \<and> (cl = [] \<or> te = []) then
        Some (if cl \<noteq> [] then Length_Framed (decimal (hd cl)) else if te \<noteq> [] then Chunk_Framed else Close_Framed)
      else None)"
  by (auto simp: abs_framing_def at_most_one_def Let_def split: list.split)

text \<open>The state after the header loop, when the head is not refused.\<close>

lemma response_framing_framed:
  assumes f: "abs_framing hs = Some f"
    and px: "px = (response_reset code px0)
       \<lparr>px_resp_left := (if cl = [] then 0 else word_of_nat (decimal (hd cl))),
        px_flags := px_flags (response_reset code px0) \<union> (if cl = [] then {} else {PX_RESP_CL})
          \<union> (if te = [] then {} else {PX_RESP_CHUNKED})\<rparr>"
    and cl: "cl = field_values ''content-length'' hs" and te: "te = field_values ''transfer-encoding'' hs"
  shows "framed_as f code (response_framing code px)"
    and "px_flags (response_framing code px) - {PX_RESP_CL, PX_RESP_CHUNKED, PX_RESP_EOF, PX_BODY_DONE}
      = px_flags px0 - {PX_RESP_CL, PX_RESP_CHUNKED, PX_RESP_EOF, PX_BODY_DONE}"
proof -
  let ?n = "decimal (hd cl)"
  have ok: "at_most_one False length_value cl" "cl = [] \<or> te = []"
    "f = (if cl \<noteq> [] then Length_Framed ?n else if te \<noteq> [] then Chunk_Framed else Close_Framed)"
    using f unfolding abs_framing_fields cl te by (auto simp: Let_def split: if_splits)
  have small: "?n < 2 ^ 64" if "cl \<noteq> []" using ok(1) that by (auto simp: at_most_one_def length_value_def)
  have left: "unat (word_of_nat ?n :: u64) = ?n" "(word_of_nat ?n :: u64) = 0 \<longleftrightarrow> ?n = 0" if "cl \<noteq> []"
  proof -
    show u: "unat (word_of_nat ?n :: u64) = ?n" unfolding unat_of_nat using small [OF that] by simp
    then show "(word_of_nat ?n :: u64) = 0 \<longleftrightarrow> ?n = 0" by (simp add: word_unat_eq_iff)
  qed
  show "framed_as f code (response_framing code px)"
    using ok left unfolding px framed_as_def response_framing_def response_reset_def no_body_def
    by (cases "cl = []"; cases "te = []") auto
  show "px_flags (response_framing code px) - {PX_RESP_CL, PX_RESP_CHUNKED, PX_RESP_EOF, PX_BODY_DONE}
      = px_flags px0 - {PX_RESP_CL, PX_RESP_CHUNKED, PX_RESP_EOF, PX_BODY_DONE}"
    unfolding px response_framing_def response_reset_def by auto
qed

text \<open>The last step: the two \<open>Connection\<close> decisions and the header that ends the head.\<close>

lemma response_connection_eq:
  assumes "length (sc_hdr sc) \<le> PROXY_HDR_MAX" and "px_flags px \<inter> {PX_UP_CLOSE, PX_CLIENT_KEEP} = {}"
  shows "response_connection req http10 px sc =
    map_option (\<lambda>hdr. px\<lparr>px_flags := px_flags px
        \<union> (if sc_up_close sc \<or> http10 \<and> \<not> sc_up_ka sc then {PX_UP_CLOSE} else {})
        \<union> (if http_should_keepalive req then {PX_CLIENT_KEEP} else {}), px_hdr := hdr, px_hdr_off := 0\<rparr>)
      (fit (sc_hdr sc @ render_headers [conn_header (http_should_keepalive req)] @ [CR, LF]))"
proof -
  note render = CONNECTION_render [of "http_should_keepalive req", symmetric]
  have "insert PX_CLIENT_KEEP (insert PX_UP_CLOSE (px_flags px)) = insert PX_UP_CLOSE (insert PX_CLIENT_KEEP (px_flags px))"
    by auto
  with assms show ?thesis
    unfolding render response_connection_def by (auto simp: Let_def append_bytes_fit split: option.split)
qed

lemma rewrite_response_render:
  fixes req :: http_request
  assumes line: "CR \<notin> set line" "response_code line (length line) = Some code" "code < 100 \<or> 200 \<le> code"
    and hs: "list_all wf_header hs" and px: "px_flags px \<inter> {PX_UP_CLOSE, PX_CLIENT_KEEP} = {}"
  defines "out \<equiv> render_head line (end_to_end False hs @ [conn_header (http_should_keepalive req)])"
  shows "case rewrite_response req px (render_head line hs) of
      None \<Rightarrow> abs_framing hs = None \<or> PROXY_HDR_MAX < length out
    | Some (skip, px') \<Rightarrow> \<not> skip \<and> length out \<le> PROXY_HDR_MAX \<and> px_hdr px' = out \<and> px_hdr_off px' = 0
        \<and> (\<exists>f. abs_framing hs = Some f \<and> framed_as f code px')
        \<and> (PX_CLIENT_KEEP \<in> px_flags px' \<longleftrightarrow> http_should_keepalive req)
        \<and> (PX_UP_CLOSE \<in> px_flags px' \<longleftrightarrow>
             announces ''close'' hs \<or> line ! 7 = 48 \<and> \<not> announces ''keep-alive'' hs)"
proof -
  let ?rest = "render_headers hs @ [CR, LF]" and ?keep = "http_should_keepalive req" and ?l = "line @ [CR, LF]"
  let ?src = "line @ CR # LF # ?rest" and ?e = "render_headers (end_to_end False hs)"
  define sc where "sc = \<lparr>sc_hdr = ?l, sc_saw_cl = False, sc_saw_te = False, sc_up_close = False, sc_up_ka = False\<rparr>"
  have src: "render_head line hs = ?src" by (simp add: render_head_def)
  have out: "out = ?l @ ?e @ render_headers [conn_header ?keep] @ [CR, LF]" by (simp add: out_def render_head_def)
  have crlf: "px_find_crlf ?src = Some (length line)" by (rule px_find_crlf_hit [OF line(1)])
  have code: "response_code ?src (length line) = Some code" using line(2) response_code_append by simp
  have "12 \<le> length line" using line(2) by (auto simp: response_code_def split: if_splits)
  then have seven: "?src ! 7 = line ! 7" by (simp add: nth_append)
  have run: "rewrite_response req px ?src =
      (case fit ?l of None \<Rightarrow> None | Some _ \<Rightarrow>
        (case response_lines ?rest (response_reset code px) sc of
           None \<Rightarrow> None
         | Some (px', sc') \<Rightarrow>
             if PX_RESP_CL \<in> px_flags px' \<and> PX_RESP_CHUNKED \<in> px_flags px' then None
             else map_option (Pair False) (response_connection req (line ! 7 = 48) (response_framing code px') sc')))"
  proof -
    have t: "take (length line + 2) ?src = ?l" "drop (length line + 2) ?src = ?rest" by simp_all
    have a: "append_bytes [] ?l = fit ?l" by (simp add: append_bytes_fit)
    have info: "\<not> (100 \<le> code \<and> code < 200)" using line(3) by linarith
    show ?thesis
    proof (cases "fit ?l")
      case None
      show ?thesis unfolding rewrite_response_def crlf option.case code t a if_not_P [OF info] None ..
    next
      case (Some x)
      then have l: "fit ?l = Some ?l" by (simp add: fit_Some)
      show ?thesis
        unfolding rewrite_response_def crlf option.case code t a if_not_P [OF info] l sc_def seven by (rule refl)
    qed
  qed
  define cl te where vals: "cl = field_values ''content-length'' hs" "te = field_values ''transfer-encoding'' hs"
  define px1 where "px1 = (response_reset code px)
       \<lparr>px_resp_left := (if cl = [] then 0 else word_of_nat (decimal (hd cl))),
        px_flags := px_flags (response_reset code px) \<union> (if cl = [] then {} else {PX_RESP_CL})
          \<union> (if te = [] then {} else {PX_RESP_CHUNKED})\<rparr>"
  have lines: "response_lines ?rest (response_reset code px) sc =
      (if at_most_one False length_value cl \<and> at_most_one False chunked_value te then
         map_option (\<lambda>out. (px1, \<lparr>sc_hdr = out, sc_saw_cl = cl \<noteq> [], sc_saw_te = te \<noteq> [],
           sc_up_close = announces ''close'' hs, sc_up_ka = announces ''keep-alive'' hs\<rparr>)) (fit (?l @ ?e))
       else None)" if "length ?l \<le> PROXY_HDR_MAX"
    using response_lines_render [OF hs, of sc "response_reset code px"] that
    unfolding response_fields_eq vals [symmetric] Let_def
    by (auto simp: sc_def px1_def response_reset_def split: option.split)
  have both: "PX_RESP_CL \<in> px_flags px1 \<and> PX_RESP_CHUNKED \<in> px_flags px1 \<longleftrightarrow> cl \<noteq> [] \<and> te \<noteq> []"
    by (auto simp: px1_def response_reset_def)
  note framing = abs_framing_fields [of hs, folded vals]
  show ?thesis
  proof (cases "abs_framing hs")
    case None
    then have "rewrite_response req px ?src = None"
      using run lines both unfolding framing Let_def by (auto simp: fit_Some split: option.splits if_splits)
    then show ?thesis unfolding src using None by simp
  next
    case (Some f)
    note framed = response_framing_framed [OF Some px1_def vals]
    let ?px = "response_framing code px1"
    have flags: "px_flags ?px \<inter> {PX_UP_CLOSE, PX_CLIENT_KEEP} = {}" using framed(2) px by blast
    have ok: "at_most_one False length_value cl" "at_most_one False chunked_value te" "\<not> (cl \<noteq> [] \<and> te \<noteq> [])"
      using Some unfolding framing Let_def by (auto split: if_splits)
    define px2 where "px2 = ?px\<lparr>px_flags := px_flags ?px
        \<union> (if announces ''close'' hs \<or> line ! 7 = 48 \<and> \<not> announces ''keep-alive'' hs then {PX_UP_CLOSE} else {})
        \<union> (if ?keep then {PX_CLIENT_KEEP} else {}), px_hdr := out, px_hdr_off := 0\<rparr>"
    have "rewrite_response req px ?src = map_option (\<lambda>_. (False, px2)) (fit out)"
    proof (cases "length (?l @ ?e) \<le> PROXY_HDR_MAX")
      case True
      then have "fit ?l = Some ?l" "fit (?l @ ?e) = Some (?l @ ?e)" "length ?l \<le> PROXY_HDR_MAX"
        by (simp_all add: fit_def)
      with run lines both ok True flags show ?thesis
        by (auto simp: response_connection_eq out px2_def fit_def)
    next
      case False
      then have none: "fit (?l @ ?e) = None" by (simp add: fit_def)
      then have "fit ((?l @ ?e) @ render_headers [conn_header ?keep] @ [CR, LF]) = None" by (rule fit_None_append)
      then have "fit out = None" unfolding out by simp
      with run lines none show ?thesis by (auto simp: fit_Some split: option.split)
    qed
    moreover have "framed_as f code px2"
      using framed(1) unfolding px2_def framed_as_def by (cases f) simp_all
    moreover have "PX_CLIENT_KEEP \<in> px_flags px2 \<longleftrightarrow> ?keep" "PX_UP_CLOSE \<in> px_flags px2 \<longleftrightarrow>
        announces ''close'' hs \<or> line ! 7 = 48 \<and> \<not> announces ''keep-alive'' hs"
      using flags by (auto simp: px2_def)
    moreover have "px_hdr px2 = out" "px_hdr_off px2 = 0" by (simp_all add: px2_def)
    ultimately show ?thesis unfolding src using Some by (auto simp: fit_def)
  qed
qed

text \<open>
  C21. The response head that goes to the client. For every upstream head (a status line that is
  accepted and not informational, and any list of headers) \<open>rewrite_response\<close> either fails, just
  when the headers announce no consistent framing or the result does not fit, or produces the
  same status line with the end-to-end headers and the server's own \<open>Connection\<close> header, the body
  framing of the message (its exact length, chunked, or until the connection is closed; none for
  204 and 304), and the two decisions to keep the connections.
\<close>

theorem rewrite_response_forwards:
  assumes "CR \<notin> set line" and "response_code line (length line) = Some code" and "code < 100 \<or> 200 \<le> code"
    and "list_all wf_header hs" and "px_flags px \<inter> {PX_UP_CLOSE, PX_CLIENT_KEEP} = {}"
  shows "case rewrite_response req px (render_head line hs) of
      None \<Rightarrow> abs_framing hs = None
        \<or> PROXY_HDR_MAX < length (render_head line (end_to_end False hs @ [conn_header (http_should_keepalive req)]))
    | Some (skip, px') \<Rightarrow> \<not> skip
        \<and> length (px_hdr px') \<le> PROXY_HDR_MAX \<and> px_hdr_off px' = 0
        \<and> px_hdr px' = render_head line (end_to_end False hs @ [conn_header (http_should_keepalive req)])
        \<and> (\<exists>f. abs_framing hs = Some f \<and> framed_as f code px')
        \<and> (PX_CLIENT_KEEP \<in> px_flags px' \<longleftrightarrow> http_should_keepalive req)
        \<and> (PX_UP_CLOSE \<in> px_flags px' \<longleftrightarrow>
             announces ''close'' hs \<or> line ! 7 = 48 \<and> \<not> announces ''keep-alive'' hs)"
  using rewrite_response_render [OF assms, of req] by (auto split: option.splits)

text \<open>\<open>HTTP/1.1 200 OK\<close> with a length of 5, \<open>Connection: close\<close> and a media type, to a 1.0 client.\<close>

definition head_line :: "byte list" where
  "head_line = bytes ''HTTP/1.1 200 OK''"

definition head_fields :: "(byte list \<times> byte list) list" where
  "head_fields = [(bytes ''Content-Length'', bytes ''5''), (bytes ''Connection'', bytes ''close''), (bytes ''Content-Type'', bytes ''text/plain'')]"

definition px_sample :: proxy_conn where
  "px_sample = \<lparr>chunk_state = CH_SIZE, saw_digit = False, chunk_size = 0, px_fd = 8, px_phase = PX_RECV_HDR,
     px_armed = IO_DONE, px_in_epoll = False, px_cont_off = 0, px_flags = {}, px_status = 0,
     px_up_addr = [1], px_hdr = [], px_hdr_off = 0, px_buf = [], px_buf_off = 0, px_body_off = 0,
     px_body_end = 0, px_body_left = 0, px_resp_left = 0\<rparr>"

lemma head_line_ok: "CR \<notin> set head_line" "response_code head_line (length head_line) = Some 200"
  by (simp_all add: head_line_def response_code_def bytes_def evals)

lemma head_fields_ok: "list_all wf_header head_fields" "abs_framing head_fields = Some (Length_Framed 5)"
  by (simp_all add: head_fields_def wf_header_def is_tchar_def is_field_vchar_def is_ows_def bytes_def
      abs_framing_def lower_def ascii_lower_def length_value_def is_digit_def decimal_def)

lemma rewrite_response_forwards_witness:
  "\<exists>px'. rewrite_response sample_get_request px_sample (render_head head_line head_fields) = Some (False, px')
    \<and> unat (px_resp_left px') = 5 \<and> PX_UP_CLOSE \<in> px_flags px' \<and> PX_CLIENT_KEEP \<notin> px_flags px'
    \<and> px_hdr px' = render_head head_line
        [(bytes ''Content-Length'', bytes ''5''), (bytes ''Content-Type'', bytes ''text/plain''), conn_header False]"
proof -
  have px: "px_flags px_sample \<inter> {PX_UP_CLOSE, PX_CLIENT_KEEP} = {}" by (simp add: px_sample_def)
  have keep: "\<not> http_should_keepalive sample_get_request"
    by (simp add: http_should_keepalive_def sample_get_request_def http_request0_def has_flag_def http_flag_defs)
  have e2e: "end_to_end False head_fields =
      [(bytes ''Content-Length'', bytes ''5''), (bytes ''Content-Type'', bytes ''text/plain'')]"
    by (simp add: end_to_end_def head_fields_def hop_names_def lower_def ascii_lower_def bytes_def)
  have close: "announces ''close'' head_fields"
    by (simp add: announces_def head_fields_def field_values_def has_token_def conn_tokens.simps lower_def
        ascii_lower_def trim_ows_def is_ows_def bytes_def)
  have len: "\<not> PROXY_HDR_MAX < length (render_head head_line (end_to_end False head_fields @ [conn_header False]))"
    unfolding e2e by (simp add: render_head_def head_line_def render_header_def conn_header_def bytes_def PROXY_HDR_MAX_def)
  show ?thesis
    using rewrite_response_forwards [OF head_line_ok _ head_fields_ok(1) px, of sample_get_request]
      head_fields_ok(2) keep close len e2e
    by (auto simp: framed_as_def split: option.splits)
qed

end
