(* ===== verification/File_Cache.thy ===== *)
theory File_Cache
  imports Kernel Url_Path Site_Config
begin

text \<open>
  The open-file cache of \<^verbatim>\<open>src/static.c\<close>: a per-worker hash table with linear probing from paths
  to open descriptors, and the table of retired descriptors that requests in flight still use.
  A descriptor of \<open>-1\<close> in the table ends a probe, \<open>-2\<close> is a tombstone.
\<close>

definition FILE_CACHE_SLOTS :: nat where "FILE_CACHE_SLOTS = 64"
definition FILE_CACHE_PATH :: nat where "FILE_CACHE_PATH = 192"
definition FILE_CACHE_RECHECK_MS :: u64 where "FILE_CACHE_RECHECK_MS = 1000"
definition FILE_CACHE_RETIRED :: nat where "FILE_CACHE_RETIRED = 8"
definition OPENAT2_EAGAIN_RETRIES :: nat where "OPENAT2_EAGAIN_RETRIES = 8"

section \<open>State\<close>

record file_stat =
  st_kind :: file_kind
  st_size :: int
  st_mtime_sec :: int
  st_mtime_nsec :: int
  st_ino :: u64

datatype resolve_flag = RESOLVE_BENEATH | RESOLVE_NO_SYMLINKS | RESOLVE_NO_MAGICLINKS

text \<open>The errors of \<open>open\<close> the code tells apart.\<close>

datatype errno = ENOENT | ENOTDIR | EACCES | EPERM | ELOOP | EAGAIN | EOTHER

text \<open>\<open>cf_path\<close> is the path without its final zero, so \<open>path_len\<close> is its length.\<close>

record cached_file =
  cf_hash :: u64
  cf_checked :: u64
  cf_mtime_sec :: int
  cf_mtime_nsec :: int
  cf_size :: int
  cf_ino :: u64
  cf_mime :: string
  cf_fd :: int
  cf_uses :: u16
  cf_path :: "byte list"

record retired_fd =
  rf_fd :: int
  rf_uses :: u16

text \<open>
  The thread-local tables and the process-wide policy and document root, on top of the kernel.
  \<open>se_opens\<close> and \<open>se_stats\<close> are the answers of the next \<open>open\<close>/\<open>openat2\<close> and \<open>fstat\<close>/\<open>fstatat\<close>
  calls, \<open>se_opened\<close> the directory, path and resolve flags of each \<open>openat2\<close> call made.
\<close>

record static_env = kernel +
  se_docroot_fd :: int
  se_policy :: static_policy
  se_opens :: "(errno + int) list"
  se_stats :: "file_stat option list"
  se_opened :: "(int \<times> byte list \<times> resolve_flag set) list"
  fc_ready :: bool
  fc_table :: "cached_file list"
  fc_retired :: "retired_fd list"

section \<open>System calls on files\<close>

definition sys_open :: "'a static_env_scheme \<Rightarrow> (errno + int) \<times> 'a static_env_scheme" where
  "sys_open e =
     (case se_opens e of [] \<Rightarrow> (Inl EOTHER, e) | r # rest \<Rightarrow> (r, e\<lparr>se_opens := rest\<rparr>))"

definition sys_stat :: "'a static_env_scheme \<Rightarrow> file_stat option \<times> 'a static_env_scheme" where
  "sys_stat e = (case se_stats e of [] \<Rightarrow> (None, e) | r # rest \<Rightarrow> (r, e\<lparr>se_stats := rest\<rparr>))"

text \<open>
  \<open>open_under\<close>: the resolve flags, and \<open>openat2\<close> below the directory, again after \<open>EAGAIN\<close>, at most eight calls. After the
  last one the loop falls through to \<open>-1\<close> with \<open>errno\<close> still \<open>EAGAIN\<close>.
\<close>

definition open_how :: "static_policy \<Rightarrow> resolve_flag set" where
  "open_how pol =
     {RESOLVE_BENEATH, if \<not> allow_symlinks pol then RESOLVE_NO_SYMLINKS else RESOLVE_NO_MAGICLINKS}"

fun open_under_loop ::
  "nat \<Rightarrow> int \<Rightarrow> byte list \<Rightarrow> 'a static_env_scheme \<Rightarrow> (errno + int) \<times> 'a static_env_scheme" where
  "open_under_loop 0 dirfd rel e = (Inl EAGAIN, e)"
| "open_under_loop (Suc n) dirfd rel e =
     (case sys_open (e\<lparr>se_opened := se_opened e @ [(dirfd, rel, open_how (se_policy e))]\<rparr>) of
        (Inl EAGAIN, e') \<Rightarrow> open_under_loop n dirfd rel e'
      | r \<Rightarrow> r)"

definition open_under :: "int \<Rightarrow> byte list \<Rightarrow> 'a static_env_scheme \<Rightarrow> (errno + int) \<times> 'a static_env_scheme" where
  "open_under dirfd rel e = open_under_loop OPENAT2_EAGAIN_RETRIES dirfd rel e"

section \<open>The cache\<close>

definition file_cache_init :: "'a static_env_scheme \<Rightarrow> 'a static_env_scheme" where
  "file_cache_init e =
     (if fc_ready e then e
      else e\<lparr>fc_table := map (\<lambda>c. c\<lparr>cf_fd := - 1\<rparr>) (fc_table e),
             fc_retired := map (\<lambda>_. \<lparr>rf_fd = - 1, rf_uses = 0\<rparr>) (fc_retired e), fc_ready := True\<rparr>)"

text \<open>The first free entry of the retired table.\<close>

fun retire_slot :: "retired_fd list \<Rightarrow> retired_fd \<Rightarrow> retired_fd list" where
  "retire_slot [] r = []"
| "retire_slot (x # xs) r = (if rf_fd x < 0 then r # xs else x # retire_slot xs r)"

definition retire_fd :: "int \<Rightarrow> u16 \<Rightarrow> 'a static_env_scheme \<Rightarrow> 'a static_env_scheme" where
  "retire_fd fd uses e =
     (if fd < 0 then e
      else if uses = 0 then sys_close fd e
      else e\<lparr>fc_retired := retire_slot (fc_retired e) \<lparr>rf_fd = fd, rf_uses = uses\<rparr>\<rparr>)"

abbreviation put_entry :: "nat \<Rightarrow> cached_file \<Rightarrow> 'a static_env_scheme \<Rightarrow> 'a static_env_scheme" where
  "put_entry i c e \<equiv> e\<lparr>fc_table := (fc_table e)[i := c]\<rparr>"

definition tombstone :: "nat \<Rightarrow> 'a static_env_scheme \<Rightarrow> 'a static_env_scheme" where
  "tombstone i e =
     (let c = fc_table e ! i in
      retire_fd (cf_fd c) (cf_uses c) (put_entry i (c\<lparr>cf_fd := - 2, cf_uses := 0, cf_hash := 0\<rparr>) e))"

definition path_hash :: "byte list \<Rightarrow> u64" where
  "path_hash s =
     (let h = fold (\<lambda>c h. (h XOR ucast c) * 1099511628211) s 14695981039346656037
      in if h \<noteq> 0 then h else 1)"

definition home_slot :: "u64 \<Rightarrow> nat" where
  "home_slot hash = unat ((ucast hash :: u32) AND word_of_nat (FILE_CACHE_SLOTS - 1))"

definition next_slot :: "nat \<Rightarrow> nat" where
  "next_slot i = (i + 1) mod FILE_CACHE_SLOTS"

definition fill_entry ::
  "u64 \<Rightarrow> byte list \<Rightarrow> int \<Rightarrow> file_stat \<Rightarrow> string \<Rightarrow> u64 \<Rightarrow> cached_file" where
  "fill_entry hash path fd st mime now_ms =
     \<lparr>cf_hash = hash, cf_checked = now_ms, cf_mtime_sec = st_mtime_sec st, cf_mtime_nsec = st_mtime_nsec st,
      cf_size = st_size st, cf_ino = st_ino st, cf_mime = mime, cf_fd = fd, cf_uses = 0, cf_path = path\<rparr>"

definition same_meta :: "cached_file \<Rightarrow> file_stat \<Rightarrow> bool" where
  "same_meta c st = (st_size st = cf_size c \<and> st_mtime_sec st = cf_mtime_sec c
     \<and> st_mtime_nsec st = cf_mtime_nsec c \<and> st_ino st = cf_ino c)"

fun find_probe :: "cached_file list \<Rightarrow> u64 \<Rightarrow> byte list \<Rightarrow> nat \<Rightarrow> nat \<Rightarrow> nat option" where
  "find_probe t hash path 0 slot = None"
| "find_probe t hash path (Suc n) slot =
     (let c = t ! slot in
      if cf_fd c = - 1 then None
      else if cf_fd c \<ge> 0 \<and> cf_hash c = hash \<and> cf_path c = path then Some slot
      else find_probe t hash path n (next_slot slot))"

definition file_cache_find ::
  "byte list \<Rightarrow> 'a static_env_scheme \<Rightarrow> nat option \<times> 'a static_env_scheme" where
  "file_cache_find path e =
     (let e = file_cache_init e in
      if path = [] \<or> length path \<ge> FILE_CACHE_PATH then (None, e)
      else (find_probe (fc_table e) (path_hash path) path FILE_CACHE_SLOTS (home_slot (path_hash path)), e))"

text \<open>\<open>True\<close>: the entry is current. \<open>False\<close>: it has been dropped.\<close>

definition file_cache_recheck :: "nat \<Rightarrow> u64 \<Rightarrow> 'a static_env_scheme \<Rightarrow> bool \<times> 'a static_env_scheme" where
  "file_cache_recheck i now_ms e =
     (let c = fc_table e ! i in
      if now_ms - cf_checked c < FILE_CACHE_RECHECK_MS then (True, e)
      else
        (case sys_stat e of
           (None, e) \<Rightarrow> (False, tombstone i e)
         | (Some st, e) \<Rightarrow>
             if st_kind st \<noteq> Regular \<or> st_size st < 0 then (False, tombstone i e)
             else if same_meta c st then (True, put_entry i (c\<lparr>cf_checked := now_ms\<rparr>) e)
             else
               (case open_under (se_docroot_fd e) (cf_path c) e of
                  (Inl _, e) \<Rightarrow> (False, tombstone i e)
                | (Inr fd, e) \<Rightarrow>
                    (True, put_entry i (c\<lparr>cf_fd := fd, cf_uses := 0, cf_size := st_size st,
                        cf_mtime_sec := st_mtime_sec st, cf_mtime_nsec := st_mtime_nsec st, cf_ino := st_ino st,
                        cf_mime := mime_from_path (cf_path c), cf_checked := now_ms\<rparr>)
                      (retire_fd (cf_fd c) (cf_uses c) e)))))"

definition file_cache_hold :: "nat \<Rightarrow> 'a static_env_scheme \<Rightarrow> 'a static_env_scheme" where
  "file_cache_hold i e =
     (let c = fc_table e ! i in
      if cf_uses c < 65535 then put_entry i (c\<lparr>cf_uses := cf_uses c + 1\<rparr>) e else e)"

text \<open>The slot \<open>file_cache_store\<close> fills: the first empty one, else the first tombstone passed.\<close>

fun store_probe :: "cached_file list \<Rightarrow> nat \<Rightarrow> nat \<Rightarrow> nat option \<Rightarrow> nat option" where
  "store_probe t 0 slot reuse = reuse"
| "store_probe t (Suc n) slot reuse =
     (let c = t ! slot in
      if cf_fd c = - 1 then Some slot
      else store_probe t n (next_slot slot) (if cf_fd c = - 2 \<and> reuse = None then Some slot else reuse))"

definition file_cache_store ::
  "byte list \<Rightarrow> int \<Rightarrow> file_stat \<Rightarrow> string \<Rightarrow> u64 \<Rightarrow> 'a static_env_scheme \<Rightarrow> nat option \<times> 'a static_env_scheme" where
  "file_cache_store path fd st mime now_ms e =
     (let e = file_cache_init e; hash = path_hash path in
      if path = [] \<or> length path \<ge> FILE_CACHE_PATH \<or> fd < 0 then (None, e)
      else
        (case store_probe (fc_table e) FILE_CACHE_SLOTS (home_slot hash) None of
           None \<Rightarrow> (None, e)
         | Some i \<Rightarrow> (Some i, put_entry i (fill_entry hash path fd st mime now_ms) e)))"

text \<open>The first entry of a table with a given descriptor.\<close>

definition cache_slot :: "cached_file list \<Rightarrow> int \<Rightarrow> nat option" where
  "cache_slot t fd = find (\<lambda>i. cf_fd (t ! i) = fd) [0..<length t]"

definition retired_slot :: "retired_fd list \<Rightarrow> int \<Rightarrow> nat option" where
  "retired_slot t fd = find (\<lambda>i. rf_fd (t ! i) = fd) [0..<length t]"

definition static_cache_release :: "int \<Rightarrow> 'a static_env_scheme \<Rightarrow> 'a static_env_scheme" where
  "static_cache_release fd e =
     (if \<not> fc_ready e \<or> fd < 0 then e
      else
        (case cache_slot (fc_table e) fd of
           Some i \<Rightarrow>
             (let c = fc_table e ! i in if cf_uses c > 0 then put_entry i (c\<lparr>cf_uses := cf_uses c - 1\<rparr>) e else e)
         | None \<Rightarrow>
             (case retired_slot (fc_retired e) fd of
                Some i \<Rightarrow>
                  (let r = fc_retired e ! i;
                       r = (if rf_uses r > 0 then r\<lparr>rf_uses := rf_uses r - 1\<rparr> else r)
                   in if rf_uses r = 0
                      then sys_close fd (e\<lparr>fc_retired := (fc_retired e)[i := r\<lparr>rf_fd := - 1\<rparr>]\<rparr>)
                      else e\<lparr>fc_retired := (fc_retired e)[i := r]\<rparr>)
              | None \<Rightarrow> e)))"

definition static_cache_clear :: "'a static_env_scheme \<Rightarrow> 'a static_env_scheme" where
  "static_cache_clear e =
     (if \<not> fc_ready e then e
      else
        (let fds = filter (\<lambda>fd. fd \<ge> 0) (map cf_fd (fc_table e) @ map rf_fd (fc_retired e)) in
         e\<lparr>k_closed := k_closed e @ fds,
           fc_table := map (\<lambda>c. if cf_fd c \<ge> 0 then c\<lparr>cf_fd := - 1\<rparr> else c) (fc_table e),
           fc_retired := map (\<lambda>r. if rf_fd r \<ge> 0 then r\<lparr>rf_fd := - 1\<rparr> else r) (fc_retired e),
           fc_ready := False\<rparr>))"

end
