(* ===== verification/Path_Table.thy ===== *)
theory Path_Table
  imports File_Cache
begin

text \<open>
  The hash table of the open-file cache is a partial map from paths to entries. The contract of
  such a table is the locale \<open>path_table\<close>; its client lemma says that any sequence of operations
  acts on the table as on the map. The interpretation on the probing functions of \<open>File_Cache\<close>
  rests on the invariant of linear probing with tombstones.
\<close>

section \<open>The contract\<close>

datatype ('p, 'e) table_op = T_Insert 'p 'e | T_Delete 'p | T_Modify 'p "'e \<Rightarrow> 'e"

text \<open>
  \<open>find_in\<close> looks a path up, \<open>insert_in\<close> may refuse (no room) and returns \<open>None\<close> then, and is only
  asked for absent paths. \<open>good p e\<close> restricts what may be stored under a path.
\<close>

locale path_table =
  fixes find_in :: "'t \<Rightarrow> 'p \<Rightarrow> 'e option"
    and insert_in :: "'p \<Rightarrow> 'e \<Rightarrow> 't \<Rightarrow> 't option"
    and delete_in :: "'p \<Rightarrow> 't \<Rightarrow> 't"
    and modify_in :: "'p \<Rightarrow> ('e \<Rightarrow> 'e) \<Rightarrow> 't \<Rightarrow> 't"
    and good :: "'p \<Rightarrow> 'e \<Rightarrow> bool"
    and table_inv :: "'t \<Rightarrow> bool"
  assumes find_insert: "table_inv t \<Longrightarrow> good p e \<Longrightarrow> find_in t p = None \<Longrightarrow> insert_in p e t = Some t' \<Longrightarrow>
      find_in t' = (find_in t)(p \<mapsto> e) \<and> table_inv t'"
    and find_delete: "table_inv t \<Longrightarrow> find_in (delete_in p t) = (find_in t)(p := None) \<and> table_inv (delete_in p t)"
    and find_modify: "table_inv t \<Longrightarrow> (\<And>e. good p e \<Longrightarrow> good p (f e)) \<Longrightarrow>
      find_in (modify_in p f t) = (find_in t)(p := map_option f (find_in t p)) \<and> table_inv (modify_in p f t)"
begin

text \<open>Each operation on the table, and what it does to the map. A refused insertion changes nothing.\<close>

fun op_ok :: "('p, 'e) table_op \<Rightarrow> 't \<Rightarrow> bool" where
  "op_ok (T_Insert p e) t = (good p e \<and> find_in t p = None)"
| "op_ok (T_Delete p) t = True"
| "op_ok (T_Modify p f) t = (\<forall>e. good p e \<longrightarrow> good p (f e))"

fun table_step :: "('p, 'e) table_op \<Rightarrow> 't \<Rightarrow> 't" where
  "table_step (T_Insert p e) t = (case insert_in p e t of None \<Rightarrow> t | Some t' \<Rightarrow> t')"
| "table_step (T_Delete p) t = delete_in p t"
| "table_step (T_Modify p f) t = modify_in p f t"

fun map_step :: "('p, 'e) table_op \<Rightarrow> 't \<Rightarrow> ('p \<Rightarrow> 'e option) \<Rightarrow> ('p \<Rightarrow> 'e option)" where
  "map_step (T_Insert p e) t m = (if insert_in p e t = None then m else m(p \<mapsto> e))"
| "map_step (T_Delete p) t m = m(p := None)"
| "map_step (T_Modify p f) t m = m(p := map_option f (m p))"

fun run_ok :: "('p, 'e) table_op list \<Rightarrow> 't \<Rightarrow> bool" where
  "run_ok [] t = True"
| "run_ok (a # as) t = (op_ok a t \<and> run_ok as (table_step a t))"

fun table_run :: "('p, 'e) table_op list \<Rightarrow> 't \<Rightarrow> 't" where
  "table_run [] t = t"
| "table_run (a # as) t = table_run as (table_step a t)"

fun map_run :: "('p, 'e) table_op list \<Rightarrow> 't \<Rightarrow> ('p \<Rightarrow> 'e option) \<Rightarrow> ('p \<Rightarrow> 'e option)" where
  "map_run [] t m = m"
| "map_run (a # as) t m = map_run as (table_step a t) (map_step a t m)"

lemma step_refines:
  assumes "table_inv t" and "op_ok a t"
  shows "find_in (table_step a t) = map_step a t (find_in t) \<and> table_inv (table_step a t)"
  using assms find_insert find_delete find_modify
  by (cases a) (auto split: option.split)

theorem run_refines:
  "table_inv t \<Longrightarrow> run_ok as t \<Longrightarrow>
    find_in (table_run as t) = map_run as t (find_in t) \<and> table_inv (table_run as t)"
  using step_refines by (induction as arbitrary: t) auto

end

section \<open>Probing\<close>

definition live :: "cached_file \<Rightarrow> bool" where
  "live c = (cf_fd c \<ge> 0)"

definition dead_entry :: "cached_file \<Rightarrow> cached_file" where
  "dead_entry c = c\<lparr>cf_fd := - 2, cf_uses := 0, cf_hash := 0\<rparr>"

text \<open>Slot \<open>i\<close> is reached from \<open>s\<close> without passing an empty slot.\<close>

definition reachable :: "cached_file list \<Rightarrow> nat \<Rightarrow> nat \<Rightarrow> bool" where
  "reachable t s i = (\<exists>k < 64. i = (s + k) mod 64 \<and> (\<forall>j < k. cf_fd (t ! ((s + j) mod 64)) \<noteq> - 1))"

definition path_ok :: "byte list \<Rightarrow> bool" where
  "path_ok p = (p \<noteq> [] \<and> length p < FILE_CACHE_PATH)"

definition home :: "byte list \<Rightarrow> nat" where
  "home p = home_slot (path_hash p)"

definition table_ok :: "cached_file list \<Rightarrow> bool" where
  "table_ok t = (length t = 64 \<and> (\<forall>i < 64. live (t ! i) \<longrightarrow>
     path_ok (cf_path (t ! i)) \<and> cf_hash (t ! i) = path_hash (cf_path (t ! i))
     \<and> reachable t (home (cf_path (t ! i))) i
     \<and> (\<forall>j < 64. live (t ! j) \<and> cf_path (t ! j) = cf_path (t ! i) \<longrightarrow> j = i)))"

lemma home_less [simp]: "home p < 64"
proof -
  have "unat ((ucast (path_hash p) :: u32) AND 63) \<le> unat (63 :: u32)"
    by (intro word_le_nat_alt [THEN iffD1] word_and_le1)
  then show ?thesis by (simp add: home_def home_slot_def FILE_CACHE_SLOTS_def)
qed

lemma next_slot_eq: "next_slot s = (s + 1) mod 64"
  by (simp add: next_slot_def FILE_CACHE_SLOTS_def)

lemma slot_shift: "(next_slot s + k) mod 64 = (s + Suc k) mod 64"
  by (simp add: next_slot_eq mod_simps)

text \<open>What a probe returns, and when it finds something.\<close>

lemma find_probe_sound:
  "find_probe t h p n s = Some i \<Longrightarrow> s < 64 \<Longrightarrow> i < 64 \<and> live (t ! i) \<and> cf_hash (t ! i) = h \<and> cf_path (t ! i) = p"
  by (induction n arbitrary: s) (auto simp: Let_def live_def next_slot_eq split: if_splits)

lemma find_probe_complete:
  assumes "live (t ! ((s + k) mod 64))" and "cf_hash (t ! ((s + k) mod 64)) = h" "cf_path (t ! ((s + k) mod 64)) = p"
    and "k < n" and "\<forall>j < k. cf_fd (t ! ((s + j) mod 64)) \<noteq> - 1" and "s < 64"
  shows "find_probe t h p n s \<noteq> None"
  using assms
proof (induction n arbitrary: s k)
  case (Suc n)
  show ?case
  proof (cases k)
    case 0
    then show ?thesis using Suc.prems by (simp add: Let_def live_def)
  next
    case (Suc m)
    have "cf_fd (t ! ((next_slot s + j) mod 64)) \<noteq> - 1" if "j < m" for j
      using Suc.prems(5) Suc that unfolding slot_shift by auto
    moreover have "next_slot s < 64" by (simp add: next_slot_eq)
    ultimately have "find_probe t h p n (next_slot s) \<noteq> None"
      using Suc.prems Suc.IH [of "next_slot s" m] Suc unfolding slot_shift by auto
    moreover have "cf_fd (t ! s) \<noteq> - 1" using Suc.prems(5,6) Suc by force
    ultimately show ?thesis by (simp add: Let_def)
  qed
qed simp

lemma store_probe_slot:
  assumes "store_probe t n s reuse = Some i" and "s < 64"
  shows "reuse = Some i \<or> (\<exists>k < n. i = (s + k) mod 64 \<and> \<not> live (t ! i)
    \<and> (\<forall>j < k. cf_fd (t ! ((s + j) mod 64)) \<noteq> - 1))"
  using assms
proof (induction n arbitrary: s reuse)
  case (Suc n)
  let ?r = "if cf_fd (t ! s) = - 2 \<and> reuse = None then Some s else reuse"
  show ?case
  proof (cases "cf_fd (t ! s) = - 1")
    case True
    then have "i = s" using Suc.prems by (simp add: Let_def)
    then show ?thesis using True Suc.prems(2) by (intro disjI2 exI [of _ 0]) (simp add: live_def)
  next
    case False
    then have "store_probe t n (next_slot s) ?r = Some i" using Suc.prems by (simp add: Let_def)
    then consider (r) "?r = Some i"
      | (k) k where "k < n" "i = (next_slot s + k) mod 64" "\<not> live (t ! i)"
        "\<forall>j < k. cf_fd (t ! ((next_slot s + j) mod 64)) \<noteq> - 1"
      using Suc.IH [of "next_slot s" ?r] by (auto simp: next_slot_eq)
    then show ?thesis
    proof cases
      case r
      show ?thesis
      proof (cases "cf_fd (t ! s) = - 2 \<and> reuse = None")
        case True
        then show ?thesis
          using r Suc.prems(2) by (intro disjI2 exI [of _ 0]) (simp add: live_def)
      qed (use r in \<open>auto split: if_splits\<close>)
    next
      case k
      have "cf_fd (t ! ((s + j) mod 64)) \<noteq> - 1" if "j < Suc k" for j
        using that k(4) False Suc.prems(2) unfolding slot_shift by (cases j) simp_all
      then show ?thesis using k unfolding slot_shift by (intro disjI2 exI [of _ "Suc k"]) simp
    qed
  qed
qed simp

section \<open>The table as a map\<close>

definition tab_slot :: "cached_file list \<Rightarrow> byte list \<Rightarrow> nat option" where
  "tab_slot t p = (if path_ok p then find_probe t (path_hash p) p 64 (home p) else None)"

definition tab_get :: "cached_file list \<Rightarrow> byte list \<Rightarrow> cached_file option" where
  "tab_get t p = map_option ((!) t) (tab_slot t p)"

definition tab_insert :: "byte list \<Rightarrow> cached_file \<Rightarrow> cached_file list \<Rightarrow> cached_file list option" where
  "tab_insert p c t = map_option (\<lambda>i. t[i := c]) (store_probe t 64 (home p) None)"

definition tab_update :: "byte list \<Rightarrow> (cached_file \<Rightarrow> cached_file) \<Rightarrow> cached_file list \<Rightarrow> cached_file list" where
  "tab_update p f t = (case tab_slot t p of None \<Rightarrow> t | Some i \<Rightarrow> t[i := f (t ! i)])"

definition entry_for :: "byte list \<Rightarrow> cached_file \<Rightarrow> bool" where
  "entry_for p c = (path_ok p \<and> live c \<and> cf_path c = p \<and> cf_hash c = path_hash p)"

lemma tab_slot_iff:
  assumes "table_ok t"
  shows "tab_slot t p = Some i \<longleftrightarrow> i < 64 \<and> live (t ! i) \<and> cf_path (t ! i) = p"
proof
  assume "tab_slot t p = Some i"
  then show "i < 64 \<and> live (t ! i) \<and> cf_path (t ! i) = p"
    using find_probe_sound [of t "path_hash p" p 64 "home p" i] by (auto simp: tab_slot_def split: if_splits)
next
  assume i: "i < 64 \<and> live (t ! i) \<and> cf_path (t ! i) = p"
  then have ok: "path_ok p" "cf_hash (t ! i) = path_hash p" "reachable t (home p) i"
    and same: "\<forall>j < 64. live (t ! j) \<and> cf_path (t ! j) = p \<longrightarrow> j = i"
    using assms unfolding table_ok_def by blast+
  from ok(3) obtain k where k: "k < 64" "i = (home p + k) mod 64"
    "\<forall>j < k. cf_fd (t ! ((home p + j) mod 64)) \<noteq> - 1" unfolding reachable_def by blast
  have "find_probe t (path_hash p) p 64 (home p) \<noteq> None"
    using find_probe_complete [of t "home p" k "path_hash p" p 64] i k ok(2) by simp
  then obtain j where j: "find_probe t (path_hash p) p 64 (home p) = Some j" by blast
  with find_probe_sound [OF this] same have "j = i" by simp
  with j ok(1) show "tab_slot t p = Some i" by (simp add: tab_slot_def)
qed

lemma tab_get_Some_iff:
  "table_ok t \<Longrightarrow> tab_get t p = Some c \<longleftrightarrow> (\<exists>i < 64. t ! i = c \<and> live c \<and> cf_path c = p)"
  by (auto simp: tab_get_def tab_slot_iff)

lemma tab_get_None_iff:
  "table_ok t \<Longrightarrow> tab_get t p = None \<longleftrightarrow> (\<forall>i < 64. live (t ! i) \<longrightarrow> cf_path (t ! i) \<noteq> p)"
  using tab_slot_iff [of t p] unfolding tab_get_def by (cases "tab_slot t p") auto

text \<open>Writing one entry: either a dead one, or a live one that its path reaches and that is the only one.\<close>

lemma reachable_update:
  "reachable t s i \<Longrightarrow> cf_fd c \<noteq> - 1 \<Longrightarrow> length t = 64 \<Longrightarrow> reachable (t[j := c]) s i"
  unfolding reachable_def by (metis nth_list_update nth_list_update_neq mod_less_divisor zero_less_numeral)

lemma table_ok_update:
  assumes ok: "table_ok t" and i: "i < 64" and c: "cf_fd c \<noteq> - 1"
    and new: "live c \<Longrightarrow> entry_for (cf_path c) c \<and> reachable t (home (cf_path c)) i
      \<and> (\<forall>j < 64. live (t ! j) \<and> cf_path (t ! j) = cf_path c \<longrightarrow> j = i)"
  shows "table_ok (t[i := c])"
proof -
  have len: "length t = 64" using ok by (simp add: table_ok_def)
  note old = ok [unfolded table_ok_def, THEN conjunct2, rule_format]
  have entry: "path_ok (cf_path d) \<and> cf_hash d = path_hash (cf_path d) \<and> reachable t (home (cf_path d)) j"
    if "j < 64" "live d" "d = t[i := c] ! j" for j d
  proof (cases "j = i")
    case True
    then have d: "d = c" using that(3) len i by simp
    then have "entry_for (cf_path c) c \<and> reachable t (home (cf_path c)) i" using new that(2) by blast
    then show ?thesis unfolding d True entry_for_def by blast
  next
    case False
    then have "d = t ! j" using that by simp
    then show ?thesis using old [OF that(1)] that(2) by simp
  qed
  show ?thesis
    unfolding table_ok_def
  proof (intro conjI allI impI)
    fix j assume j: "j < 64" "live (t[i := c] ! j)"
    show "path_ok (cf_path (t[i := c] ! j))" "cf_hash (t[i := c] ! j) = path_hash (cf_path (t[i := c] ! j))"
      using entry [OF j refl] by blast+
    show "reachable (t[i := c]) (home (cf_path (t[i := c] ! j))) j"
      using entry [OF j refl] reachable_update [OF _ c len] by blast
  next
    fix j k assume j: "j < 64" "live (t[i := c] ! j)" and k: "k < 64"
      and same: "live (t[i := c] ! k) \<and> cf_path (t[i := c] ! k) = cf_path (t[i := c] ! j)"
    show "k = j"
    proof (cases "j = i")
      case True
      have c: "live c" "t[i := c] ! j = c" using j(2) len i unfolding True by simp_all
      show ?thesis
      proof (rule ccontr)
        assume "k \<noteq> j"
        then have "t[i := c] ! k = t ! k" using True by simp
        then have "live (t ! k) \<and> cf_path (t ! k) = cf_path c" using same unfolding c(2) by simp
        then have "k = i" using new [OF c(1)] k by blast
        then show False using \<open>k \<noteq> j\<close> True by simp
      qed
    next
      case ji: False
      then have tj: "live (t ! j)" "t[i := c] ! j = t ! j" using j by auto
      show ?thesis
      proof (cases "k = i")
        case True
        have "live c \<and> cf_path c = cf_path (t ! j)" using same len i unfolding True tj(2) by simp
        then have "j = i" using new tj(1) j(1) by (metis (no_types))
        then show ?thesis using ji by simp
      next
        case False
        then have "live (t ! k) \<and> cf_path (t ! k) = cf_path (t ! j)" using same tj by auto
        then show ?thesis using old [OF j(1) tj(1)] k by blast
      qed
    qed
  qed (simp add: len)
qed

lemma tab_get_update:
  assumes ok: "table_ok t" "table_ok (t[i := c])" and i: "i < 64"
    and p: "live (t ! i) \<Longrightarrow> cf_path (t ! i) = p" "live c \<Longrightarrow> cf_path c = p"
    and absent: "\<not> live (t ! i) \<Longrightarrow> tab_get t p = None"
  shows "tab_get (t[i := c]) = (tab_get t)(p := if live c then Some c else None)"
proof
  fix q
  have len: "length t = 64" using ok(1) by (simp add: table_ok_def)
  show "tab_get (t[i := c]) q = ((tab_get t)(p := if live c then Some c else None)) q"
  proof (cases "q = p")
    case True
    show ?thesis
    proof (cases "live c")
      case live: True
      then have "tab_get (t[i := c]) p = Some c"
        using tab_get_Some_iff [OF ok(2), of p c] i len p(2) by force
      then show ?thesis using live True by simp
    next
      case dead: False
      have "tab_get (t[i := c]) p = None"
        unfolding tab_get_None_iff [OF ok(2)]
      proof (intro allI impI notI)
        fix j assume j: "j < 64" "live (t[i := c] ! j)" "cf_path (t[i := c] ! j) = p"
        with dead len have ne: "j \<noteq> i" by auto
        with j have jj: "live (t ! j)" "cf_path (t ! j) = p" by simp_all
        show False
        proof (cases "live (t ! i)")
          case True
          with p(1) ok(1) i j(1) jj ne show False unfolding table_ok_def by blast
        next
          case False
          with absent tab_get_None_iff [OF ok(1), of p] j(1) jj show False by blast
        qed
      qed
      then show ?thesis using dead True by simp
    qed
  next
    case False
    have "(t[i := c] ! j = d \<and> live d \<and> cf_path d = q) = (t ! j = d \<and> live d \<and> cf_path d = q)"
      for j d using p False len i by (cases "j = i") auto
    then have "tab_get (t[i := c]) q = Some d \<longleftrightarrow> tab_get t q = Some d" for d
      unfolding tab_get_Some_iff [OF ok(1)] tab_get_Some_iff [OF ok(2)] by simp
    then show ?thesis using False by (cases "tab_get t q"; cases "tab_get (t[i := c]) q") auto
  qed
qed

lemma tab_insert_map:
  assumes ok: "table_ok t" and c: "entry_for p c" and absent: "tab_get t p = None"
    and ins: "tab_insert p c t = Some t'"
  shows "tab_get t' = (tab_get t)(p \<mapsto> c) \<and> table_ok t'"
proof -
  from ins obtain i where i: "store_probe t 64 (home p) None = Some i" "t' = t[i := c]"
    by (auto simp: tab_insert_def)
  from store_probe_slot [OF i(1)] obtain k where k: "k < 64" "i = (home p + k) mod 64" "\<not> live (t ! i)"
    "\<forall>j < k. cf_fd (t ! ((home p + j) mod 64)) \<noteq> - 1" by auto
  have p: "live c" "cf_path c = p" "cf_fd c \<noteq> - 1" using c by (auto simp: entry_for_def live_def)
  have lt: "i < 64" using k by simp
  have reach: "reachable t (home p) i" using k unfolding reachable_def by blast
  have only: "\<forall>j < 64. live (t ! j) \<and> cf_path (t ! j) = p \<longrightarrow> j = i"
    using absent tab_get_None_iff [OF ok, of p] by blast
  have ok': "table_ok (t[i := c])"
    by (rule table_ok_update [OF ok lt p(3)]) (use c reach only in \<open>simp add: p\<close>)
  moreover have "tab_get (t[i := c]) = (tab_get t)(p := if live c then Some c else None)"
    by (rule tab_get_update [OF ok ok' lt]) (use k(3) p absent in simp_all)
  ultimately show ?thesis using i(2) p(1) by simp
qed

lemma tab_update_map:
  assumes ok: "table_ok t" and f: "\<And>c. entry_for p c \<Longrightarrow> f c = dead_entry c \<or> entry_for p (f c)"
  shows "tab_get (tab_update p f t) = (tab_get t)(p := (case tab_get t p of None \<Rightarrow> None
      | Some c \<Rightarrow> if live (f c) then Some (f c) else None)) \<and> table_ok (tab_update p f t)"
proof (cases "tab_slot t p")
  case None
  then have "tab_get t p = None" by (simp add: tab_get_def)
  then show ?thesis using None ok by (auto simp: tab_update_def)
next
  case (Some i)
  let ?c = "t ! i"
  have i: "i < 64" "live ?c" "cf_path ?c = p" using Some tab_slot_iff [OF ok] by blast+
  have get: "tab_get t p = Some ?c" using Some by (simp add: tab_get_def)
  have old: "entry_for p ?c" "reachable t (home p) i"
    "\<forall>j < 64. live (t ! j) \<and> cf_path (t ! j) = p \<longrightarrow> j = i"
    using ok i unfolding table_ok_def entry_for_def by blast+
  have fd: "cf_fd (f ?c) \<noteq> - 1" using f [OF old(1)] by (auto simp: dead_entry_def entry_for_def live_def)
  have path: "live (f ?c) \<Longrightarrow> entry_for p (f ?c)" using f [OF old(1)] by (auto simp: dead_entry_def live_def)
  have path': "live (f ?c) \<Longrightarrow> cf_path (f ?c) = p" using path by (simp add: entry_for_def)
  have ok': "table_ok (t[i := f ?c])"
    by (rule table_ok_update [OF ok i(1) fd]) (use path path' old in simp)
  moreover have "tab_get (t[i := f ?c]) = (tab_get t)(p := if live (f ?c) then Some (f ?c) else None)"
    by (rule tab_get_update [OF ok ok' i(1)]) (use i path' in simp_all)
  ultimately show ?thesis using Some get by (simp add: tab_update_def)
qed

interpretation cache: path_table tab_get tab_insert "\<lambda>p. tab_update p dead_entry" tab_update entry_for table_ok
proof
  show "tab_get t' = (tab_get t)(p \<mapsto> e) \<and> table_ok t'"
    if "table_ok t" "entry_for p e" "tab_get t p = None" "tab_insert p e t = Some t'" for t t' p e
    using tab_insert_map that by blast
next
  fix t p
  assume "table_ok t"
  from tab_update_map [OF this, of p dead_entry]
  show "tab_get (tab_update p dead_entry t) = (tab_get t)(p := None) \<and> table_ok (tab_update p dead_entry t)"
    by (cases "tab_get t p") (auto simp: dead_entry_def live_def)
next
  fix t p f
  assume ok: "table_ok t" and f: "\<And>e. entry_for p e \<Longrightarrow> entry_for p (f e)"
  have "live (f c)" if "tab_get t p = Some c" for c
  proof -
    from that obtain i where "i < 64" "t ! i = c" "live c" "cf_path c = p"
      using tab_get_Some_iff [OF ok] by blast
    then have "entry_for p c" using ok unfolding table_ok_def entry_for_def by blast
    from f [OF this] show ?thesis by (simp add: entry_for_def)
  qed
  then show "tab_get (tab_update p f t) = (tab_get t)(p := map_option f (tab_get t p)) \<and> table_ok (tab_update p f t)"
    using tab_update_map [OF ok, of p f] f by (cases "tab_get t p") auto
qed

section \<open>The operations of the cache\<close>

text \<open>An initialised cache with a good table, and the entry it has for a path.\<close>

definition cache_ok :: "'a static_env_scheme \<Rightarrow> bool" where
  "cache_ok e = (fc_ready e \<and> table_ok (fc_table e))"

definition cached :: "'a static_env_scheme \<Rightarrow> byte list \<Rightarrow> cached_file option" where
  "cached e = tab_get (fc_table e)"

lemma init_ready: "fc_ready e \<Longrightarrow> file_cache_init e = e"
  by (simp add: file_cache_init_def)

lemma cache_init_ok:
  assumes "\<not> fc_ready e" and "length (fc_table e) = 64"
  shows "cache_ok (file_cache_init e) \<and> cached (file_cache_init e) = (\<lambda>_. None)"
proof -
  have "\<not> live (map (\<lambda>c. c\<lparr>cf_fd := - 1\<rparr>) (fc_table e) ! i)" if "i < 64" for i
    using that assms(2) by (simp add: live_def)
  then have ok: "table_ok (map (\<lambda>c. c\<lparr>cf_fd := - 1\<rparr>) (fc_table e))"
    using assms(2) by (auto simp: table_ok_def)
  with tab_get_None_iff [OF ok] assms(2) show ?thesis
    using assms(1) by (auto simp: cache_ok_def cached_def file_cache_init_def live_def)
qed

lemma find_slot:
  assumes "cache_ok e"
  shows "file_cache_find p e = (tab_slot (fc_table e) p, e)"
  using assms
  by (simp add: cache_ok_def file_cache_find_def init_ready tab_slot_def path_ok_def home_def Let_def
      FILE_CACHE_SLOTS_def)

lemma slot_facts:
  assumes "cache_ok e" and "tab_slot (fc_table e) p = Some i"
  shows "i < 64" "entry_for p (fc_table e ! i)" "cached e p = Some (fc_table e ! i)" "cf_path (fc_table e ! i) = p"
    "tab_update p f (fc_table e) = (fc_table e)[i := f (fc_table e ! i)]"
proof -
  have ok: "table_ok (fc_table e)" using assms by (simp add: cache_ok_def)
  show i: "i < 64" and path: "cf_path (fc_table e ! i) = p" using assms tab_slot_iff [OF ok] by blast+
  have "live (fc_table e ! i)" using assms tab_slot_iff [OF ok] by blast
  then show "entry_for p (fc_table e ! i)" using ok i path unfolding table_ok_def entry_for_def by blast
  show "cached e p = Some (fc_table e ! i)" using assms by (simp add: cached_def tab_get_def)
  show "tab_update p f (fc_table e) = (fc_table e)[i := f (fc_table e ! i)]" using assms by (simp add: tab_update_def)
qed

lemma retire_fd_table [simp]:
  "fc_table (retire_fd fd uses e) = fc_table e" "fc_ready (retire_fd fd uses e) = fc_ready e"
  by (simp_all add: retire_fd_def sys_close_def)

lemma open_under_table:
  "open_under_loop n d p e = (r, e') \<Longrightarrow> fc_table e' = fc_table e \<and> fc_ready e' = fc_ready e
    \<and> fc_retired e' = fc_retired e \<and> k_closed e' = k_closed e \<and> se_docroot_fd e' = se_docroot_fd e
    \<and> se_policy e' = se_policy e"
  by (induction n arbitrary: e)
    (auto simp: sys_open_def split: list.splits sum.splits errno.splits prod.splits)

lemma sys_stat_table:
  "sys_stat e = (r, e') \<Longrightarrow> fc_table e' = fc_table e \<and> fc_ready e' = fc_ready e
    \<and> fc_retired e' = fc_retired e \<and> k_closed e' = k_closed e \<and> se_docroot_fd e' = se_docroot_fd e
    \<and> se_policy e' = se_policy e \<and> se_opens e' = se_opens e \<and> se_opened e' = se_opened e"
  by (auto simp: sys_stat_def split: list.splits)

text \<open>Each operation is one operation of the table.\<close>

lemma store_table:
  assumes "cache_ok e" and "file_cache_store p fd st mime now e = (r, e')"
  shows "fc_ready e' \<and> (r \<noteq> None \<longrightarrow> path_ok p \<and> 0 \<le> fd)
    \<and> (case r of None \<Rightarrow> e' = e
       | Some i \<Rightarrow> i < 64 \<and> e' = put_entry i (fill_entry (path_hash p) p fd st mime now) e \<and> \<not> live (fc_table e ! i)
           \<and> tab_insert p (fill_entry (path_hash p) p fd st mime now) (fc_table e) = Some (fc_table e'))"
proof -
  have init: "file_cache_init e = e" "fc_ready e" using assms(1) by (simp_all add: cache_ok_def init_ready)
  show ?thesis
  proof (cases "path_ok p \<and> 0 \<le> fd")
    case False
    then show ?thesis using assms(2) init
      by (auto simp: file_cache_store_def Let_def path_ok_def FILE_CACHE_PATH_def)
  next
    case True
    then have run: "(r, e') = (case store_probe (fc_table e) 64 (home p) None of None \<Rightarrow> (None, e)
        | Some i \<Rightarrow> (Some i, put_entry i (fill_entry (path_hash p) p fd st mime now) e))"
      using assms(2) init
      by (auto simp: file_cache_store_def Let_def path_ok_def FILE_CACHE_PATH_def FILE_CACHE_SLOTS_def home_def)
    show ?thesis
    proof (cases "store_probe (fc_table e) 64 (home p) None")
      case None
      then show ?thesis using run init True by simp
    next
      case (Some i)
      from store_probe_slot [OF Some] have "i < 64" "\<not> live (fc_table e ! i)" by auto
      then show ?thesis using run init True Some by (simp add: tab_insert_def)
    qed
  qed
qed

lemma store_cached:
  assumes e: "cache_ok e" and absent: "cached e p = None"
    and run: "file_cache_store p fd st mime now e = (r, e')"
  shows "cache_ok e'
    \<and> (case r of None \<Rightarrow> cached e' = cached e
       | Some i \<Rightarrow> cached e' = (cached e)(p \<mapsto> fill_entry (path_hash p) p fd st mime now)
           \<and> file_cache_find p e' = (Some i, e'))"
proof (cases r)
  case None
  then show ?thesis using store_table [OF e run] e by simp
next
  case (Some i)
  let ?c = "fill_entry (path_hash p) p fd st mime now"
  note st = store_table [OF e run] Some
  have c: "entry_for p ?c" using st by (auto simp: entry_for_def fill_entry_def live_def)
  have ok: "table_ok (fc_table e)" using e by (simp add: cache_ok_def)
  have new: "cached e' = (cached e)(p \<mapsto> ?c) \<and> cache_ok e'"
    using cache.find_insert [OF ok c, of "fc_table e'"] absent st e by (simp add: cached_def cache_ok_def)
  have "fc_table e' ! i = ?c" using st ok by (simp add: table_ok_def)
  then have "tab_slot (fc_table e') p = Some i"
    using tab_slot_iff [of "fc_table e'" p i] new st c by (auto simp: cache_ok_def entry_for_def)
  with new find_slot [of e' p] Some show ?thesis by simp
qed

lemma tombstone_table:
  assumes "cache_ok e" and "tab_slot (fc_table e) p = Some i"
  shows "fc_table (tombstone i e) = tab_update p dead_entry (fc_table e)" "fc_ready (tombstone i e) = fc_ready e"
  using slot_facts(5) [OF assms, of dead_entry] by (simp_all add: tombstone_def Let_def dead_entry_def)

lemma tombstone_cached:
  assumes e: "cache_ok e" and slot: "tab_slot (fc_table e) p = Some i"
  shows "cached (tombstone i e) = (cached e)(p := None) \<and> cache_ok (tombstone i e)"
  using cache.find_delete [of "fc_table e" p] e tombstone_table [OF assms] by (simp add: cached_def cache_ok_def)

text \<open>Replacing the entry of a path by another live one.\<close>

lemma put_cached:
  assumes e: "cache_ok e" and slot: "tab_slot (fc_table e) p = Some i" and c: "entry_for p c"
    and e': "fc_table e' = (fc_table e)[i := c]" "fc_ready e'"
  shows "cached e' = (cached e)(p \<mapsto> c) \<and> cache_ok e'"
proof -
  have "fc_table e' = tab_update p (\<lambda>_. c) (fc_table e)" using slot_facts(5) [OF e slot, of "\<lambda>_. c"] e'(1) by simp
  moreover have "tab_get (fc_table e) p = Some (fc_table e ! i)" using slot_facts(3) [OF e slot] by (simp add: cached_def)
  ultimately show ?thesis
    using cache.find_modify [of "fc_table e" p "\<lambda>_. c"] e e'(2) c by (simp add: cached_def cache_ok_def)
qed

text \<open>The descriptors \<open>open\<close> hands out are not negative.\<close>

definition opens_ok :: "'a static_env_scheme \<Rightarrow> bool" where
  "opens_ok e = (\<forall>r \<in> set (se_opens e). case r of Inr fd \<Rightarrow> 0 \<le> fd | Inl _ \<Rightarrow> True)"

lemma open_under_result:
  "open_under_loop n d p e = (Inr fd, e') \<Longrightarrow> Inr fd \<in> set (se_opens e)"
proof (induction n arbitrary: e)
  case (Suc n)
  let ?e = "e\<lparr>se_opened := se_opened e @ [(d, p, open_how (se_policy e))]\<rparr>"
  obtain r e1 where call: "sys_open ?e = (r, e1)" by (cases "sys_open ?e")
  then have e1: "set (se_opens e1) \<subseteq> set (se_opens e)" "r \<noteq> Inl EOTHER \<Longrightarrow> r \<in> set (se_opens e)"
    by (auto simp: sys_open_def split: list.splits)
  show ?case
  proof (cases "r = Inl EAGAIN")
    case True
    then have "open_under_loop n d p e1 = (Inr fd, e')" using Suc.prems call by simp
    with Suc.IH e1 show ?thesis by blast
  next
    case False
    then have "r = Inr fd" using Suc.prems call by (auto split: sum.splits errno.splits)
    with e1 show ?thesis by simp
  qed
qed simp

lemma recheck_cases:
  assumes e: "cache_ok e" and run: "file_cache_recheck i now e = (b, e')"
  obtains (fresh) "b" "e' = e" "now - cf_checked (fc_table e ! i) < FILE_CACHE_RECHECK_MS"
  | (same) st e1 where "b" "sys_stat e = (Some st, e1)" "st_kind st = Regular" "0 \<le> st_size st"
      "same_meta (fc_table e ! i) st" "e' = put_entry i ((fc_table e ! i)\<lparr>cf_checked := now\<rparr>) e1"
  | (gone) e1 where "\<not> b" "e' = tombstone i e1" "fc_table e1 = fc_table e" "fc_ready e1 = fc_ready e"
      "fc_retired e1 = fc_retired e" "k_closed e1 = k_closed e"
  | (reopened) st fd e1 e2 where "b" "sys_stat e = (Some st, e1)" "st_kind st = Regular" "0 \<le> st_size st"
      "open_under (se_docroot_fd e1) (cf_path (fc_table e ! i)) e1 = (Inr fd, e2)"
      "e' = put_entry i ((fc_table e ! i)\<lparr>cf_fd := fd, cf_uses := 0, cf_size := st_size st,
          cf_mtime_sec := st_mtime_sec st, cf_mtime_nsec := st_mtime_nsec st, cf_ino := st_ino st,
          cf_mime := mime_from_path (cf_path (fc_table e ! i)), cf_checked := now\<rparr>)
        (retire_fd (cf_fd (fc_table e ! i)) (cf_uses (fc_table e ! i)) e2)"
proof -
  let ?c = "fc_table e ! i"
  show thesis
  proof (cases "now - cf_checked ?c < FILE_CACHE_RECHECK_MS")
    case True
    then show thesis using run fresh by (simp add: file_cache_recheck_def)
  next
    case old: False
    obtain r e1 where stat: "sys_stat e = (r, e1)" by (cases "sys_stat e")
    note keep = sys_stat_table [OF stat]
    show thesis
    proof (cases "\<exists>st. r = Some st \<and> st_kind st = Regular \<and> 0 \<le> st_size st")
      case False
      then have "(b, e') = (False, tombstone i e1)"
        using run old stat unfolding file_cache_recheck_def by (cases r) (auto simp: Let_def not_le)
      then show thesis using gone keep by simp
    next
      case True
      then obtain st where st: "r = Some st" "st_kind st = Regular" "\<not> st_size st < 0" by auto
      show thesis
      proof (cases "same_meta ?c st")
        case True
        then show thesis using run old stat st same [OF _ stat [unfolded st(1)]] keep
          by (simp add: file_cache_recheck_def Let_def)
      next
        case False
        obtain o1 e2 where op: "open_under (se_docroot_fd e1) (cf_path ?c) e1 = (o1, e2)"
          by (cases "open_under (se_docroot_fd e1) (cf_path ?c) e1")
        note keep2 = open_under_table [OF op [unfolded open_under_def]]
        show thesis
        proof (cases o1)
          case (Inl x)
          then show thesis using run old stat st False op gone [of e2] keep keep2
            by (simp add: file_cache_recheck_def Let_def)
        next
          case (Inr fd)
          then show thesis
            using run old stat st False reopened [OF _ stat [unfolded st(1)] _ _ op [unfolded Inr]] op keep keep2
            by (simp add: file_cache_recheck_def Let_def)
        qed
      qed
    qed
  qed
qed

text \<open>
  C22. Storing a file in the cache is an insertion into the map from paths to entries. On an
  initialised cache that has no entry for a path, \<open>file_cache_store\<close> either refuses and changes
  nothing, or makes exactly this path map to the new entry; \<open>file_cache_find\<close> then returns its slot,
  and every other path, whatever it collides with, finds what it found before.
\<close>

theorem file_cache_store_find:
  assumes "cache_ok e" and "cached e p = None" and "file_cache_store p fd st mime now e = (r, e')"
  shows "cache_ok e'
    \<and> (case r of None \<Rightarrow> cached e' = cached e
       | Some i \<Rightarrow> cached e' = (cached e)(p \<mapsto> fill_entry (path_hash p) p fd st mime now)
           \<and> file_cache_find p e' = (Some i, e'))"
  using store_cached [OF assms] .

text \<open>An empty cache, and a file \<open>a\<close> of three bytes.\<close>

definition entry0 :: cached_file where
  "entry0 = \<lparr>cf_hash = 0, cf_checked = 0, cf_mtime_sec = 0, cf_mtime_nsec = 0, cf_size = 0, cf_ino = 0,
     cf_mime = [], cf_fd = - 1, cf_uses = 0, cf_path = []\<rparr>"

definition static_env0 :: static_env where
  "static_env0 = \<lparr>k_reads = (\<lambda>_. []), k_writes = (\<lambda>_. []), k_sent = (\<lambda>_. []), k_closed = [], k_sockets = [],
     k_connects = [], k_epolls = [], k_sockopts = [], k_files = (\<lambda>_. []),
     se_docroot_fd = 3, se_policy = \<lparr>allow_dotfiles = False, allow_symlinks = True\<rparr>, se_opens = [], se_stats = [],
     se_opened = [], fc_ready = True, fc_table = replicate 64 entry0,
     fc_retired = replicate 8 \<lparr>rf_fd = - 1, rf_uses = 0\<rparr>\<rparr>"

definition stat_sample :: file_stat where
  "stat_sample = \<lparr>st_kind = Regular, st_size = 3, st_mtime_sec = 100, st_mtime_nsec = 0, st_ino = 7\<rparr>"

lemma cache_ok_empty: "cache_ok static_env0" "cached static_env0 p = None"
proof -
  have ok: "table_ok (replicate 64 entry0)" by (simp add: table_ok_def entry0_def live_def)
  then show "cache_ok static_env0" by (simp add: cache_ok_def static_env0_def)
  have "\<not> live (replicate 64 entry0 ! i)" if "i < 64" for i using that by (simp add: entry0_def live_def)
  then show "cached static_env0 p = None"
    using tab_get_None_iff [OF ok, of p] by (simp add: cached_def static_env0_def)
qed

lemma store_empty:
  "\<exists>i. file_cache_store [97] 9 stat_sample ''text/plain'' now static_env0 =
    (Some i, put_entry i (fill_entry (path_hash [97]) [97] 9 stat_sample ''text/plain'' now) static_env0)"
proof -
  have "store_probe (replicate 64 entry0) 64 (home [97]) None = Some (home [97])"
    using store_probe.simps(2) [of "replicate 64 entry0" 63 "home [97]" None] home_less [of "[97]"]
    by (simp add: entry0_def Let_def)
  then show ?thesis
    by (simp add: file_cache_store_def static_env0_def file_cache_init_def FILE_CACHE_PATH_def
        FILE_CACHE_SLOTS_def home_def Let_def)
qed

lemma file_cache_store_find_witness:
  "\<exists>i e'. file_cache_store [97] 9 stat_sample ''text/plain'' 5 static_env0 = (Some i, e')
    \<and> file_cache_find [97] e' = (Some i, e') \<and> cached e' [98] = None"
proof -
  obtain i e' where run: "file_cache_store [97] 9 stat_sample ''text/plain'' 5 static_env0 = (Some i, e')"
    using store_empty by blast
  from file_cache_store_find [OF cache_ok_empty run] cache_ok_empty(2) [of "[98]"]
  show ?thesis using run by auto
qed

lemma recheck_cached:
  assumes e: "cache_ok e" and opens: "opens_ok e" and hit: "file_cache_find p e = (Some i, e1)"
    and run: "file_cache_recheck i now e1 = (b, e')"
  shows "cache_ok e' \<and> (if b then
      \<exists>c. cached e' = (cached e)(p \<mapsto> c) \<and>
        (now - cf_checked c < FILE_CACHE_RECHECK_MS \<and> cached e p = Some c
         \<or> (\<exists>st. fst (sys_stat e) = Some st \<and> st_kind st = Regular \<and> same_meta c st \<and> cf_checked c = now))
      else cached e' = (cached e)(p := None))"
proof -
  from hit find_slot [OF e] have slot: "tab_slot (fc_table e) p = Some i" and e1: "e1 = e" by auto
  note fact = slot_facts [OF e slot]
  have ready: "fc_ready e" using e by (simp add: cache_ok_def)
  show ?thesis
  proof (cases rule: recheck_cases [OF e run [unfolded e1]])
    case 1
    then show ?thesis using fact(3) e by (auto intro!: exI [of _ "fc_table e ! i"])
  next
    case (2 st e2)
    note keep = sys_stat_table [OF 2(2)]
    let ?c = "(fc_table e ! i)\<lparr>cf_checked := now\<rparr>"
    have "entry_for p ?c" using fact(2) by (simp add: entry_for_def live_def)
    from put_cached [OF e slot this, of e'] 2 keep ready
    show ?thesis by (auto intro!: exI [of _ ?c] simp: same_meta_def)
  next
    case (3 e2)
    have e2: "cache_ok e2" "tab_slot (fc_table e2) p = Some i" "cached e2 = cached e"
      using 3 e slot by (simp_all add: cache_ok_def cached_def)
    from tombstone_cached [OF e2(1,2)] e2(3) 3 show ?thesis by simp
  next
    case (4 st fd e2 e3)
    note keep = sys_stat_table [OF 4(2)] and keep2 = open_under_table [OF 4(5) [unfolded open_under_def]]
    have "0 \<le> fd"
      using open_under_result [OF 4(5) [unfolded open_under_def]] opens keep by (fastforce simp: opens_ok_def)
    define c where "c = (fc_table e ! i)\<lparr>cf_fd := fd, cf_uses := 0, cf_size := st_size st,
        cf_mtime_sec := st_mtime_sec st, cf_mtime_nsec := st_mtime_nsec st, cf_ino := st_ino st,
        cf_mime := mime_from_path (cf_path (fc_table e ! i)), cf_checked := now\<rparr>"
    have c: "entry_for p c" "same_meta c st" "cf_checked c = now"
      using fact(2) \<open>0 \<le> fd\<close> by (simp_all add: c_def entry_for_def live_def same_meta_def)
    have "fc_table e' = (fc_table e)[i := c]" "fc_ready e'" using 4(6) keep keep2 ready by (simp_all add: c_def)
    from put_cached [OF e slot c(1) this] 4 c show ?thesis by auto
  qed
qed

text \<open>
  C23. A cache hit is never staler than a second. When \<open>file_cache_recheck\<close> keeps the entry of a
  path, either it was checked less than \<open>FILE_CACHE_RECHECK_MS\<close> ago and is unchanged, or the file was
  just examined, is regular, and the entry agrees with its size, time and inode. Otherwise the
  path is gone from the cache. Nothing else in the map changes.
\<close>

theorem file_cache_recheck_current:
  assumes e: "cache_ok e" and opens: "opens_ok e" and hit: "file_cache_find p e = (Some i, e1)"
    and run: "file_cache_recheck i now e1 = (b, e')"
  shows "cache_ok e' \<and> (if b then
      \<exists>c. cached e' = (cached e)(p \<mapsto> c) \<and>
        (now - cf_checked c < FILE_CACHE_RECHECK_MS \<and> cached e p = Some c
         \<or> (\<exists>st. fst (sys_stat e) = Some st \<and> st_kind st = Regular \<and> same_meta c st \<and> cf_checked c = now))
      else cached e' = (cached e)(p := None))"
  using recheck_cached [OF assms] .

text \<open>The file \<open>a\<close> stored at 5 ms and looked up at 5000 ms, unchanged on disk.\<close>

lemma file_cache_recheck_current_witness:
  "\<exists>(e :: static_env) i e' c. file_cache_find [97] e = (Some i, e) \<and> file_cache_recheck i 5000 e = (True, e')
    \<and> cached e' [97] = Some c \<and> cf_fd (fc_table e ! i) = 9"
proof -
  let ?c = "fill_entry (path_hash [97]) [97] 9 stat_sample ''text/plain'' 5"
  obtain i where run: "file_cache_store [97] 9 stat_sample ''text/plain'' 5 static_env0 = (Some i, put_entry i ?c static_env0)"
    using store_empty by blast
  from store_cached [OF cache_ok_empty run] have st: "cache_ok (put_entry i ?c static_env0)"
    "file_cache_find [97] (put_entry i ?c static_env0) = (Some i, put_entry i ?c static_env0)" by simp_all
  let ?e = "(put_entry i ?c static_env0)\<lparr>se_stats := [Some stat_sample]\<rparr>"
  have e: "cache_ok ?e" using st(1) by (simp add: cache_ok_def)
  have hit: "file_cache_find [97] ?e = (Some i, ?e)" using find_slot [OF e, of "[97]"] find_slot [OF st(1), of "[97]"] st(2) by simp
  have "i < 64" using store_table [OF cache_ok_empty(1) run] by simp
  then have entry: "fc_table ?e ! i = ?c" by (simp add: static_env0_def)
  have opens: "opens_ok ?e" by (simp add: opens_ok_def static_env0_def)
  have "\<exists>e'. file_cache_recheck i 5000 ?e = (True, e')"
    unfolding file_cache_recheck_def entry Let_def
    by (simp add: fill_entry_def FILE_CACHE_RECHECK_MS_def sys_stat_def stat_sample_def same_meta_def)
  then obtain e' where re: "file_cache_recheck i 5000 ?e = (True, e')" by blast
  have "\<exists>c. cached e' [97] = Some c"
    using file_cache_recheck_current [OF e opens hit re] by (simp only: if_True) fastforce
  then obtain c where c: "cached e' [97] = Some c" by blast
  have fd: "cf_fd (fc_table ?e ! i) = 9" unfolding entry by (simp add: fill_entry_def)
  show ?thesis
    by (rule exI [of _ ?e], rule exI [of _ i], rule exI [of _ e'], rule exI [of _ c], intro conjI hit re c fd)
qed

end
