(* ===== verification/Cache_Holds.thy ===== *)
theory Cache_Holds
  imports Path_Table "HOL-Library.Multiset"
begin

text \<open>
  Who may close a cached descriptor. A response in flight holds the descriptor it sends from; the
  state machine below has one step for each thing a worker does with the cache, and a ghost
  multiset of the descriptors held by responses. The invariant relates it to the \<open>uses\<close> counters.
\<close>

section \<open>The steps\<close>

text \<open>The descriptors the cache has open, and all that are in use.\<close>

definition cache_fds :: "'a static_env_scheme \<Rightarrow> int set" where
  "cache_fds e = cf_fd ` {c \<in> set (fc_table e). live c} \<union> rf_fd ` {r \<in> set (fc_retired e). 0 \<le> rf_fd r}"

definition in_use :: "'a static_env_scheme \<Rightarrow> int multiset \<Rightarrow> int set" where
  "in_use e held = cache_fds e \<union> set_mset held"

text \<open>The kernel's answers in one step: it never hands out a descriptor that is in use.\<close>

definition answers :: "'a static_env_scheme \<Rightarrow> int multiset \<Rightarrow> (errno + int) list \<Rightarrow> bool" where
  "answers e held os = (\<forall>fd. Inr fd \<in> set os \<longrightarrow> 0 \<le> fd \<and> fd \<notin> in_use e held)"

text \<open>
  The calls of \<open>static_serve\<close> on a cached path (\<open>hit\<close>, or \<open>stale\<close> when the recheck drops the
  entry), on a file it has just opened (\<open>store\<close>), and the end of a response (\<open>release\<close>).
\<close>

inductive cache_step :: "'a static_env_scheme \<times> int multiset \<Rightarrow> 'a static_env_scheme \<times> int multiset \<Rightarrow> bool" where
  hit: "answers e held os \<Longrightarrow> file_cache_find p (e\<lparr>se_opens := os, se_stats := ss\<rparr>) = (Some i, e1) \<Longrightarrow>
    file_cache_recheck i now e1 = (True, e2) \<Longrightarrow> size held < 65535 \<Longrightarrow>
    cache_step (e, held) (file_cache_hold i e2, add_mset (cf_fd (fc_table e2 ! i)) held)"
| stale: "answers e held os \<Longrightarrow> file_cache_find p (e\<lparr>se_opens := os, se_stats := ss\<rparr>) = (Some i, e1) \<Longrightarrow>
    file_cache_recheck i now e1 = (False, e2) \<Longrightarrow> cache_step (e, held) (e2, held)"
| store: "0 \<le> fd \<Longrightarrow> fd \<notin> in_use e held \<Longrightarrow> cached e p = None \<Longrightarrow>
    file_cache_store p fd st mime now e = (Some i, e1) \<Longrightarrow> size held < 65535 \<Longrightarrow>
    cache_step (e, held) (file_cache_hold i e1, add_mset fd held)"
| release: "fd \<in># held \<Longrightarrow> cache_step (e, held) (static_cache_release fd e, held - {#fd#})"

section \<open>Descriptors and their counters\<close>

text \<open>
  The open descriptors of the two tables with their \<open>uses\<close>, as multisets, and what the counters
  say about the responses: every descriptor occurs once, and its counter is the number of
  responses that hold it; a retired one is held.
\<close>

definition tab_own :: "cached_file list \<Rightarrow> (int \<times> u16) multiset" where
  "tab_own t = image_mset (\<lambda>c. (cf_fd c, cf_uses c)) (filter_mset live (mset t))"

definition ret_own :: "retired_fd list \<Rightarrow> (int \<times> u16) multiset" where
  "ret_own rs = image_mset (\<lambda>r. (rf_fd r, rf_uses r)) (filter_mset (\<lambda>r. 0 \<le> rf_fd r) (mset rs))"

definition counts :: "(int \<times> u16) multiset \<Rightarrow> (int \<times> u16) multiset \<Rightarrow> int multiset \<Rightarrow> bool" where
  "counts T R held =
     ((\<forall>fd. count (image_mset fst (T + R)) fd \<le> 1)
    \<and> (\<forall>x \<in># T. unat (snd x) = count held (fst x))
    \<and> (\<forall>x \<in># R. unat (snd x) = count held (fst x) \<and> 0 < snd x))"

lemma counts_unique:
  assumes "counts (add_mset (fd, u) T) R held"
  shows "x \<in># T + R \<Longrightarrow> fd \<noteq> fst x"
proof
  assume x: "x \<in># T + R" "fd = fst x"
  then have "fd \<in># image_mset fst (T + R)" by auto
  then have "1 \<le> count (image_mset fst (T + R)) fd" by (simp only: count_greater_eq_one_iff)
  then have "2 \<le> count (image_mset fst (add_mset (fd, u) T + R)) fd" by simp
  moreover have "count (image_mset fst (add_mset (fd, u) T + R)) fd \<le> 1" using assms unfolding counts_def by blast
  ultimately show False by simp
qed

text \<open>The five changes a step makes.\<close>

lemma unat_Suc_16: "unat u < 65535 \<Longrightarrow> unat (u + 1 :: u16) = unat u + 1"
  by (simp add: unat_word_ariths)

lemma unat_pred_16: "0 < u \<Longrightarrow> unat (u - 1 :: u16) = unat u - 1"
proof -
  assume "0 < u"
  then have "0 < unat u" by (simp add: word_less_nat_alt)
  then show ?thesis using unat_sub [of 1 u] by (simp add: word_le_nat_alt)
qed

lemma counts_hold:
  assumes c: "counts (add_mset (fd, u) T) R held" and "size held < 65535"
  shows "counts (add_mset (fd, u + 1) T) R (add_mset fd held)" "u < 65535"
proof -
  have "unat u = count held fd" using c by (simp add: counts_def)
  moreover have "count held fd \<le> size held" by (rule count_le_size)
  ultimately have u: "unat u < 65535" "unat u = count held fd" using assms(2) by simp_all
  then show "u < 65535" by (simp add: word_less_nat_alt)
  show "counts (add_mset (fd, u + 1) T) R (add_mset fd held)"
    using c u unat_Suc_16 [OF u(1)] counts_unique [OF c] by (auto simp: counts_def)
qed

lemma counts_new:
  assumes "counts T R held" and "fd \<notin> fst ` set_mset (T + R)" and "fd \<notin># held"
  shows "counts (add_mset (fd, 0) T) R held"
proof -
  have "count (image_mset fst (T + R)) fd = 0" using assms(2) by (auto simp: count_eq_zero_iff)
  with assms show ?thesis by (auto simp: counts_def count_eq_zero_iff [THEN iffD2])
qed

lemma counts_drop:
  assumes "counts (add_mset (fd, u) T) R held"
  shows "counts T R held" "u \<noteq> 0 \<Longrightarrow> counts T (add_mset (fd, u) R) held" "u = 0 \<Longrightarrow> fd \<notin># held"
proof -
  have "count (image_mset fst (T + R)) f \<le> count (image_mset fst (add_mset (fd, u) T + R)) f" for f by simp
  then have "count (image_mset fst (T + R)) f \<le> 1" for f
    using assms unfolding counts_def by (blast intro: order_trans)
  with assms show "counts T R held" unfolding counts_def by auto
  show "counts T (add_mset (fd, u) R) held" if "u \<noteq> 0"
    using assms that by (simp add: counts_def word_gt_0)
  show "fd \<notin># held" if "u = 0" using assms that by (simp add: counts_def count_eq_zero_iff)
qed

lemma counts_swap: "counts T (add_mset (fd, u) R) held \<Longrightarrow> counts (add_mset (fd, u) T) R held"
  by (simp add: counts_def)

lemma counts_release:
  assumes c: "counts (add_mset (fd, u) T) R held" and fd: "fd \<in># held"
  shows "0 < u" "counts (add_mset (fd, u - 1) T) R (held - {#fd#})"
proof -
  have u: "unat u = count held fd" using c by (simp add: counts_def)
  with fd show "0 < u" by (simp add: unat_gt_0 [symmetric] word_gt_0)
  with u unat_pred_16 [OF this] c counts_unique [OF c]
  show "counts (add_mset (fd, u - 1) T) R (held - {#fd#})" by (simp add: counts_def)
qed

lemma counts_other:
  assumes "counts T R held" and "fd \<notin> fst ` set_mset (T + R)"
  shows "counts T R (held - {#fd#})"
proof -
  have "fd \<noteq> fst x" if "x \<in># T \<or> x \<in># R" for x using assms(2) that by auto
  with assms(1) show ?thesis unfolding counts_def by auto
qed

section \<open>The operations\<close>

definition holds_inv :: "'a static_env_scheme \<Rightarrow> int multiset \<Rightarrow> bool" where
  "holds_inv e held =
     (cache_ok e \<and> counts (tab_own (fc_table e)) (ret_own (fc_retired e)) held \<and> (\<forall>fd \<in># held. 0 \<le> fd))"

text \<open>What was closed on the way from \<open>e\<close> to \<open>e'\<close> is not in use any more.\<close>

definition closes_free :: "'a static_env_scheme \<Rightarrow> 'a static_env_scheme \<Rightarrow> int multiset \<Rightarrow> bool" where
  "closes_free e e' held = (\<exists>cl. k_closed e' = k_closed e @ cl \<and> (\<forall>fd \<in> set cl. fd \<notin> in_use e' held))"

lemma closes_free_same: "k_closed e' = k_closed e \<Longrightarrow> closes_free e e' held"
  by (simp add: closes_free_def)

lemma tab_own_update:
  assumes "i < length t"
  obtains B where "tab_own t = (if live (t ! i) then {#(cf_fd (t ! i), cf_uses (t ! i))#} else {#}) + B"
    "\<And>c. tab_own (t[i := c]) = (if live c then {#(cf_fd c, cf_uses c)#} else {#}) + B"
proof
  let ?M = "mset t - {#t ! i#}"
  let ?B = "image_mset (\<lambda>c. (cf_fd c, cf_uses c)) (filter_mset live ?M)"
  have "mset t = add_mset (t ! i) ?M" using assms by simp
  then have "tab_own t = image_mset (\<lambda>c. (cf_fd c, cf_uses c)) (filter_mset live (add_mset (t ! i) ?M))"
    by (simp only: tab_own_def)
  then show "tab_own t = (if live (t ! i) then {#(cf_fd (t ! i), cf_uses (t ! i))#} else {#}) + ?B" by simp
  show "tab_own (t[i := c]) = (if live c then {#(cf_fd c, cf_uses c)#} else {#}) + ?B" for c
    using assms by (simp add: tab_own_def mset_update)
qed

lemma ret_own_update:
  assumes "i < length t"
  obtains B where "ret_own t = (if 0 \<le> rf_fd (t ! i) then {#(rf_fd (t ! i), rf_uses (t ! i))#} else {#}) + B"
    "\<And>c. ret_own (t[i := c]) = (if 0 \<le> rf_fd c then {#(rf_fd c, rf_uses c)#} else {#}) + B"
proof
  let ?M = "mset t - {#t ! i#}"
  let ?B = "image_mset (\<lambda>c. (rf_fd c, rf_uses c)) (filter_mset (\<lambda>r. 0 \<le> rf_fd r) ?M)"
  have "mset t = add_mset (t ! i) ?M" using assms by simp
  then have "ret_own t = image_mset (\<lambda>c. (rf_fd c, rf_uses c)) (filter_mset (\<lambda>r. 0 \<le> rf_fd r) (add_mset (t ! i) ?M))"
    by (simp only: ret_own_def)
  then show "ret_own t = (if 0 \<le> rf_fd (t ! i) then {#(rf_fd (t ! i), rf_uses (t ! i))#} else {#}) + ?B" by simp
  show "ret_own (t[i := c]) = (if 0 \<le> rf_fd c then {#(rf_fd c, rf_uses c)#} else {#}) + ?B" for c
    using assms by (simp add: ret_own_def mset_update)
qed

lemma cache_fds_own: "cache_fds e = fst ` set_mset (tab_own (fc_table e) + ret_own (fc_retired e))"
  by (auto simp: cache_fds_def tab_own_def ret_own_def image_Un image_image)

lemma ret_own_retire_slot:
  "0 \<le> rf_fd r \<Longrightarrow> ret_own (retire_slot rs r) =
    (if \<exists>x \<in> set rs. rf_fd x < 0 then add_mset (rf_fd r, rf_uses r) (ret_own rs) else ret_own rs)"
  by (induction rs) (auto simp: ret_own_def)

text \<open>Retiring a descriptor whose entry has been dropped from the table.\<close>

lemma retire_counts:
  assumes "counts (add_mset (fd, u) T) (ret_own (fc_retired e)) held" and "0 \<le> fd"
  shows "counts T (ret_own (fc_retired (retire_fd fd u e))) held"
    "k_closed (retire_fd fd u e) = k_closed e @ (if u = 0 then [fd] else [])"
    "fst ` set_mset (ret_own (fc_retired (retire_fd fd u e))) \<subseteq> insert fd (fst ` set_mset (ret_own (fc_retired e)))"
    "u = 0 \<Longrightarrow> fd \<notin># held \<and> fd \<notin> fst ` set_mset (T + ret_own (fc_retired (retire_fd fd u e)))"
proof -
  show "counts T (ret_own (fc_retired (retire_fd fd u e))) held"
    using counts_drop [OF assms(1)] assms(2)
    by (simp add: retire_fd_def sys_close_def ret_own_retire_slot)
  show "fst ` set_mset (ret_own (fc_retired (retire_fd fd u e))) \<subseteq> insert fd (fst ` set_mset (ret_own (fc_retired e)))"
    using assms(2) by (auto simp: retire_fd_def sys_close_def ret_own_retire_slot)
  show "k_closed (retire_fd fd u e) = k_closed e @ (if u = 0 then [fd] else [])"
    using assms(2) by (simp add: retire_fd_def sys_close_def)
  show "fd \<notin># held \<and> fd \<notin> fst ` set_mset (T + ret_own (fc_retired (retire_fd fd u e)))" if "u = 0"
    using counts_drop(3) [OF assms(1)] counts_unique [OF assms(1)] assms(2) that
    by (auto simp: retire_fd_def sys_close_def)
qed

lemma slot_of_live:
  assumes "cache_ok e" and "i < 64" and "live (fc_table e ! i)"
  shows "tab_slot (fc_table e) (cf_path (fc_table e ! i)) = Some i" "i < length (fc_table e)"
  using assms tab_slot_iff [of "fc_table e" "cf_path (fc_table e ! i)" i]
  by (simp_all add: cache_ok_def table_ok_def)

lemma hold_inv:
  assumes inv: "holds_inv e held" and i: "i < 64" "live (fc_table e ! i)" and size: "size held < 65535"
  shows "holds_inv (file_cache_hold i e) (add_mset (cf_fd (fc_table e ! i)) held)"
    "k_closed (file_cache_hold i e) = k_closed e"
    "in_use (file_cache_hold i e) (add_mset (cf_fd (fc_table e ! i)) held) = in_use e held"
proof -
  let ?c = "fc_table e ! i" and ?t = "fc_table e"
  have e: "cache_ok e" using inv by (simp add: holds_inv_def)
  note slot = slot_of_live [OF e i]
  obtain B where B: "tab_own ?t = (if live ?c then {#(cf_fd ?c, cf_uses ?c)#} else {#}) + B"
    "\<And>c. tab_own (?t[i := c]) = (if live c then {#(cf_fd c, cf_uses c)#} else {#}) + B"
    using tab_own_update [OF slot(2)] by blast
  have "counts (add_mset (cf_fd ?c, cf_uses ?c) B) (ret_own (fc_retired e)) held"
    using inv B(1) i by (simp add: holds_inv_def)
  note new = counts_hold [OF this size]
  let ?d = "?c\<lparr>cf_uses := cf_uses ?c + 1\<rparr>"
  have run: "file_cache_hold i e = put_entry i ?d e" using new(2) by (simp add: file_cache_hold_def Let_def)
  have live: "live ?d" using i by (simp add: live_def)
  have "cache_ok (put_entry i ?d e)"
    using put_cached [OF e slot(1), of ?d "put_entry i ?d e"] slot_facts(2) [OF e slot(1)] e
    by (simp add: entry_for_def live_def cache_ok_def)
  then show "holds_inv (file_cache_hold i e) (add_mset (cf_fd ?c) held)"
    using new(1) B(2) [of ?d] live inv i unfolding run holds_inv_def by (simp add: live_def)
  show "k_closed (file_cache_hold i e) = k_closed e" by (simp add: run)
  show "in_use (file_cache_hold i e) (add_mset (cf_fd ?c) held) = in_use e held"
    using B(1) B(2) [of ?d] live i by (auto simp: run in_use_def cache_fds_own live_def)
qed

text \<open>Splitting an entry off the table's descriptors.\<close>

lemma split_entry:
  assumes inv: "holds_inv e held" and i: "i < 64" "live (fc_table e ! i)"
  obtains B where "counts (add_mset (cf_fd (fc_table e ! i), cf_uses (fc_table e ! i)) B) (ret_own (fc_retired e)) held"
    "\<And>c. tab_own ((fc_table e)[i := c]) = (if live c then {#(cf_fd c, cf_uses c)#} else {#}) + B"
    "fst ` set_mset B \<union> fst ` set_mset (ret_own (fc_retired e)) \<union> {cf_fd (fc_table e ! i)} = cache_fds e"
proof -
  have e: "cache_ok e" using inv by (simp add: holds_inv_def)
  from tab_own_update [OF slot_of_live(2) [OF e i]] obtain B where
    B: "tab_own (fc_table e) = (if live (fc_table e ! i) then {#(cf_fd (fc_table e ! i), cf_uses (fc_table e ! i))#} else {#}) + B"
    "\<And>c. tab_own ((fc_table e)[i := c]) = (if live c then {#(cf_fd c, cf_uses c)#} else {#}) + B" by blast
  show thesis
  proof (rule that [of B])
    show "counts (add_mset (cf_fd (fc_table e ! i), cf_uses (fc_table e ! i)) B) (ret_own (fc_retired e)) held"
      using inv B(1) i by (simp add: holds_inv_def)
    show "fst ` set_mset B \<union> fst ` set_mset (ret_own (fc_retired e)) \<union> {cf_fd (fc_table e ! i)} = cache_fds e"
      using B(1) i by (auto simp: cache_fds_own)
  qed (rule B(2))
qed

lemma recheck_inv:
  assumes inv: "holds_inv e held" and ans: "answers e held (se_opens e)"
    and i: "i < 64" "live (fc_table e ! i)" and run: "file_cache_recheck i now e = (b, e')"
  shows "holds_inv e' held \<and> closes_free e e' held \<and> (b \<longrightarrow> live (fc_table e' ! i))"
proof -
  let ?c = "fc_table e ! i"
  have e: "cache_ok e" and pos: "\<forall>fd \<in># held. 0 \<le> fd" using inv by (auto simp: holds_inv_def)
  note slot = slot_of_live [OF e i]
  note entry = slot_facts(2) [OF e slot(1)]
  obtain B where B: "counts (add_mset (cf_fd ?c, cf_uses ?c) B) (ret_own (fc_retired e)) held"
    "\<And>c. tab_own ((fc_table e)[i := c]) = (if live c then {#(cf_fd c, cf_uses c)#} else {#}) + B"
    "fst ` set_mset B \<union> fst ` set_mset (ret_own (fc_retired e)) \<union> {cf_fd ?c} = cache_fds e"
    using split_entry [OF inv i] by blast
  have fd0: "0 \<le> cf_fd ?c" using i(2) by (simp add: live_def)
  have ready: "fc_ready e" using e by (simp add: cache_ok_def)
  show ?thesis
  proof (cases rule: recheck_cases [OF e run])
    case 1
    then show ?thesis using inv i by (simp add: closes_free_same)
  next
    case (2 st e1)
    note keep = sys_stat_table [OF 2(2)]
    let ?d = "?c\<lparr>cf_checked := now\<rparr>"
    have live: "live ?d" using i(2) by (simp add: live_def)
    have "entry_for (cf_path ?c) ?d" using entry by (simp add: entry_for_def live_def)
    from put_cached [OF e slot(1) this, of e'] 2 keep ready have "cache_ok e'" by simp
    with B(1) B(2) [of ?d] live pos 2 keep slot(2) show ?thesis by (simp add: holds_inv_def closes_free_same)
  next
    case (3 e1)
    have e1: "cache_ok e1" "tab_slot (fc_table e1) (cf_path ?c) = Some i"
      using 3 e slot by (simp_all add: cache_ok_def)
    let ?d = "?c\<lparr>cf_fd := - 2, cf_uses := 0, cf_hash := 0\<rparr>"
    let ?e = "put_entry i ?d e1"
    have run: "e' = retire_fd (cf_fd ?c) (cf_uses ?c) ?e" using 3 by (simp add: tombstone_def Let_def)
    have "counts (add_mset (cf_fd ?c, cf_uses ?c) B) (ret_own (fc_retired ?e)) held" using B(1) 3 by simp
    note ret = retire_counts [OF this fd0]
    have "fc_table e' = (fc_table e)[i := ?d]" using 3(3) by (simp add: run)
    then have "tab_own (fc_table e') = B" using B(2) [of ?d] by (simp add: live_def)
    moreover from this have "closes_free e e' held"
      using ret(2,4) 3(6) unfolding closes_free_def in_use_def cache_fds_own
      by (intro exI [of _ "if cf_uses ?c = 0 then [cf_fd ?c] else []"]) (simp add: run)
    moreover have "cache_ok e'" using tombstone_cached [OF e1] 3 by simp
    ultimately show ?thesis using ret(1) pos 3(1) unfolding holds_inv_def run by simp
  next
    case (4 st fd e1 e2)
    note keep = sys_stat_table [OF 4(2)] and keep2 = open_under_table [OF 4(5) [unfolded open_under_def]]
    have new: "0 \<le> fd" "fd \<notin> in_use e held"
      using open_under_result [OF 4(5) [unfolded open_under_def]] ans keep by (auto simp: answers_def)
    define d where "d = ?c\<lparr>cf_fd := fd, cf_uses := 0, cf_size := st_size st,
        cf_mtime_sec := st_mtime_sec st, cf_mtime_nsec := st_mtime_nsec st, cf_ino := st_ino st,
        cf_mime := mime_from_path (cf_path ?c), cf_checked := now\<rparr>"
    have d: "live d" "cf_fd d = fd" "cf_uses d = 0" "entry_for (cf_path ?c) d"
      using new(1) entry by (simp_all add: d_def live_def entry_for_def)
    let ?r = "retire_fd (cf_fd ?c) (cf_uses ?c) e2"
    have run: "e' = put_entry i d ?r" using 4(6) by (simp add: d_def)
    have "counts (add_mset (cf_fd ?c, cf_uses ?c) B) (ret_own (fc_retired e2)) held" using B(1) keep keep2 by simp
    note ret = retire_counts [OF this fd0]
    have "fd \<notin> fst ` set_mset (B + ret_own (fc_retired ?r))"
      using ret(3) B(3) new(2) keep keep2 by (auto simp: in_use_def)
    then have "counts (add_mset (fd, 0) B) (ret_own (fc_retired ?r)) held"
      using counts_new [OF ret(1)] new(2) by (simp add: in_use_def)
    moreover have tab: "fc_table e' = (fc_table e)[i := d]" using keep keep2 unfolding run by simp
    moreover have "cache_ok e'"
      using put_cached [OF e slot(1) d(4) tab] keep keep2 ready unfolding run by simp
    moreover have own: "tab_own (fc_table e') = add_mset (fd, 0) B" using B(2) [of d] d tab by simp
    moreover have "fd \<noteq> cf_fd ?c" using B(3) new(2) by (auto simp: in_use_def)
    then have "closes_free e e' held"
      using ret(2,4) keep keep2 own unfolding closes_free_def in_use_def cache_fds_own
      by (intro exI [of _ "if cf_uses ?c = 0 then [cf_fd ?c] else []"]) (simp add: run)
    ultimately show ?thesis using d pos tab slot(2) by (simp add: run holds_inv_def)
  qed
qed

lemma store_inv:
  assumes inv: "holds_inv e held" and fd: "0 \<le> fd" "fd \<notin> in_use e held"
    and absent: "cached e p = None" and run: "file_cache_store p fd st mime now e = (Some i, e')"
  shows "holds_inv e' held \<and> k_closed e' = k_closed e \<and> i < 64 \<and> live (fc_table e' ! i) \<and> cf_fd (fc_table e' ! i) = fd"
proof -
  have e: "cache_ok e" using inv by (simp add: holds_inv_def)
  let ?c = "fill_entry (path_hash p) p fd st mime now"
  from store_table [OF e run] have i: "i < 64" "e' = put_entry i ?c e" "\<not> live (fc_table e ! i)" by simp_all
  have len: "i < length (fc_table e)" using e i(1) by (simp add: cache_ok_def table_ok_def)
  have c: "live ?c" "cf_fd ?c = fd" "cf_uses ?c = 0" using fd(1) by (simp_all add: fill_entry_def live_def)
  from tab_own_update [OF len] obtain B where
    B: "tab_own (fc_table e) = (if live (fc_table e ! i) then {#(cf_fd (fc_table e ! i), cf_uses (fc_table e ! i))#} else {#}) + B"
    "\<And>c. tab_own ((fc_table e)[i := c]) = (if live c then {#(cf_fd c, cf_uses c)#} else {#}) + B" by blast
  have "counts B (ret_own (fc_retired e)) held" using inv B(1) i(3) by (simp add: holds_inv_def)
  moreover have "fd \<notin> fst ` set_mset (B + ret_own (fc_retired e))"
    using fd(2) B(1) i(3) by (simp add: in_use_def cache_fds_own)
  ultimately have "counts (add_mset (fd, 0) B) (ret_own (fc_retired e)) held"
    using counts_new fd(2) by (simp add: in_use_def)
  moreover have "cache_ok e'" using store_cached [OF e absent run] by simp
  ultimately show ?thesis using inv i(1,2) len c B(2) [of ?c] by (simp add: holds_inv_def)
qed

lemma cache_slot_Some: "cache_slot t fd = Some i \<Longrightarrow> i < length t \<and> cf_fd (t ! i) = fd"
  by (auto simp: cache_slot_def find_Some_iff)

lemma cache_slot_None: "cache_slot t fd = None \<Longrightarrow> fd \<notin> fst ` set_mset (tab_own t)"
  by (auto simp: cache_slot_def find_None_iff tab_own_def in_set_conv_nth)

lemma retired_slot_Some: "retired_slot t fd = Some i \<Longrightarrow> i < length t \<and> rf_fd (t ! i) = fd"
  by (auto simp: retired_slot_def find_Some_iff)

lemma retired_slot_None: "retired_slot t fd = None \<Longrightarrow> fd \<notin> fst ` set_mset (ret_own t)"
  by (auto simp: retired_slot_def find_None_iff ret_own_def in_set_conv_nth)

lemma release_inv:
  assumes inv: "holds_inv e held" and fd: "fd \<in># held"
  shows "holds_inv (static_cache_release fd e) (held - {#fd#})
    \<and> closes_free e (static_cache_release fd e) (held - {#fd#})"
proof -
  have e: "cache_ok e" and pos: "\<forall>f \<in># held. 0 \<le> f" and fd0: "0 \<le> fd"
    using inv fd by (auto simp: holds_inv_def)
  have pos': "\<forall>f \<in># held - {#fd#}. 0 \<le> f" using pos by (blast dest: in_diffD)
  have ready: "fc_ready e" using e by (simp add: cache_ok_def)
  have cnt: "counts (tab_own (fc_table e)) (ret_own (fc_retired e)) held" using inv by (simp add: holds_inv_def)
  show ?thesis
  proof (cases "cache_slot (fc_table e) fd")
    case (Some i)
    from cache_slot_Some [OF this] e have i: "i < 64" "live (fc_table e ! i)" "cf_fd (fc_table e ! i) = fd"
      using fd0 by (auto simp: live_def cache_ok_def table_ok_def)
    let ?c = "fc_table e ! i"
    obtain B where B: "counts (add_mset (cf_fd ?c, cf_uses ?c) B) (ret_own (fc_retired e)) held"
      "\<And>c. tab_own ((fc_table e)[i := c]) = (if live c then {#(cf_fd c, cf_uses c)#} else {#}) + B"
      "fst ` set_mset B \<union> fst ` set_mset (ret_own (fc_retired e)) \<union> {cf_fd ?c} = cache_fds e"
      using split_entry [OF inv i(1,2)] by blast
    note rel = counts_release [OF B(1) [unfolded i(3)] fd]
    let ?d = "?c\<lparr>cf_uses := cf_uses ?c - 1\<rparr>"
    have run: "static_cache_release fd e = put_entry i ?d e"
      using Some ready fd0 rel(1) by (simp add: static_cache_release_def Let_def)
    have d: "live ?d" "cf_fd ?d = fd" using i by (simp_all add: live_def)
    note slot = slot_of_live [OF e i(1,2)]
    have "cache_ok (put_entry i ?d e)"
      using put_cached [OF e slot(1), of ?d "put_entry i ?d e"] slot_facts(2) [OF e slot(1)] ready
      by (simp add: entry_for_def live_def)
    then show ?thesis using rel(2) B(2) [of ?d] d pos' slot(2) unfolding run holds_inv_def by (simp add: closes_free_same)
  next
    case notab: None
    show ?thesis
    proof (cases "retired_slot (fc_retired e) fd")
      case (Some i)
      from retired_slot_Some [OF this] have i: "i < length (fc_retired e)" "rf_fd (fc_retired e ! i) = fd" by auto
      let ?r = "fc_retired e ! i"
      obtain B where B: "ret_own (fc_retired e) = (if 0 \<le> rf_fd ?r then {#(rf_fd ?r, rf_uses ?r)#} else {#}) + B"
        "\<And>c. ret_own ((fc_retired e)[i := c]) = (if 0 \<le> rf_fd c then {#(rf_fd c, rf_uses c)#} else {#}) + B"
        using ret_own_update [OF i(1)] by blast
      have "counts (add_mset (fd, rf_uses ?r) (tab_own (fc_table e))) B held"
        using counts_swap cnt B(1) i(2) fd0 by simp
      note rel = counts_release [OF this fd]
      let ?s = "?r\<lparr>rf_uses := rf_uses ?r - 1\<rparr>"
      show ?thesis
      proof (cases "rf_uses ?r - 1 = 0")
        case True
        have run: "static_cache_release fd e =
            sys_close fd (e\<lparr>fc_retired := (fc_retired e)[i := ?s\<lparr>rf_fd := - 1\<rparr>]\<rparr>)"
          using notab Some ready fd0 rel(1) True by (simp add: static_cache_release_def Let_def)
        have "counts (tab_own (fc_table e)) B (held - {#fd#})" "fd \<notin># held - {#fd#}"
          "fd \<notin> fst ` set_mset (tab_own (fc_table e) + B)"
          using counts_drop(1,3) [OF rel(2)] counts_unique [OF rel(2)] True by auto
        then show ?thesis using B(2) [of "?s\<lparr>rf_fd := - 1\<rparr>"] pos' e
          by (simp add: run holds_inv_def cache_ok_def closes_free_def sys_close_def in_use_def cache_fds_own)
      next
        case False
        have run: "static_cache_release fd e = e\<lparr>fc_retired := (fc_retired e)[i := ?s]\<rparr>"
          using notab Some ready fd0 rel(1) False by (simp add: static_cache_release_def Let_def)
        have "counts (tab_own (fc_table e)) (add_mset (fd, rf_uses ?r - 1) B) (held - {#fd#})"
          using counts_drop(2) [OF rel(2) False] .
        then show ?thesis using B(2) [of ?s] pos' e i(2) fd0
          by (simp add: run holds_inv_def cache_ok_def closes_free_same)
      qed
    next
      case None
      have run: "static_cache_release fd e = e" using notab None ready fd0 by (simp add: static_cache_release_def)
      have "fd \<notin> fst ` set_mset (tab_own (fc_table e) + ret_own (fc_retired e))"
        using cache_slot_None [OF notab] retired_slot_None [OF None] by auto
      from counts_other [OF cnt this] pos' e show ?thesis unfolding run by (simp add: holds_inv_def closes_free_same)
    qed
  qed
qed

lemma inv_answers: "holds_inv e held \<Longrightarrow> holds_inv (e\<lparr>se_opens := os, se_stats := ss\<rparr>) held"
  by (simp add: holds_inv_def cache_ok_def)

lemma cache_step_inv:
  assumes "cache_step (e, held) (e', held')" and inv: "holds_inv e held"
  shows "holds_inv e' held' \<and> closes_free e e' held'"
  using assms(1)
proof cases
  case (hit os p ss i e1 now e2)
  let ?e = "e\<lparr>se_opens := os, se_stats := ss\<rparr>"
  have ie: "holds_inv ?e held" by (rule inv_answers [OF inv])
  then have ok: "cache_ok ?e" by (simp add: holds_inv_def)
  from hit(4) find_slot [OF ok] have slot: "tab_slot (fc_table ?e) p = Some i" and e1: "e1 = ?e" by auto
  have i: "i < 64" "live (fc_table ?e ! i)"
    using slot_facts(1,2) [OF ok slot] by (simp_all add: entry_for_def)
  have ans: "answers ?e held (se_opens ?e)" using hit(3) by (simp add: answers_def in_use_def cache_fds_def)
  from recheck_inv [OF ie ans i hit(5) [unfolded e1]]
  have re: "holds_inv e2 held" "closes_free ?e e2 held" "live (fc_table e2 ! i)" by simp_all
  note hold = hold_inv [OF re(1) i(1) re(3) hit(6)]
  show ?thesis using hold(1) re(2) unfolding hit(1,2) closes_free_def hold(2,3) by simp
next
  case (stale os p ss i e1 now)
  let ?e = "e\<lparr>se_opens := os, se_stats := ss\<rparr>"
  have ie: "holds_inv ?e held" by (rule inv_answers [OF inv])
  then have ok: "cache_ok ?e" by (simp add: holds_inv_def)
  from stale(3) find_slot [OF ok] have slot: "tab_slot (fc_table ?e) p = Some i" and e1: "e1 = ?e" by auto
  have i: "i < 64" "live (fc_table ?e ! i)"
    using slot_facts(1,2) [OF ok slot] by (simp_all add: entry_for_def)
  have ans: "answers ?e held (se_opens ?e)" using stale(2) by (simp add: answers_def in_use_def cache_fds_def)
  from recheck_inv [OF ie ans i stale(4) [unfolded e1]] show ?thesis
    unfolding stale(1) closes_free_def by simp
next
  case (store fd p st mime now i e1)
  from store_inv [OF inv store(3,4,5,6)] hold_inv [of e1 held i] store(7)
  show ?thesis unfolding store(1,2) by (simp add: closes_free_same)
next
  case release
  then show ?thesis using release_inv [OF inv] by simp
qed

section \<open>Runs\<close>

lemma holds_inv_init:
  assumes "\<not> fc_ready e" and "length (fc_table e) = 64"
  shows "holds_inv (file_cache_init e) {#}"
proof -
  have "tab_own (fc_table (file_cache_init e)) = {#}" "ret_own (fc_retired (file_cache_init e)) = {#}"
    using assms(1) by (auto simp: file_cache_init_def tab_own_def ret_own_def live_def filter_mset_eq_conv)
  then show ?thesis using cache_init_ok [OF assms] by (simp add: holds_inv_def counts_def)
qed

lemma cache_steps_inv:
  assumes "cache_step\<^sup>*\<^sup>* (e, held) (e', held')" and "holds_inv e held"
  shows "holds_inv e' held'"
  using assms by (induction rule: rtranclp_induct2) (use cache_step_inv in blast)+

text \<open>
  When all eight entries of the retired table are taken, a descriptor that is in use is dropped
  from the cache without being recorded: no later release closes it.
\<close>

lemma retired_table_full_leaks:
  assumes "\<forall>r \<in> set (fc_retired e). 0 \<le> rf_fd r" and "0 < uses"
    and "fd \<notin> cf_fd ` set (fc_table e)" "fd \<notin> rf_fd ` set (fc_retired e)"
  shows "static_cache_release fd (retire_fd fd uses e) = e"
proof -
  have "retire_slot rs r = rs" if "\<forall>r \<in> set rs. 0 \<le> rf_fd r" for rs r using that by (induction rs) auto
  then have "retire_fd fd uses e = e" using assms(1,2) by (simp add: retire_fd_def)
  moreover have "cache_slot (fc_table e) fd = None" "retired_slot (fc_retired e) fd = None"
    using assms(3,4) by (auto simp: cache_slot_def retired_slot_def find_None_iff)
  ultimately show ?thesis by (simp add: static_cache_release_def)
qed

text \<open>
  C24. No cached descriptor is closed under a response that sends from it. In every run of a
  worker's cache - hits, rechecks that replace or drop an entry, stores, releases, in any order,
  with at most 65535 responses in flight - what a step closes is afterwards neither held by a
  response nor in the cache, and the counter of every entry is the number of responses that hold
  its descriptor.
\<close>

theorem held_descriptor_stays_open:
  assumes "\<not> fc_ready e0" and "length (fc_table e0) = 64"
    and "cache_step\<^sup>*\<^sup>* (file_cache_init e0, {#}) (e, held)" and "cache_step (e, held) (e', held')"
  shows "(\<exists>cl. k_closed e' = k_closed e @ cl \<and> (\<forall>fd \<in> set cl. fd \<notin> in_use e' held'))
    \<and> (\<forall>c \<in> set (fc_table e'). 0 \<le> cf_fd c \<longrightarrow> unat (cf_uses c) = count held' (cf_fd c))"
proof -
  from cache_step_inv [OF assms(4) cache_steps_inv [OF assms(3) holds_inv_init [OF assms(1,2)]]]
  have inv: "holds_inv e' held'" and free: "closes_free e e' held'" by simp_all
  have "unat (cf_uses c) = count held' (cf_fd c)" if "c \<in> set (fc_table e')" "0 \<le> cf_fd c" for c
  proof -
    have "(cf_fd c, cf_uses c) \<in># tab_own (fc_table e')" using that by (auto simp: tab_own_def live_def)
    then show ?thesis using inv by (fastforce simp: holds_inv_def counts_def)
  qed
  with free show ?thesis by (simp add: closes_free_def)
qed

text \<open>The file \<open>a\<close> is opened as descriptor 9, stored and sent, and the response ends.\<close>

lemma held_descriptor_stays_open_witness:
  "\<exists>(e :: static_env) e'. cache_step\<^sup>*\<^sup>* (static_env0, {#}) (e, {#9#}) \<and> cache_step (e, {#9#}) (e', {#})
    \<and> (\<forall>c \<in> set (fc_table e'). cf_fd c = 9 \<longrightarrow> cf_uses c = 0)"
proof -
  let ?c = "fill_entry (path_hash [97]) [97] 9 stat_sample ''text/plain'' 5"
  obtain i where run: "file_cache_store [97] 9 stat_sample ''text/plain'' 5 static_env0 = (Some i, put_entry i ?c static_env0)"
    using store_empty by blast
  have new: "9 \<notin> in_use static_env0 {#}"
    by (auto simp: in_use_def cache_fds_def static_env0_def entry0_def live_def)
  define e where "e = file_cache_hold i (put_entry i ?c static_env0)"
  have "cache_step (static_env0, {#}) (e, {#9#})"
    unfolding e_def by (rule cache_step.store [OF _ new cache_ok_empty(2) run]) simp_all
  then have steps: "cache_step\<^sup>*\<^sup>* (static_env0, {#}) (e, {#9#})" by (rule r_into_rtranclp)
  have step: "cache_step (e, {#9#}) (static_cache_release 9 e, {#})"
    using cache_step.release [of 9 "{#9#}" e] by simp
  let ?e = "static_env0\<lparr>fc_ready := False\<rparr>"
  have init: "file_cache_init ?e = static_env0"
    by (simp add: file_cache_init_def static_env0_def entry0_def map_replicate_const)
  have "cache_step\<^sup>*\<^sup>* (file_cache_init ?e, {#}) (e, {#9#})" unfolding init by (rule steps)
  moreover have "\<not> fc_ready ?e" "length (fc_table ?e) = 64" by (simp_all add: static_env0_def)
  moreover note held_descriptor_stays_open [OF _ _ _ step, of ?e]
  ultimately
  have "\<forall>c \<in> set (fc_table (static_cache_release 9 e)). cf_fd c = 9 \<longrightarrow> cf_uses c = 0"
    by (simp add: unat_eq_0)
  with steps step show ?thesis by blast
qed

end
