(* ===== verification/Static_Serve.thy ===== *)
theory Static_Serve
  imports File_Cache
begin

text \<open>
  Serving a file: \<^verbatim>\<open>src/static.c\<close> from the parsed request to the last byte. Every operation takes
  the connection and the environment and returns both. The responses are armed here and sent by
  \<open>static_on_write\<close>, call by call, as the client socket takes them.
\<close>

definition STATIC_HDR_SIZE :: nat where "STATIC_HDR_SIZE = 256"

section \<open>Responses\<close>

definition head_text :: "byte list list \<Rightarrow> byte list" where
  "head_text ls = concat (map (\<lambda>l. l @ [CR, LF]) ls) @ [CR, LF]"

definition RESPONSE_403_CLOSE :: "byte list" where
  "RESPONSE_403_CLOSE = head_text (map bytes [''HTTP/1.1 403 Forbidden'', ''Content-Length: 0'', ''Connection: close''])"
definition RESPONSE_403_KEEP :: "byte list" where
  "RESPONSE_403_KEEP = head_text (map bytes [''HTTP/1.1 403 Forbidden'', ''Content-Length: 0'', ''Connection: keep-alive''])"
definition RESPONSE_404_CLOSE :: "byte list" where
  "RESPONSE_404_CLOSE = head_text (map bytes [''HTTP/1.1 404 Not Found'', ''Content-Length: 0'', ''Connection: close''])"
definition RESPONSE_404_KEEP :: "byte list" where
  "RESPONSE_404_KEEP = head_text (map bytes [''HTTP/1.1 404 Not Found'', ''Content-Length: 0'', ''Connection: keep-alive''])"
definition RESPONSE_405_CLOSE :: "byte list" where
  "RESPONSE_405_CLOSE = head_text (map bytes
     [''HTTP/1.1 405 Method Not Allowed'', ''Content-Length: 0'', ''Allow: GET, HEAD'', ''Connection: close''])"
definition RESPONSE_405_KEEP :: "byte list" where
  "RESPONSE_405_KEEP = head_text (map bytes
     [''HTTP/1.1 405 Method Not Allowed'', ''Content-Length: 0'', ''Allow: GET, HEAD'', ''Connection: keep-alive''])"
definition RESPONSE_500 :: "byte list" where
  "RESPONSE_500 = head_text (map bytes [''HTTP/1.1 500 Internal Server Error'', ''Content-Length: 0'', ''Connection: close''])"
definition RESPONSE_400 :: "byte list" where
  "RESPONSE_400 = head_text (map bytes [''HTTP/1.1 400 Bad Request'', ''Content-Length: 0'', ''Connection: close''])"

text \<open>The conversions \<open>%lld\<close> and \<open>%s\<close> of the \<open>Connection\<close> line.\<close>

fun fmt_dec :: "nat \<Rightarrow> byte list" where
  "fmt_dec n = (if n < 10 then [word_of_nat (48 + n)] else fmt_dec (n div 10) @ [word_of_nat (48 + n mod 10)])"

declare fmt_dec.simps [simp del]

definition fmt_lld :: "int \<Rightarrow> byte list" where
  "fmt_lld i = (if i < 0 then 45 # fmt_dec (nat (- i)) else fmt_dec (nat i))"

definition fmt_keep :: "bool \<Rightarrow> byte list" where
  "fmt_keep keep = bytes (if keep then ''keep-alive'' else ''close'')"

section \<open>Arming\<close>

text \<open>What the connection holds of an open file, given back.\<close>

definition release_file :: "http_conn \<Rightarrow> 'a static_env_scheme \<Rightarrow> 'a static_env_scheme" where
  "release_file hc e =
     (if hc_file_fd hc \<ge> 0 then
        (if hc_file_owned hc then sys_close (hc_file_fd hc) e else static_cache_release (hc_file_fd hc) e)
      else e)"

definition arm_fixed ::
  "byte list \<Rightarrow> byte list option \<Rightarrow> bool \<Rightarrow> u16 \<Rightarrow> u64 \<Rightarrow> http_conn \<times> 'a static_env_scheme
    \<Rightarrow> http_conn \<times> 'a static_env_scheme" where
  "arm_fixed close_resp keep_resp allow_keep status now_ms = (\<lambda>(hc, e).
     (let keep = (allow_keep \<and> http_should_keepalive (hc_req hc));
          hc' = (case (keep, keep_resp) of
              (True, Some resp) \<Rightarrow> hc\<lparr>hc_fixed := resp, hc_keep := True\<rparr>
            | _ \<Rightarrow> hc\<lparr>hc_fixed := close_resp, hc_keep := False\<rparr>);
          hc' = hc'\<lparr>hc_fixed_off := 0, hc_phase := PHASE_WRITE_FIXED,
            hc_deadline := now_ms + hc_send_timeout hc', hc_status := status\<rparr>
      in (if hc_file_fd hc' \<ge> 0 then hc'\<lparr>hc_file_fd := - 1, hc_file_owned := True\<rparr> else hc', release_file hc' e)))"

abbreviation arm_close_500 :: "u64 \<Rightarrow> http_conn \<times> 'a static_env_scheme \<Rightarrow> http_conn \<times> 'a static_env_scheme" where
  "arm_close_500 now_ms \<equiv> arm_fixed RESPONSE_500 None False 500 now_ms"

abbreviation arm_keepable_404 :: "u64 \<Rightarrow> http_conn \<times> 'a static_env_scheme \<Rightarrow> http_conn \<times> 'a static_env_scheme" where
  "arm_keepable_404 now_ms \<equiv> arm_fixed RESPONSE_404_CLOSE (Some RESPONSE_404_KEEP) True 404 now_ms"

abbreviation arm_keepable_403 :: "u64 \<Rightarrow> http_conn \<times> 'a static_env_scheme \<Rightarrow> http_conn \<times> 'a static_env_scheme" where
  "arm_keepable_403 now_ms \<equiv> arm_fixed RESPONSE_403_CLOSE (Some RESPONSE_403_KEEP) True 403 now_ms"

abbreviation arm_keepable_405 :: "u64 \<Rightarrow> http_conn \<times> 'a static_env_scheme \<Rightarrow> http_conn \<times> 'a static_env_scheme" where
  "arm_keepable_405 now_ms \<equiv> arm_fixed RESPONSE_405_CLOSE (Some RESPONSE_405_KEEP) True 405 now_ms"

text \<open>An allocation from the arena of the connection. \<open>False\<close> is a null pointer.\<close>

definition hc_alloc :: "nat \<Rightarrow> http_conn \<Rightarrow> bool \<times> http_conn" where
  "hc_alloc n hc = (case bump_alloc (hc_arena hc) (word_of_nat n) 1 of (p, b) \<Rightarrow> (p \<noteq> 0, hc\<lparr>hc_arena := b\<rparr>))"

definition redirect_head :: "byte list \<Rightarrow> byte list \<Rightarrow> bool \<Rightarrow> byte list" where
  "redirect_head path query keep = head_text
     [bytes ''HTTP/1.1 301 Moved Permanently'',
      bytes ''Location: '' @ path @ bytes ''/'' @ (if query = [] then [] else bytes ''?'' @ query),
      bytes ''Content-Length: 0'', bytes ''Connection: '' @ fmt_keep keep]"

definition arm_dir_redirect ::
  "byte list \<Rightarrow> u64 \<Rightarrow> http_conn \<times> 'a static_env_scheme \<Rightarrow> http_conn \<times> 'a static_env_scheme" where
  "arm_dir_redirect path now_ms = (\<lambda>(hc, e).
     (let query = slice_of (hc_buf hc) (req_query (hc_req hc));
          need = 160 + length path + 1 + (if query = [] then 0 else 1 + length query)
      in case hc_alloc need hc of
           (False, hc) \<Rightarrow> arm_close_500 now_ms (hc, e)
         | (True, hc) \<Rightarrow>
             (let hc = hc\<lparr>hc_keep := http_should_keepalive (hc_req hc)\<rparr>;
                  hdr = redirect_head path query (hc_keep hc)
              in if length hdr \<ge> need then arm_close_500 now_ms (hc, e)
                 else
                   (let hc = hc\<lparr>hc_fixed := hdr, hc_fixed_off := 0, hc_phase := PHASE_WRITE_FIXED,
                          hc_deadline := now_ms + hc_send_timeout hc, hc_status := 301\<rparr>
                    in (if hc_file_fd hc \<ge> 0 then hc\<lparr>hc_file_fd := - 1, hc_file_owned := True\<rparr> else hc,
                        release_file hc e)))))"

definition arm_open_error ::
  "errno \<Rightarrow> u64 \<Rightarrow> http_conn \<times> 'a static_env_scheme \<Rightarrow> http_conn \<times> 'a static_env_scheme" where
  "arm_open_error err now_ms =
     (if err = ENOENT \<or> err = ENOTDIR then arm_keepable_404 now_ms
      else if err = EACCES \<or> err = EPERM \<or> err = ELOOP then arm_keepable_403 now_ms
      else arm_close_500 now_ms)"

text \<open>\<open>setsockopt\<close> with \<open>TCP_CORK\<close>, its result ignored.\<close>

definition cork :: "bool \<Rightarrow> http_conn \<times> 'a static_env_scheme \<Rightarrow> http_conn \<times> 'a static_env_scheme" where
  "cork on = (\<lambda>(hc, e). (hc\<lparr>hc_cork_on := on\<rparr>, snd (sys_sockopt e)))"

definition ok_head :: "int \<Rightarrow> string \<Rightarrow> bool \<Rightarrow> byte list" where
  "ok_head fsize mime keep = head_text
     [bytes ''HTTP/1.1 200 OK'', bytes ''Content-Length: '' @ fmt_lld fsize,
      bytes ''Content-Type: '' @ bytes mime, bytes ''Connection: '' @ fmt_keep keep]"

definition arm_regular ::
  "int \<Rightarrow> int \<Rightarrow> string \<Rightarrow> bool \<Rightarrow> u64 \<Rightarrow> http_conn \<times> 'a static_env_scheme
    \<Rightarrow> http_conn \<times> 'a static_env_scheme" where
  "arm_regular file_fd fsize mime owned now_ms = (\<lambda>(hc, e).
     (case hc_alloc STATIC_HDR_SIZE hc of
        (False, hc) \<Rightarrow> arm_close_500 now_ms (hc, if owned then sys_close file_fd e else e)
      | (True, hc) \<Rightarrow>
          (let hc = hc\<lparr>hc_keep := http_should_keepalive (hc_req hc), hc_status := 200\<rparr>;
               hdr = ok_head fsize mime (hc_keep hc)
           in if length hdr \<ge> STATIC_HDR_SIZE then
                arm_close_500 now_ms (hc, if owned then sys_close file_fd e else e)
              else
                cork True
                  (hc\<lparr>hc_out_hdr := hdr, hc_out_hdr_off := 0, hc_file_fd := file_fd, hc_file_owned := owned,
                     hc_file_size := fsize, hc_file_off := 0,
                     hc_send_body := (req_method (hc_req hc) = METHOD_GET \<and> fsize > 0),
                     hc_phase := PHASE_WRITE_HDR, hc_deadline := now_ms + hc_send_timeout hc\<rparr>, e))))"

section \<open>Serving\<close>

text \<open>The look into the cache, which \<open>static_serve\<close> takes for the path and again for its index file.\<close>

definition serve_hit ::
  "bool \<Rightarrow> byte list \<Rightarrow> u64 \<Rightarrow> http_conn \<times> 'a static_env_scheme
    \<Rightarrow> (http_conn \<times> 'a static_env_scheme) + 'a static_env_scheme" where
  "serve_hit use_cache rel now_ms = (\<lambda>(hc, e).
     (if \<not> use_cache then Inr e
      else
        (case file_cache_find rel e of
           (None, e) \<Rightarrow> Inr e
         | (Some i, e) \<Rightarrow>
             (case file_cache_recheck i now_ms e of
                (False, e) \<Rightarrow> Inr e
              | (True, e) \<Rightarrow>
                  (let e = file_cache_hold i e; hit = fc_table e ! i
                   in Inl (arm_regular (cf_fd hit) (cf_size hit) (cf_mime hit) False now_ms (hc, e)))))))"

text \<open>From an open file with its \<open>fstat\<close> on.\<close>

definition serve_file ::
  "bool \<Rightarrow> byte list \<Rightarrow> int \<Rightarrow> file_stat \<Rightarrow> u64 \<Rightarrow> http_conn \<times> 'a static_env_scheme
    \<Rightarrow> http_conn \<times> 'a static_env_scheme" where
  "serve_file use_cache rel file_fd st now_ms = (\<lambda>(hc, e).
     (if st_kind st \<noteq> Regular \<or> st_size st < 0 then arm_keepable_403 now_ms (hc, sys_close file_fd e)
      else
        (let mime = mime_from_path rel
         in if use_cache then
              (case file_cache_store rel file_fd st mime now_ms e of
                 (Some i, e) \<Rightarrow> arm_regular file_fd (st_size st) mime False now_ms (hc, file_cache_hold i e)
               | (None, e) \<Rightarrow> arm_regular file_fd (st_size st) mime True now_ms (hc, e))
            else arm_regular file_fd (st_size st) mime True now_ms (hc, e))))"

definition serve_index ::
  "int \<Rightarrow> bool \<Rightarrow> byte list \<Rightarrow> u64 \<Rightarrow> http_conn \<times> 'a static_env_scheme \<Rightarrow> http_conn \<times> 'a static_env_scheme" where
  "serve_index dir_fd use_cache rel now_ms = (\<lambda>(hc, e).
     (if length rel + 11 \<ge> STATIC_PATH_MAX then arm_keepable_404 now_ms (hc, e)
      else
        (let rel = rel @ bytes ''/index.html''
         in case serve_hit use_cache rel now_ms (hc, e) of
              Inl r \<Rightarrow> r
            | Inr e \<Rightarrow>
                (case open_under dir_fd rel e of
                   (Inl err, e) \<Rightarrow> arm_open_error err now_ms (hc, e)
                 | (Inr file_fd, e) \<Rightarrow>
                     (case sys_stat e of
                        (None, e) \<Rightarrow> arm_close_500 now_ms (hc, sys_close file_fd e)
                      | (Some st, e) \<Rightarrow> serve_file use_cache rel file_fd st now_ms (hc, e))))))"

text \<open>\<open>rel\<close> is the normalized path, \<open>decoded\<close> what it was made from.\<close>

definition serve_path ::
  "int \<Rightarrow> bool \<Rightarrow> byte list \<Rightarrow> byte list \<Rightarrow> byte list \<Rightarrow> u64 \<Rightarrow> http_conn \<times> 'a static_env_scheme
    \<Rightarrow> http_conn \<times> 'a static_env_scheme" where
  "serve_path dir_fd use_cache decoded rel redir now_ms = (\<lambda>(hc, e).
     (case serve_hit use_cache rel now_ms (hc, e) of
        Inl r \<Rightarrow> r
      | Inr e \<Rightarrow>
          (case open_under dir_fd rel e of
             (Inl err, e) \<Rightarrow> arm_open_error err now_ms (hc, e)
           | (Inr file_fd, e) \<Rightarrow>
               (case sys_stat e of
                  (None, e) \<Rightarrow> arm_close_500 now_ms (hc, sys_close file_fd e)
                | (Some st, e) \<Rightarrow>
                    (if st_kind st = Directory then
                       (let e = sys_close file_fd e
                        in if last decoded \<noteq> 47 then arm_dir_redirect redir now_ms (hc, e)
                           else serve_index dir_fd use_cache rel now_ms (hc, e))
                     else serve_file use_cache rel file_fd st now_ms (hc, e))))))"

definition static_serve ::
  "int \<Rightarrow> bool \<Rightarrow> byte list \<Rightarrow> byte list \<Rightarrow> u64 \<Rightarrow> http_conn \<times> 'a static_env_scheme
    \<Rightarrow> http_conn \<times> 'a static_env_scheme" where
  "static_serve dir_fd use_cache url redir now_ms = (\<lambda>(hc, e).
     (if req_method (hc_req hc) \<noteq> METHOD_GET \<and> req_method (hc_req hc) \<noteq> METHOD_HEAD then
        arm_keepable_405 now_ms (hc, e)
      else if dir_fd < 0 then arm_close_500 now_ms (hc, e)
      else
        (case hc_alloc STATIC_PATH_MAX hc of
           (got1, hc) \<Rightarrow>
             (case hc_alloc STATIC_PATH_MAX hc of
                (got2, hc) \<Rightarrow>
                  (if \<not> got1 \<or> \<not> got2 then arm_close_500 now_ms (hc, e)
                   else
                     (let decoded = percent_decode url (word_of_nat (length url)) STATIC_PATH_MAX
                      in if decoded = [] then arm_fixed RESPONSE_400 None False 400 now_ms (hc, e)
                         else
                           (let rel = normalize_path (se_policy e) decoded STATIC_PATH_MAX
                            in if rel = [] then arm_keepable_404 now_ms (hc, e)
                               else serve_path dir_fd use_cache decoded rel redir now_ms (hc, e))))))))"

text \<open>The path of the request; an empty one (absolute-form) stands for \<open>/\<close>.\<close>

definition request_path :: "http_conn \<Rightarrow> byte list" where
  "request_path hc =
     (if s_len (req_path (hc_req hc)) = 0 then [47] else slice_of (hc_buf hc) (req_path (hc_req hc)))"

definition static_begin :: "u64 \<Rightarrow> http_conn \<times> 'a static_env_scheme \<Rightarrow> http_conn \<times> 'a static_env_scheme" where
  "static_begin now_ms = (\<lambda>(hc, e).
     static_serve (se_docroot_fd e) True (request_path hc) (request_path hc) now_ms (hc, e))"

definition static_begin_at ::
  "int \<Rightarrow> byte list \<Rightarrow> byte list \<Rightarrow> u64 \<Rightarrow> http_conn \<times> 'a static_env_scheme \<Rightarrow> http_conn \<times> 'a static_env_scheme" where
  "static_begin_at dir_fd url redir now_ms = static_serve dir_fd False url redir now_ms"

definition static_begin_file ::
  "byte list \<Rightarrow> u64 \<Rightarrow> http_conn \<times> 'a static_env_scheme \<Rightarrow> http_conn \<times> 'a static_env_scheme" where
  "static_begin_file path now_ms = (\<lambda>(hc, e).
     (if req_method (hc_req hc) \<noteq> METHOD_GET \<and> req_method (hc_req hc) \<noteq> METHOD_HEAD then
        arm_keepable_405 now_ms (hc, e)
      else if path = [] then arm_close_500 now_ms (hc, e)
      else
        (case sys_open e of
           (Inl err, e) \<Rightarrow> arm_open_error err now_ms (hc, e)
         | (Inr file_fd, e) \<Rightarrow>
             (case sys_stat e of
                (None, e) \<Rightarrow> arm_close_500 now_ms (hc, sys_close file_fd e)
              | (Some st, e) \<Rightarrow>
                  (if st_kind st \<noteq> Regular \<or> st_size st < 0 then arm_keepable_403 now_ms (hc, sys_close file_fd e)
                   else arm_regular file_fd (st_size st) (mime_from_path path) True now_ms (hc, e))))))"

section \<open>Sending\<close>

text \<open>The \<open>sendfile\<close> loop, in pieces of at most a megabyte.\<close>

function sendfile_loop :: "int \<Rightarrow> int \<Rightarrow> int \<Rightarrow> int \<Rightarrow> 'a kernel_scheme \<Rightarrow> send_end \<times> int \<times> 'a kernel_scheme" where
  "sendfile_loop fd file_fd fsize off k =
     (if off < fsize then
        (let want = min (fsize - off) 1048576
         in case sys_send fd (take (nat want) (drop (nat off) (k_files k file_fd))) k of
              (Wr n, k') \<Rightarrow> if n = 0 then (Send_Dead, off, k') else sendfile_loop fd file_fd fsize (off + int n) k'
            | (Wr_Intr, k') \<Rightarrow> sendfile_loop fd file_fd fsize off k'
            | (Wr_Again, k') \<Rightarrow> (Send_Again, off, k')
            | (Wr_Err, k') \<Rightarrow> (Send_Dead, off, k'))
      else (Send_All, off, k))"
  by pat_completeness auto
termination
  by (relation "measure (\<lambda>(fd, _, _, _, k). length (k_writes k fd))") (auto intro: sys_send_progress [OF sym])

declare sendfile_loop.simps [simp del, evals]

text \<open>The end of both kinds of response: uncorked, the file given back.\<close>

definition static_done :: "http_conn \<times> 'a static_env_scheme \<Rightarrow> http_io \<times> http_conn \<times> 'a static_env_scheme" where
  "static_done = (\<lambda>s. (case cork False s of (hc, e) \<Rightarrow>
     (IO_DONE, hc\<lparr>hc_file_fd := - 1, hc_file_owned := True\<rparr>, release_file hc e)))"

definition static_send_body :: "http_conn \<times> 'a static_env_scheme \<Rightarrow> http_io \<times> http_conn \<times> 'a static_env_scheme" where
  "static_send_body = (\<lambda>(hc, e).
     (case sendfile_loop (hc_fd hc) (hc_file_fd hc) (hc_file_size hc) (hc_file_off hc) e of
        (Send_Again, off, e) \<Rightarrow> (IO_WANT_WRITE, hc\<lparr>hc_file_off := off\<rparr>, e)
      | (Send_Dead, off, e) \<Rightarrow> (IO_CLOSE, hc\<lparr>hc_file_off := off\<rparr>, e)
      | (Send_All, off, e) \<Rightarrow> static_done (hc\<lparr>hc_file_off := off\<rparr>, e)))"

definition static_on_write :: "http_conn \<times> 'a static_env_scheme \<Rightarrow> http_io \<times> http_conn \<times> 'a static_env_scheme" where
  "static_on_write = (\<lambda>(hc, e).
     (if hc_phase hc = PHASE_WRITE_HDR then
        (case send_loop (hc_fd hc) (hc_out_hdr hc) (hc_out_hdr_off hc) e of
           (Send_Again, off, e) \<Rightarrow> (IO_WANT_WRITE, hc\<lparr>hc_out_hdr_off := off\<rparr>, e)
         | (Send_Dead, off, e) \<Rightarrow> (IO_CLOSE, hc\<lparr>hc_out_hdr_off := off\<rparr>, e)
         | (Send_All, off, e) \<Rightarrow>
             (let hc = hc\<lparr>hc_out_hdr_off := off\<rparr>
              in if \<not> hc_send_body hc then static_done (hc, e)
                 else static_send_body (hc\<lparr>hc_phase := PHASE_SENDFILE\<rparr>, e)))
      else static_send_body (hc, e)))"

end
