(* ===== verification/Static_Send.thy ===== *)
theory Static_Send
  imports Static_Serve Path_Table Http_Parser_Facts
begin

text \<open>
  What a client receives of a file: the sending half of \<open>Static_Serve\<close>, over any number of calls of
  \<open>static_on_write\<close> and whatever the socket answers in each.
\<close>

section \<open>One call\<close>

text \<open>The \<open>sendfile\<close> loop hands over exactly the bytes between the two offsets.\<close>

lemma sendfile_loop_exact:
  "sendfile_loop fd ffd fsize off k = (r, off', k') \<Longrightarrow> 0 \<le> off \<Longrightarrow>
    off \<le> off' \<and> k_sent k' fd = k_sent k fd @ bslice (k_files k ffd) (nat off) (nat off')
    \<and> (r = Send_All \<longrightarrow> fsize \<le> off') \<and> (off \<le> fsize \<longrightarrow> off' \<le> fsize)
    \<and> (off < off' \<longrightarrow> nat off' \<le> length (k_files k ffd)) \<and> only_sends fd k k'"
proof (induction fd ffd fsize off k arbitrary: r off' k' rule: sendfile_loop.induct)
  case (1 fd ffd fsize off k)
  show ?case
  proof (cases "off < fsize")
    case False
    then show ?thesis using "1.prems" by (simp add: sendfile_loop.simps)
  next
    case True
    define want where "want = min (fsize - off) 1048576"
    let ?bs = "take (nat want) (drop (nat off) (k_files k ffd))"
    obtain a k1 where call: "sys_send fd ?bs k = (a, k1)" by (cases "sys_send fd ?bs k")
    note eff = sys_send_effect [OF call]
    have files: "k_files k1 = k_files k" using eff by (simp add: only_sends_def)
    have run: "sendfile_loop fd ffd fsize off k =
        (case a of Wr n \<Rightarrow> if n = 0 then (Send_Dead, off, k1) else sendfile_loop fd ffd fsize (off + int n) k1
         | Wr_Intr \<Rightarrow> sendfile_loop fd ffd fsize off k1 | Wr_Again \<Rightarrow> (Send_Again, off, k1)
         | Wr_Err \<Rightarrow> (Send_Dead, off, k1))"
      using True call by (subst sendfile_loop.simps) (simp add: Let_def want_def)
    show ?thesis
    proof (cases a)
      case (Wr n)
      show ?thesis
      proof (cases "n = 0")
        case True
        then show ?thesis using run "1.prems" Wr eff \<open>off < fsize\<close> by auto
      next
        case n: False
        have le: "n \<le> nat want" "nat off + n \<le> length (k_files k ffd)" using eff Wr n by auto
        have bs: "take n ?bs = bslice (k_files k ffd) (nat off) (nat off + n)"
          using le(1) by (simp add: bslice_def min_absorb1)
        have "sendfile_loop fd ffd fsize (off + int n) k1 = (r, off', k')" using run "1.prems"(1) Wr n by simp
        from "1.IH"(1) [OF True want_def call [unfolded want_def, symmetric, folded want_def] Wr n this] "1.prems"(2)
        have ih: "off + int n \<le> off'
            \<and> k_sent k' fd = k_sent k1 fd @ bslice (k_files k ffd) (nat off + n) (nat off')
            \<and> (r = Send_All \<longrightarrow> fsize \<le> off') \<and> (off + int n \<le> fsize \<longrightarrow> off' \<le> fsize)
            \<and> (off + int n < off' \<longrightarrow> nat off' \<le> length (k_files k ffd)) \<and> only_sends fd k1 k'"
          unfolding files by (simp add: nat_add_distrib)
        have "off + int n \<le> fsize" using le(1) True by (auto simp: want_def)
        moreover have "bslice (k_files k ffd) (nat off) (nat off') =
            bslice (k_files k ffd) (nat off) (nat off + n) @ bslice (k_files k ffd) (nat off + n) (nat off')"
          using ih "1.prems"(2) by (intro slice_split) auto
        moreover have "nat off' \<le> length (k_files k ffd)"
          using ih le(2) "1.prems"(2) by (cases "off + int n < off'") (auto simp: nat_add_distrib)
        ultimately show ?thesis using ih eff Wr bs by (auto intro: only_sends_trans)
      qed
    next
      case Wr_Intr
      then have "sendfile_loop fd ffd fsize off k1 = (r, off', k')" using run "1.prems"(1) by simp
      from "1.IH"(2) [OF True want_def call [unfolded want_def, symmetric, folded want_def] Wr_Intr this "1.prems"(2)]
        eff Wr_Intr files
      show ?thesis by (auto intro: only_sends_trans)
    qed (use run "1.prems" eff True in auto)
  qed
qed

text \<open>The bytes of the response that are still to be sent.\<close>

definition file_rest :: "http_conn \<Rightarrow> 'a static_env_scheme \<Rightarrow> byte list" where
  "file_rest hc e = bslice (k_files e (hc_file_fd hc)) (nat (hc_file_off hc)) (nat (hc_file_size hc))"

definition static_pending :: "http_conn \<Rightarrow> 'a static_env_scheme \<Rightarrow> byte list" where
  "static_pending hc e =
     (if hc_phase hc = PHASE_WRITE_HDR then
        drop (hc_out_hdr_off hc) (hc_out_hdr hc) @ (if hc_send_body hc then file_rest hc e else [])
      else if hc_phase hc = PHASE_SENDFILE then file_rest hc e else [])"

definition sending :: "http_conn \<Rightarrow> 'a static_env_scheme \<Rightarrow> bool" where
  "sending hc e = ((hc_phase hc = PHASE_WRITE_HDR \<or> hc_phase hc = PHASE_SENDFILE)
     \<and> hc_out_hdr_off hc \<le> length (hc_out_hdr hc) \<and> 0 \<le> hc_file_off hc \<and> hc_file_off hc \<le> hc_file_size hc
     \<and> nat (hc_file_off hc) \<le> length (k_files e (hc_file_fd hc)))"

lemma cache_release_sends [simp]:
  "k_sent (static_cache_release fd e) = k_sent e" "k_files (static_cache_release fd e) = k_files e"
  "k_writes (static_cache_release fd e) = k_writes e"
  by (simp_all add: static_cache_release_def Let_def split: option.split)

lemma release_file_sends [simp]:
  "k_sent (release_file hc e) = k_sent e" "k_files (release_file hc e) = k_files e"
  "k_writes (release_file hc e) = k_writes e"
  by (simp_all add: release_file_def)

lemma static_done_effect:
  "static_done (hc, e) = (rc, hc', e') \<Longrightarrow> rc = IO_DONE \<and> k_sent e' = k_sent e \<and> k_files e' = k_files e
    \<and> hc_conn hc' = hc_conn hc"
  by (auto simp: static_done_def cork_def)

lemma static_send_body_step:
  assumes run: "static_send_body (hc, e) = (rc, hc', e')" and sending: "sending hc e" and phase: "hc_phase hc = PHASE_SENDFILE"
  shows "k_files e' = k_files e \<and> hc_conn hc' = hc_conn hc
    \<and> (rc = IO_DONE \<longrightarrow> k_sent e' (hc_fd hc) = k_sent e (hc_fd hc) @ file_rest hc e
        \<and> nat (hc_file_size hc) \<le> length (k_files e (hc_file_fd hc)))
    \<and> (rc = IO_WANT_WRITE \<longrightarrow> sending hc' e' \<and> k_sent e' (hc_fd hc) @ static_pending hc' e' = k_sent e (hc_fd hc) @ file_rest hc e)
    \<and> (rc \<noteq> IO_DONE \<longrightarrow> rc \<noteq> IO_WANT_WRITE \<longrightarrow> rc = IO_CLOSE)"
proof -
  obtain r off e1 where loop: "sendfile_loop (hc_fd hc) (hc_file_fd hc) (hc_file_size hc) (hc_file_off hc) e = (r, off, e1)"
    by (cases "sendfile_loop (hc_fd hc) (hc_file_fd hc) (hc_file_size hc) (hc_file_off hc) e")
  have off0: "0 \<le> hc_file_off hc" "hc_file_off hc \<le> hc_file_size hc" using sending by (auto simp: sending_def)
  note ex = sendfile_loop_exact [OF loop off0(1)]
  have got: "nat off \<le> length (k_files e (hc_file_fd hc))"
    using ex sending by (cases "hc_file_off hc < off") (auto simp: sending_def)
  have files: "k_files e1 = k_files e" using ex by (simp add: only_sends_def)
  let ?f = "k_files e (hc_file_fd hc)"
  have rest: "file_rest hc e = bslice ?f (nat (hc_file_off hc)) (nat off) @ bslice ?f (nat off) (nat (hc_file_size hc))"
    using ex off0 unfolding file_rest_def by (intro slice_split) auto
  show ?thesis
  proof (cases r)
    case Send_All
    then have fin: "static_done (hc\<lparr>hc_file_off := off\<rparr>, e1) = (rc, hc', e')"
      using run loop by (simp add: static_send_body_def)
    have "off = hc_file_size hc" using ex off0 Send_All by auto
    then show ?thesis using static_done_effect [OF fin] ex rest files got by auto
  qed (use run loop ex rest files got phase sending off0 in
      \<open>auto simp: static_send_body_def static_pending_def file_rest_def sending_def\<close>)
qed

lemma static_on_write_step:
  assumes run: "static_on_write (hc, e) = (rc, hc', e')" and sending: "sending hc e"
  shows "k_files e' = k_files e \<and> hc_conn hc' = hc_conn hc
    \<and> (rc = IO_DONE \<longrightarrow> k_sent e' (hc_fd hc) = k_sent e (hc_fd hc) @ static_pending hc e
        \<and> (hc_send_body hc \<or> hc_phase hc = PHASE_SENDFILE \<longrightarrow> nat (hc_file_size hc) \<le> length (k_files e (hc_file_fd hc))))
    \<and> (rc = IO_WANT_WRITE \<longrightarrow> sending hc' e'
        \<and> k_sent e' (hc_fd hc) @ static_pending hc' e' = k_sent e (hc_fd hc) @ static_pending hc e)
    \<and> (rc \<noteq> IO_DONE \<longrightarrow> rc \<noteq> IO_WANT_WRITE \<longrightarrow> rc = IO_CLOSE)"
proof (cases "hc_phase hc = PHASE_WRITE_HDR")
  case False
  then have "static_send_body (hc, e) = (rc, hc', e')" "hc_phase hc = PHASE_SENDFILE"
    using run sending by (auto simp: static_on_write_def sending_def)
  from static_send_body_step [OF this(1) sending this(2)] this(2) show ?thesis by (simp add: static_pending_def)
next
  case True
  obtain r off e1 where loop: "send_loop (hc_fd hc) (hc_out_hdr hc) (hc_out_hdr_off hc) e = (r, off, e1)"
    by (cases "send_loop (hc_fd hc) (hc_out_hdr hc) (hc_out_hdr_off hc) e")
  have off0: "hc_out_hdr_off hc \<le> length (hc_out_hdr hc)" using sending by (simp add: sending_def)
  note ex = send_loop_exact [OF loop off0]
  have files: "k_files e1 = k_files e" using ex by (simp add: only_sends_def)
  have hdr: "drop (hc_out_hdr_off hc) (hc_out_hdr hc) =
      take (off - hc_out_hdr_off hc) (drop (hc_out_hdr_off hc) (hc_out_hdr hc)) @ drop off (hc_out_hdr hc)"
    using ex by (metis append_take_drop_id drop_drop le_add_diff_inverse2 add.commute)
  let ?hc = "hc\<lparr>hc_out_hdr_off := off\<rparr>"
  show ?thesis
  proof (cases r)
    case Send_All
    then have off: "off = length (hc_out_hdr hc)" using ex by simp
    then have hdr: "k_sent e1 (hc_fd hc) = k_sent e (hc_fd hc) @ drop (hc_out_hdr_off hc) (hc_out_hdr hc)"
      using ex hdr by simp
    show ?thesis
    proof (cases "hc_send_body hc")
      case False
      then have "static_done (?hc, e1) = (rc, hc', e')" using run True loop Send_All by (simp add: static_on_write_def)
      from static_done_effect [OF this] hdr False True files show ?thesis by (auto simp: static_pending_def)
    next
      case body: True
      let ?s = "?hc\<lparr>hc_phase := PHASE_SENDFILE\<rparr>"
      have "static_send_body (?s, e1) = (rc, hc', e')"
        using run True loop Send_All body by (simp add: static_on_write_def)
      moreover have "sending ?s e1" using sending off files by (simp add: sending_def)
      moreover have "file_rest ?s e1 = file_rest hc e" by (simp add: file_rest_def files)
      ultimately show ?thesis
        using static_send_body_step [of ?s e1 rc hc' e'] hdr body True files by (auto simp: static_pending_def)
    qed
  qed (use run True loop ex hdr files sending in
      \<open>auto simp: static_on_write_def static_pending_def file_rest_def sending_def\<close>)
qed

section \<open>A whole response\<close>

text \<open>The number that \<open>%lld\<close> prints is read back as the same number.\<close>

lemma decimal_snoc: "decimal (s @ [c]) = decimal s * 10 + (unat c - 48)"
  by (simp add: decimal_def)

lemma unat_digit_byte: "d < 10 \<Longrightarrow> unat (word_of_nat (48 + d) :: byte) = 48 + d"
  unfolding unat_of_nat by simp

lemma decimal_fmt_dec: "decimal (fmt_dec n) = n"
proof (induction n rule: fmt_dec.induct)
  case (1 n)
  show ?case
  proof (cases "n < 10")
    case True
    then show ?thesis using unat_digit_byte [of n] by (subst fmt_dec.simps) (simp add: decimal_def)
  next
    case False
    have "unat (word_of_nat (48 + n mod 10) :: byte) = 48 + n mod 10" by (rule unat_digit_byte) simp
    with 1 False show ?thesis by (subst fmt_dec.simps) (simp only: if_False decimal_snoc, simp)
  qed
qed

text \<open>
  The calls of \<open>static_on_write\<close> of one response: before each of them the kernel prepares new answers
  for the client socket.
\<close>

fun static_writes ::
  "write_answer list list \<Rightarrow> http_conn \<times> 'a static_env_scheme \<Rightarrow> http_io \<times> http_conn \<times> 'a static_env_scheme" where
  "static_writes [] s = (IO_WANT_WRITE, s)"
| "static_writes (ws # rest) (hc, e) =
     (case static_on_write (hc, e\<lparr>k_writes := (k_writes e)(hc_fd hc := ws)\<rparr>) of
        (IO_WANT_WRITE, s) \<Rightarrow> static_writes rest s
      | r \<Rightarrow> r)"

lemma static_on_write_size:
  "static_on_write (hc, e) = (IO_WANT_WRITE, hc', e') \<Longrightarrow>
    hc_send_body hc' = hc_send_body hc \<and> hc_file_fd hc' = hc_file_fd hc \<and> hc_file_size hc' = hc_file_size hc
    \<and> (hc_phase hc' = PHASE_SENDFILE \<longrightarrow> hc_send_body hc \<or> hc_phase hc = PHASE_SENDFILE)"
  by (auto simp: static_on_write_def static_send_body_def static_done_def Let_def split: prod.splits send_end.splits if_splits)

lemma static_writes_sent:
  "static_writes wss (hc, e) = (IO_DONE, hc', e') \<Longrightarrow> sending hc e \<Longrightarrow>
    (hc_phase hc = PHASE_SENDFILE \<longrightarrow> hc_send_body hc) \<Longrightarrow>
    k_sent e' (hc_fd hc) = k_sent e (hc_fd hc) @ static_pending hc e
    \<and> (hc_send_body hc \<longrightarrow> nat (hc_file_size hc) \<le> length (k_files e (hc_file_fd hc)))"
proof (induction wss arbitrary: hc e)
  case (Cons ws wss)
  let ?e = "e\<lparr>k_writes := (k_writes e)(hc_fd hc := ws)\<rparr>"
  obtain rc hc1 e1 where call: "static_on_write (hc, ?e) = (rc, hc1, e1)" by (cases "static_on_write (hc, ?e)")
  have sending: "sending hc ?e" using Cons.prems(2) by (simp add: sending_def)
  have pending: "static_pending hc ?e = static_pending hc e" by (simp add: static_pending_def file_rest_def)
  note step = static_on_write_step [OF call sending]
  show ?case
  proof (cases "rc = IO_WANT_WRITE")
    case True
    note keep = static_on_write_size [OF call [unfolded True]]
    have "static_writes wss (hc1, e1) = (IO_DONE, hc', e')" using Cons.prems(1) call True by simp
    from Cons.IH [OF this] step True keep pending Cons.prems(3)
    show ?thesis by (auto simp: static_on_write_def)
  next
    case False
    then have "rc = IO_DONE" "e' = e1" using Cons.prems(1) call by (auto split: http_io.splits)
    then show ?thesis using step pending by simp
  qed
qed simp

text \<open>
  C26. A file is sent exactly once. Once \<open>arm_regular\<close> has armed an open file, whatever the client
  socket takes in each of the calls of \<open>static_on_write\<close> - parts of the data, interruptions, refusals
  in between - the call that reports \<open>HTTP_IO_DONE\<close> has completed exactly this on the wire: the
  head, and for \<open>GET\<close> the first \<open>size\<close> bytes of the file, of which there are as many as its
  \<open>Content-Length\<close> announces; for \<open>HEAD\<close> nothing more.
\<close>

theorem static_file_sent_exactly:
  assumes arm: "arm_regular ffd fsize mime owned now (hc, e) = (hc1, e1)" "hc_phase hc1 = PHASE_WRITE_HDR"
    and size: "0 \<le> fsize" and run: "static_writes wss (hc1, e1) = (IO_DONE, hc2, e2)"
  shows "\<exists>body. k_sent e2 (hc_fd hc) =
      k_sent e (hc_fd hc) @ ok_head fsize mime (http_should_keepalive (hc_req hc)) @ body
    \<and> body = (if req_method (hc_req hc) = METHOD_GET then take (nat fsize) (k_files e ffd) else [])
    \<and> (req_method (hc_req hc) = METHOD_GET \<longrightarrow> length body = decimal (fmt_lld fsize))"
proof -
  from arm size have hc1: "hc_fd hc1 = hc_fd hc" "k_sent e1 = k_sent e" "k_files e1 = k_files e"
    "hc_file_fd hc1 = ffd" "hc_file_size hc1 = fsize"
    "hc_send_body hc1 = (req_method (hc_req hc) = METHOD_GET \<and> fsize > 0)" "sending hc1 e1"
    "static_pending hc1 e1 = ok_head fsize mime (http_should_keepalive (hc_req hc)) @
      (if req_method (hc_req hc) = METHOD_GET \<and> fsize > 0 then take (nat fsize) (k_files e ffd) else [])"
    by (auto simp: arm_regular_def arm_fixed_def hc_alloc_def cork_def Let_def sending_def static_pending_def
        file_rest_def bslice_def split: prod.splits bool.splits if_splits)
  from static_writes_sent [OF run hc1(7)] arm(2) have
    sent: "k_sent e2 (hc_fd hc) = k_sent e (hc_fd hc) @ static_pending hc1 e1"
    and len: "hc_send_body hc1 \<longrightarrow> nat fsize \<le> length (k_files e ffd)"
    unfolding hc1(1-5) by simp_all
  have "decimal (fmt_lld fsize) = nat fsize" using size by (simp add: fmt_lld_def decimal_fmt_dec)
  with sent len hc1(6,8) size show ?thesis by auto
qed

text \<open>A request for a file of three bytes, sent in four pieces over three calls.\<close>

definition head0 :: "byte list" where
  "head0 = ok_head 3 ''text/plain'' True"

lemma length_head0: "length head0 = 88"
  by (simp add: head0_def ok_head_def head_text_def fmt_lld_def fmt_dec.simps fmt_keep_def)

lemma static_file_sent_exactly_witness:
  "\<exists>hc2 e2. static_writes [[Wr 10, Wr_Again], [Wr_Intr, Wr 1000, Wr 2, Wr_Again], [Wr 1]]
      (arm_regular 9 3 ''text/plain'' True 0 (http_conn0, static_env0\<lparr>k_files := \<lambda>_. [97, 98, 99, 100]\<rparr>)) = (IO_DONE, hc2, e2)
    \<and> k_sent e2 5 = head0 @ [97, 98, 99]"
proof -
  let ?e = "static_env0\<lparr>k_files := \<lambda>_. [97, 98, 99, 100]\<rparr>"
  let ?wss = "[[Wr 10, Wr_Again], [Wr_Intr, Wr 1000, Wr 2, Wr_Again], [Wr 1]]"
  obtain hc1 e1 where arm: "arm_regular 9 3 ''text/plain'' True 0 (http_conn0, ?e) = (hc1, e1)"
    by (cases "arm_regular 9 3 ''text/plain'' True 0 (http_conn0, ?e)")
  have keep: "http_should_keepalive (hc_req http_conn0)" by (simp add: http_conn0_def evals)
  have alloc: "hc_alloc STATIC_HDR_SIZE http_conn0 = (True, http_conn0\<lparr>hc_arena := \<lparr>bp_offset = 256, bp_size = 12288, bp_mem = 4096\<rparr>\<rparr>)"
    by (simp add: hc_alloc_def STATIC_HDR_SIZE_def bump_alloc_def http_conn0_def)
  have hc1: "hc_phase hc1 = PHASE_WRITE_HDR" "hc_out_hdr hc1 = head0" "hc_out_hdr_off hc1 = 0" "hc_send_body hc1"
    "hc_file_fd hc1 = 9" "hc_file_size hc1 = 3" "hc_file_off hc1 = 0" "hc_fd hc1 = 5" "k_files e1 = (\<lambda>_. [97, 98, 99, 100])"
    using arm alloc keep length_head0
    by (auto simp: arm_regular_def head0_def STATIC_HDR_SIZE_def cork_def Let_def http_conn0_def static_env0_def evals)
  have "\<exists>hc2 e2. static_writes ?wss (hc1, e1) = (IO_DONE, hc2, e2)"
    using hc1 length_head0
    by (simp add: static_on_write_def static_send_body_def static_done_def cork_def sendfile_loop.simps send_loop.simps
        sys_send_def Let_def)
  then obtain hc2 e2 where run: "static_writes ?wss (hc1, e1) = (IO_DONE, hc2, e2)" by blast
  from static_file_sent_exactly [OF arm hc1(1) _ run] keep
  have "k_sent e2 5 = head0 @ [97, 98, 99]"
    by (simp add: http_conn0_def http_request0_def static_env0_def head0_def)
  with arm run show ?thesis by auto
qed

end
