(* ===== verification/Static_Open.thy ===== *)
theory Static_Open
  imports Static_Send
begin

text \<open>
  Which files a request can make the server open: every \<open>openat2\<close> call of \<open>static_serve\<close>, on a
  miss, on the index file of a directory and in the recheck of a cached entry.
\<close>

section \<open>Safe paths\<close>

definition safe_path :: "static_policy \<Rightarrow> byte list \<Rightarrow> bool" where
  "safe_path pol p = (p \<noteq> [] \<and> list_all (segment_ok pol) (path_segments p) \<and> p = join_slash (path_segments p)
     \<and> hd p \<noteq> 47 \<and> list_all clean p)"

definition paths_safe :: "'a static_env_scheme \<Rightarrow> bool" where
  "paths_safe e = (length (fc_table e) = 64
     \<and> (fc_ready e \<longrightarrow> (\<forall>c \<in> set (fc_table e). 0 \<le> cf_fd c \<longrightarrow> safe_path (se_policy e) (cf_path c))))"

text \<open>The calls made on the way from \<open>e\<close> to \<open>e'\<close>, with directory \<open>d\<close>.\<close>

definition opens_beneath :: "int \<Rightarrow> 'a static_env_scheme \<Rightarrow> 'a static_env_scheme \<Rightarrow> bool" where
  "opens_beneath d e e' = (\<exists>os. se_opened e' = se_opened e @ os \<and>
     (\<forall>(dir, p, how) \<in> set os. dir = d \<and> safe_path (se_policy e) p \<and> RESOLVE_BENEATH \<in> how
        \<and> (\<not> allow_symlinks (se_policy e) \<longrightarrow> RESOLVE_NO_SYMLINKS \<in> how)))"

definition safe_step :: "int \<Rightarrow> 'a static_env_scheme \<Rightarrow> 'a static_env_scheme \<Rightarrow> bool" where
  "safe_step d e e' = (se_policy e' = se_policy e \<and> se_docroot_fd e' = se_docroot_fd e
     \<and> (paths_safe e \<longrightarrow> paths_safe e' \<and> opens_beneath d e e'))"

lemma safe_step_refl [simp]: "safe_step d e e"
  by (simp add: safe_step_def opens_beneath_def)

lemma safe_step_trans [trans]:
  assumes "safe_step d e e'" and "safe_step d e' e''" shows "safe_step d e e''"
proof -
  have "opens_beneath d e e''" if beneath: "opens_beneath d e e'" "opens_beneath d e' e''" and same: "se_policy e' = se_policy e"
  proof -
    from beneath obtain os os' where "se_opened e' = se_opened e @ os" "se_opened e'' = se_opened e' @ os'"
      "\<forall>(dir, p, how) \<in> set os. dir = d \<and> safe_path (se_policy e) p \<and> RESOLVE_BENEATH \<in> how
        \<and> (\<not> allow_symlinks (se_policy e) \<longrightarrow> RESOLVE_NO_SYMLINKS \<in> how)"
      "\<forall>(dir, p, how) \<in> set os'. dir = d \<and> safe_path (se_policy e) p \<and> RESOLVE_BENEATH \<in> how
        \<and> (\<not> allow_symlinks (se_policy e) \<longrightarrow> RESOLVE_NO_SYMLINKS \<in> how)"
      unfolding opens_beneath_def same by blast
    then show ?thesis unfolding opens_beneath_def by (intro exI [of _ "os @ os'"]) auto
  qed
  with assms show ?thesis unfolding safe_step_def by simp
qed

text \<open>A step that opens nothing and puts no path into the table.\<close>

lemma safe_stepI:
  assumes "se_policy e' = se_policy e" "se_docroot_fd e' = se_docroot_fd e" "se_opened e' = se_opened e"
    and "length (fc_table e') = length (fc_table e)" "fc_ready e' \<Longrightarrow> fc_ready e"
    and "\<And>c. c \<in> set (fc_table e') \<Longrightarrow> 0 \<le> cf_fd c \<Longrightarrow> \<exists>c' \<in> set (fc_table e). 0 \<le> cf_fd c' \<and> cf_path c' = cf_path c"
  shows "safe_step d e e'"
  using assms unfolding safe_step_def paths_safe_def opens_beneath_def by fastforce

lemma safe_step_same:
  "se_policy e' = se_policy e \<Longrightarrow> se_docroot_fd e' = se_docroot_fd e \<Longrightarrow> se_opened e' = se_opened e \<Longrightarrow>
    fc_table e' = fc_table e \<Longrightarrow> fc_ready e' = fc_ready e \<Longrightarrow> safe_step d e e'"
  by (simp add: safe_step_def paths_safe_def opens_beneath_def)

text \<open>Overwriting one entry by a dead one, by one with the same path, or by one with a safe path.\<close>

lemma put_entry_safe:
  assumes "0 \<le> cf_fd c \<Longrightarrow> safe_path (se_policy e) (cf_path c)"
  shows "safe_step d e (put_entry i c e)"
  using assms set_update_subset_insert [of "fc_table e" i c]
  by (auto simp: safe_step_def paths_safe_def opens_beneath_def)

lemma put_same_safe:
  assumes "cf_fd c = cf_fd (fc_table e ! i)" and "cf_path c = cf_path (fc_table e ! i)"
  shows "safe_step d e (put_entry i c e)"
proof (cases "i < length (fc_table e)")
  case True
  then have i: "fc_table e ! i \<in> set (fc_table e)" by simp
  show ?thesis
  proof (rule safe_stepI)
    fix x assume x: "x \<in> set (fc_table (put_entry i c e))" "0 \<le> cf_fd x"
    then have "x = c \<or> x \<in> set (fc_table e)" using set_update_subset_insert [of "fc_table e" i c] by auto
    then show "\<exists>c' \<in> set (fc_table e). 0 \<le> cf_fd c' \<and> cf_path c' = cf_path x"
      using i x(2) assms by auto
  qed simp_all
qed (simp add: list_update_beyond)

lemma retire_fd_safe [simp]: "safe_step d e (retire_fd fd u e)"
  by (rule safe_step_same) (simp_all add: retire_fd_def sys_close_def)

lemma sys_close_safe [simp]: "safe_step d e (sys_close fd e)"
  by (rule safe_step_same) (simp_all add: sys_close_def)

lemma sys_stat_safe: "sys_stat e = (r, e') \<Longrightarrow> safe_step d e e'"
  by (rule safe_step_same) (auto dest: sys_stat_table)

lemma tombstone_safe [simp]: "safe_step d e (tombstone i e)"
  unfolding tombstone_def Let_def by (rule safe_step_trans [OF put_entry_safe retire_fd_safe]) simp

lemma file_cache_init_safe [simp]: "safe_step d e (file_cache_init e)"
  by (auto simp: safe_step_def paths_safe_def opens_beneath_def file_cache_init_def)

lemma live_path_safe:
  "paths_safe e \<Longrightarrow> fc_ready e \<Longrightarrow> i < 64 \<Longrightarrow> live (fc_table e ! i) \<Longrightarrow> safe_path (se_policy e) (cf_path (fc_table e ! i))"
  by (simp add: paths_safe_def live_def)

lemma safe_step_guard: "(paths_safe e \<Longrightarrow> safe_step d e e') \<Longrightarrow>
    se_policy e' = se_policy e \<Longrightarrow> se_docroot_fd e' = se_docroot_fd e \<Longrightarrow> safe_step d e e'"
  by (simp add: safe_step_def)

lemma open_under_safe:
  assumes "open_under_loop n d p e = (r, e')" and "paths_safe e \<Longrightarrow> safe_path (se_policy e) p"
  shows "safe_step d e e'"
  using assms
proof (induction n arbitrary: e)
  case (Suc n)
  let ?e = "e\<lparr>se_opened := se_opened e @ [(d, p, open_how (se_policy e))]\<rparr>"
  obtain a e1 where call: "sys_open ?e = (a, e1)" by (cases "sys_open ?e")
  have "safe_step d e ?e"
    using Suc.prems(2) by (auto simp: safe_step_def paths_safe_def opens_beneath_def open_how_def)
  also have "safe_step d ?e e1"
    using call by (intro safe_step_same) (auto simp: sys_open_def split: list.splits)
  finally have step: "safe_step d e e1" .
  show ?case
  proof (cases "a = Inl EAGAIN")
    case True
    then have "open_under_loop n d p e1 = (r, e')" using Suc.prems(1) call by simp
    moreover have "safe_path (se_policy e1) p" if "paths_safe e1"
    proof -
      have "paths_safe e" using that call by (auto simp: paths_safe_def sys_open_def split: list.splits)
      then show ?thesis using Suc.prems(2) step by (simp add: safe_step_def)
    qed
    ultimately show ?thesis using Suc.IH step safe_step_trans by blast
  next
    case False
    then have "e' = e1" using Suc.prems(1) call by (auto split: sum.splits errno.splits)
    then show ?thesis using step by simp
  qed
qed simp

lemma open_under_safe':
  "open_under d p e = (r, e') \<Longrightarrow> (paths_safe e \<Longrightarrow> safe_path (se_policy e) p) \<Longrightarrow> safe_step d e e'"
  unfolding open_under_def by (rule open_under_safe)

section \<open>The cache\<close>

lemma file_cache_find_live:
  assumes "file_cache_find p e = (r, e')"
  shows "e' = file_cache_init e" "r = Some i \<Longrightarrow> i < 64 \<and> live (fc_table e' ! i) \<and> cf_path (fc_table e' ! i) = p"
proof -
  show e': "e' = file_cache_init e" using assms by (auto simp: file_cache_find_def Let_def split: if_splits)
  assume "r = Some i"
  then have "find_probe (fc_table e') (path_hash p) p 64 (home p) = Some i"
    using assms unfolding e' by (auto simp: file_cache_find_def Let_def FILE_CACHE_SLOTS_def home_def split: if_splits)
  from find_probe_sound [OF this] show "i < 64 \<and> live (fc_table e' ! i) \<and> cf_path (fc_table e' ! i) = p" by simp
qed

lemma recheck_safe:
  assumes run: "file_cache_recheck i now e = (b, e')"
    and path: "paths_safe e \<Longrightarrow> safe_path (se_policy e) (cf_path (fc_table e ! i))"
  shows "safe_step (se_docroot_fd e) e e'"
proof -
  let ?c = "fc_table e ! i"
  show ?thesis
  proof (cases "now - cf_checked ?c < FILE_CACHE_RECHECK_MS")
    case True
    then show ?thesis using run by (simp add: file_cache_recheck_def)
  next
    case old: False
    obtain r e1 where stat: "sys_stat e = (r, e1)" by (cases "sys_stat e")
    note keep = sys_stat_table [OF stat] and s1 = sys_stat_safe [OF stat, of "se_docroot_fd e"]
    have path1: "paths_safe e1 \<Longrightarrow> safe_path (se_policy e1) (cf_path ?c)"
      using path keep by (simp add: paths_safe_def)
    have gone: "safe_step (se_docroot_fd e) e1 (tombstone i e1)" by simp
    show ?thesis
    proof (cases "\<exists>st. r = Some st \<and> st_kind st = Regular \<and> \<not> st_size st < 0")
      case False
      then have "e' = tombstone i e1"
        using run old stat unfolding file_cache_recheck_def by (cases r) (auto simp: Let_def)
      then show ?thesis using safe_step_trans [OF s1 gone] by simp
    next
      case True
      then obtain st where st: "r = Some st" "st_kind st = Regular" "\<not> st_size st < 0" by auto
      show ?thesis
      proof (cases "same_meta ?c st")
        case True
        then have put: "e' = put_entry i (?c\<lparr>cf_checked := now\<rparr>) e1"
          using run old stat st by (simp add: file_cache_recheck_def Let_def)
        have "safe_step (se_docroot_fd e) e1 e'" if "paths_safe e"
          unfolding put by (rule put_entry_safe) (simp add: path [OF that] keep)
        then have step: "safe_step (se_docroot_fd e) e e'" if "paths_safe e"
          using safe_step_trans [OF s1] that by blast
        show ?thesis
          by (rule safe_step_guard [OF step]) (simp_all add: put keep)
      next
        case False
        obtain o1 e2 where op: "open_under (se_docroot_fd e) (cf_path ?c) e1 = (o1, e2)"
          by (cases "open_under (se_docroot_fd e) (cf_path ?c) e1")
        note s2 = safe_step_trans [OF s1 open_under_safe' [OF op path1]]
        note keep2 = open_under_table [OF op [unfolded open_under_def]]
        show ?thesis
        proof (cases o1)
          case (Inl x)
          then have "e' = tombstone i e2"
            using run old stat st False op keep by (simp add: file_cache_recheck_def Let_def)
          then show ?thesis using safe_step_trans [OF s2 tombstone_safe] by simp
        next
          case (Inr fd)
          let ?r = "retire_fd (cf_fd ?c) (cf_uses ?c) e2"
          define d where "d = ?c\<lparr>cf_fd := fd, cf_uses := 0, cf_size := st_size st,
              cf_mtime_sec := st_mtime_sec st, cf_mtime_nsec := st_mtime_nsec st, cf_ino := st_ino st,
              cf_mime := mime_from_path (cf_path ?c), cf_checked := now\<rparr>"
          have d: "e' = put_entry i d ?r" "cf_path d = cf_path ?c"
            using run old stat st False op keep Inr by (simp_all add: file_cache_recheck_def Let_def d_def)
          note s3 = safe_step_trans [OF s2 retire_fd_safe]
          have pol: "se_policy ?r = se_policy e" "se_docroot_fd ?r = se_docroot_fd e"
            using s3 [of "cf_fd ?c" "cf_uses ?c"] by (auto simp: safe_step_def)
          have "safe_step (se_docroot_fd e) ?r e'" if "paths_safe e"
            unfolding d(1) by (rule put_entry_safe) (simp add: d(2) pol path [OF that])
          then have step: "safe_step (se_docroot_fd e) e e'" if "paths_safe e"
            using safe_step_trans [OF s3] that by blast
          show ?thesis by (rule safe_step_guard [OF step]) (simp_all add: d(1) pol)
        qed
      qed
    qed
  qed
qed

lemma hold_safe [simp]: "safe_step d e (file_cache_hold i e)"
  by (simp add: file_cache_hold_def Let_def put_same_safe)

lemma store_safe:
  assumes "file_cache_store p fd st mime now e = (r, e')" and "safe_path (se_policy e) p"
  shows "safe_step d e e'"
proof -
  have "safe_path (se_policy (file_cache_init e)) p" using assms(2) by (simp add: file_cache_init_def)
  then have "safe_step d (file_cache_init e) (put_entry i (fill_entry h p fd st mime now) (file_cache_init e))" for i h
    by (intro put_entry_safe) (simp add: fill_entry_def)
  then have put: "safe_step d e (put_entry i (fill_entry h p fd st mime now) (file_cache_init e))" for i h
    by (rule safe_step_trans [OF file_cache_init_safe])
  show ?thesis using assms(1) put file_cache_init_safe [of d e]
    by (auto simp: file_cache_store_def Let_def split: if_splits option.splits)
qed

lemma release_safe [simp]: "safe_step d e (static_cache_release fd e)"
  by (auto simp: static_cache_release_def Let_def sys_close_def intro!: safe_step_same put_same_safe split: option.split)

section \<open>The handlers\<close>

lemma release_file_safe [simp]: "safe_step d e (release_file hc e)"
  by (simp add: release_file_def)

lemma arm_fixed_safe [simp]: "safe_step d e (snd (arm_fixed c k b st now (hc, e)))"
  by (simp add: arm_fixed_def Let_def)

lemma arm_after_close_safe [simp]: "safe_step d e (snd (arm_fixed c k b st now (hc, sys_close fd e)))"
  by (rule safe_step_trans [OF sys_close_safe arm_fixed_safe])

lemma cork_safe [simp]: "safe_step d e (snd (cork on (hc, e)))"
  by (auto simp: cork_def sys_sockopt_def intro!: safe_step_same split: list.split)

lemma arm_regular_safe [simp]: "safe_step d e (snd (arm_regular fd sz mime owned now (hc, e)))"
  by (simp add: arm_regular_def Let_def split: prod.split bool.split)

lemma arm_dir_redirect_safe [simp]: "safe_step d e (snd (arm_dir_redirect path now (hc, e)))"
  by (simp add: arm_dir_redirect_def Let_def split: prod.split bool.split)

lemma arm_open_error_safe [simp]: "safe_step d e (snd (arm_open_error err now (hc, e)))"
  by (simp add: arm_open_error_def)

lemma serve_hit_safe:
  assumes "use_cache \<Longrightarrow> d = se_docroot_fd e"
  shows "case serve_hit use_cache rel now (hc, e) of Inl r \<Rightarrow> safe_step d e (snd r) | Inr e' \<Rightarrow> safe_step d e e'"
proof (cases use_cache)
  case False
  then show ?thesis by (simp add: serve_hit_def)
next
  case True
  then have d: "d = se_docroot_fd e" by (rule assms)
  obtain r e1 where hit: "file_cache_find rel e = (r, e1)" by (cases "file_cache_find rel e")
  note live = file_cache_find_live [OF hit]
  have s1: "safe_step d e e1" unfolding live(1) by simp
  show ?thesis
  proof (cases r)
    case None
    then show ?thesis using True hit s1 by (simp add: serve_hit_def)
  next
    case (Some i)
    obtain b e2 where re: "file_cache_recheck i now e1 = (b, e2)" by (cases "file_cache_recheck i now e1")
    have ready: "fc_ready e1" unfolding live(1) by (simp add: file_cache_init_def)
    have "paths_safe e1 \<Longrightarrow> safe_path (se_policy e1) (cf_path (fc_table e1 ! i))"
      using live_path_safe [OF _ ready] live(2) [OF Some] by blast
    from recheck_safe [OF re this] s1 d have s2: "safe_step d e1 e2" by (simp add: safe_step_def)
    note s12 = safe_step_trans [OF s1 s2]
    show ?thesis
    proof (cases b)
      case False
      then show ?thesis using True hit Some re s12 by (simp add: serve_hit_def)
    next
      case b: True
      from safe_step_trans [OF safe_step_trans [OF s12 hold_safe] arm_regular_safe]
      show ?thesis using True hit Some re b by (simp add: serve_hit_def Let_def)
    qed
  qed
qed

lemma arm_regular_after: "safe_step d e e' \<Longrightarrow> safe_step d e (snd (arm_regular fd sz mime owned now (hc, e')))"
  by (rule safe_step_trans [OF _ arm_regular_safe])

lemma hold_after: "safe_step d e e' \<Longrightarrow> safe_step d e (file_cache_hold i e')"
  by (rule safe_step_trans [OF _ hold_safe])

lemma serve_file_safe:
  assumes "safe_path (se_policy e) rel"
  shows "safe_step d e (snd (serve_file use_cache rel fd st now (hc, e)))"
  using assms
  by (auto simp: serve_file_def Let_def split: option.split prod.split
      intro!: arm_regular_after hold_after intro: store_safe)

lemma index_html_safe:
  assumes "safe_path pol p"
  shows "safe_path pol (p @ bytes ''/index.html'')"
proof -
  let ?ss = "path_segments p" and ?i = "bytes ''index.html''"
  have p: "list_all (segment_ok pol) ?ss" "p = join_slash ?ss" "p \<noteq> []" "hd p \<noteq> 47" "list_all clean p"
    using assms by (auto simp: safe_path_def)
  then have "?ss \<noteq> []" by auto
  then have join: "join_slash (?ss @ [?i]) = p @ bytes ''/index.html''"
    using p(2) by (simp add: join_slash_snoc bytes_def)
  have ok: "list_all (segment_ok pol) (?ss @ [?i])" using p(1) index_html_ok by simp
  then have "path_segments (join_slash (?ss @ [?i])) = ?ss @ [?i]"
    by (intro path_segments_join) (auto simp: segment_ok_def list_all_iff)
  then have "path_segments (p @ bytes ''/index.html'') = ?ss @ [?i]" unfolding join .
  with ok join p show ?thesis by (simp add: safe_path_def) (simp add: clean_def bytes_def)
qed

lemma hit_case:
  assumes "use_cache \<Longrightarrow> d = se_docroot_fd e"
    and "\<And>e'. safe_step d e e' \<Longrightarrow> safe_step d e (snd (f e'))"
  shows "safe_step d e (snd (case serve_hit use_cache rel now (hc, e) of Inl r \<Rightarrow> r | Inr e' \<Rightarrow> f e'))"
  using serve_hit_safe [OF assms(1), of use_cache rel now hc] assms(2) by (auto split: sum.split)

lemma safe_step_policy: "safe_step d e e' \<Longrightarrow> se_policy e' = se_policy e \<and> se_docroot_fd e' = se_docroot_fd e"
  by (simp add: safe_step_def)

lemma open_stat_case:
  assumes step: "safe_step d e e0" and rel: "safe_path (se_policy e) rel"
    and f: "\<And>e' fd st. safe_step d e e' \<Longrightarrow> safe_step d e (snd (f fd st e'))"
  shows "safe_step d e (snd (case open_under d rel e0 of
      (Inl err, e) \<Rightarrow> arm_open_error err now (hc, e)
    | (Inr fd, e) \<Rightarrow> (case sys_stat e of
        (None, e) \<Rightarrow> arm_close_500 now (hc, sys_close fd e)
      | (Some st, e) \<Rightarrow> f fd st e)))"
proof -
  obtain r e1 where op: "open_under d rel e0 = (r, e1)" by (cases "open_under d rel e0")
  have "safe_step d e0 e1" using open_under_safe' [OF op] rel safe_step_policy [OF step] by simp
  with step have s1: "safe_step d e e1" by (rule safe_step_trans)
  obtain r2 e2 where st: "sys_stat e1 = (r2, e2)" by (cases "sys_stat e1")
  have s2: "safe_step d e e2" using s1 sys_stat_safe [OF st] by (rule safe_step_trans)
  show ?thesis
    using op st f [OF s2] safe_step_trans [OF s1 arm_open_error_safe] safe_step_trans [OF s2 arm_after_close_safe]
    by (auto split: sum.split option.split)
qed

lemma serve_index_safe:
  assumes "use_cache \<Longrightarrow> d = se_docroot_fd e" and rel: "safe_path (se_policy e) rel"
  shows "safe_step d e (snd (serve_index d use_cache rel now (hc, e)))"
proof -
  let ?rel = "rel @ bytes ''/index.html''"
  have safe: "safe_path (se_policy e) ?rel" using rel by (rule index_html_safe)
  have "safe_step d e (snd (serve_file use_cache ?rel fd st now (hc, e')))" if "safe_step d e e'" for fd st e'
    using safe_step_trans [OF that serve_file_safe] safe safe_step_policy [OF that] by simp
  then show ?thesis
    unfolding serve_index_def Let_def prod.case
    using hit_case [OF assms(1) open_stat_case [OF _ safe]] by simp
qed

lemma serve_path_safe:
  assumes cache: "use_cache \<Longrightarrow> d = se_docroot_fd e" and rel: "safe_path (se_policy e) rel"
  shows "safe_step d e (snd (serve_path d use_cache decoded rel redir now (hc, e)))"
proof -
  have "safe_step d e (snd (if st_kind st = Directory then
        (let e = sys_close fd e' in
         if last decoded \<noteq> 47 then arm_dir_redirect redir now (hc, e) else serve_index d use_cache rel now (hc, e))
      else serve_file use_cache rel fd st now (hc, e')))" if step: "safe_step d e e'" for fd st e'
  proof -
    have closed: "safe_step d e (sys_close fd e')" using step sys_close_safe by (rule safe_step_trans)
    have "safe_step d e (snd (serve_index d use_cache rel now (hc, sys_close fd e')))"
      using safe_step_trans [OF closed serve_index_safe] cache rel safe_step_policy [OF closed] by simp
    moreover have "safe_step d e (snd (arm_dir_redirect redir now (hc, sys_close fd e')))"
      using closed arm_dir_redirect_safe by (rule safe_step_trans)
    moreover have "safe_step d e (snd (serve_file use_cache rel fd st now (hc, e')))"
      using safe_step_trans [OF step serve_file_safe] rel safe_step_policy [OF step] by simp
    ultimately show ?thesis by (simp add: Let_def)
  qed
  then show ?thesis
    unfolding serve_path_def prod.case using hit_case [OF cache open_stat_case [OF _ rel]] by simp
qed

lemma static_serve_safe:
  assumes cache: "use_cache \<Longrightarrow> d = se_docroot_fd e" and len: "length url < 65535"
  shows "safe_step d e (snd (static_serve d use_cache url redir now (hc, e)))"
proof -
  have n: "unat (word_of_nat (length url) :: u16) = length url" using len by (intro unat_of_nat_16) simp
  let ?rel = "normalize_path (se_policy e) (percent_decode url (word_of_nat (length url)) STATIC_PATH_MAX) STATIC_PATH_MAX"
  have "safe_path (se_policy e) ?rel" if "?rel \<noteq> []"
    using served_path_safe [OF _ _ refl that] n len that by (simp add: safe_path_def)
  then show ?thesis
    using serve_path_safe [OF cache] by (simp add: static_serve_def Let_def split: prod.split)
qed

text \<open>
  C25. No request opens anything outside its directory. Whatever path, query and method a request
  has, and whatever the cache holds from earlier ones, each \<open>openat2\<close> call that \<open>static_begin\<close> makes is
  relative to the document root with \<open>RESOLVE_BENEATH\<close>, and without symbolic links if the policy
  forbids them; its path is relative, printable, and made of proper names only, so that even without
  the flag no \<open>..\<close> could lead out. For a mount the same holds with the directory of the mount.
\<close>

theorem static_opens_beneath:
  assumes "paths_safe e" and "length (hc_buf hc) \<le> TINY_HEADER_SIZE" and "length url < 65535"
  shows "paths_safe (snd (static_begin now (hc, e)))
    \<and> opens_beneath (se_docroot_fd e) e (snd (static_begin now (hc, e)))
    \<and> paths_safe (snd (static_begin_at d url redir now (hc, e)))
    \<and> opens_beneath d e (snd (static_begin_at d url redir now (hc, e)))"
proof -
  have "length (request_path hc) < 65535"
    using assms(2) by (auto simp: request_path_def slice_of_def TINY_HEADER_SIZE_def min_less_iff_disj)
  then have "safe_step (se_docroot_fd e) e (snd (static_begin now (hc, e)))"
    by (simp add: static_begin_def static_serve_safe)
  moreover have "safe_step d e (snd (static_begin_at d url redir now (hc, e)))"
    using assms(3) by (simp add: static_begin_at_def static_serve_safe)
  ultimately show ?thesis using assms(1) by (simp add: safe_step_def)
qed

lemma static_opens_beneath_witness:
  "paths_safe static_env0 \<and> opens_beneath 3 static_env0 (snd (static_begin 0 (http_conn0, static_env0)))
    \<and> opens_beneath 7 static_env0 (snd (static_begin_at 7 [47, 97] [47, 97] 0 (http_conn0, static_env0)))"
proof -
  have "paths_safe static_env0" by (simp add: paths_safe_def static_env0_def entry0_def)
  moreover have "length (hc_buf http_conn0) \<le> TINY_HEADER_SIZE" by (simp add: http_conn0_def)
  moreover have "se_docroot_fd static_env0 = 3" by (simp add: static_env0_def)
  ultimately show ?thesis
    using static_opens_beneath [of static_env0 http_conn0 "[47, 97]" 0 7 "[47, 97]"] by simp
qed

end
