(* ===== verification/Proxy_Pool.thy ===== *)
theory Proxy_Pool
  imports File_Cache Proxy_Headers "HOL-Library.Multiset"
begin

text \<open>
  The idle upstream connections of a worker (\<open>proxy_pool\<close> of \<^verbatim>\<open>src/proxy.c\<close>). A finished request
  puts its connection into the pool, a later one to the same address takes it out. The contract
  of such a pool is the locale \<open>idle_pool\<close>.
\<close>

definition PROXY_POOL_MAX :: nat where "PROXY_POOL_MAX = TINY_CONNS_PER_WORKER"

text \<open>An address is its bytes, so \<open>len\<close> is the length of \<open>pi_addr\<close>; no address is the empty list.\<close>

record proxy_idle =
  pi_fd :: int
  pi_addr :: "byte list"

text \<open>The pool on top of the rest of a worker's environment; \<open>proxy_pool_n\<close> is its length.\<close>

record proxy_env = static_env +
  pe_pool :: "proxy_idle list"

definition addr_eq :: "byte list \<Rightarrow> byte list \<Rightarrow> bool" where
  "addr_eq a b = (length a = length b \<and> length a > 0 \<and> a = b)"

text \<open>The loop of \<open>proxy_pool_take\<close>, from the top of the stack down.\<close>

fun pool_search :: "proxy_idle list \<Rightarrow> byte list \<Rightarrow> nat \<Rightarrow> nat option" where
  "pool_search pool addr 0 = None"
| "pool_search pool addr (Suc i) =
     (if addr_eq (pi_addr (pool ! i)) addr then Some i else pool_search pool addr i)"

definition proxy_pool_take :: "byte list \<Rightarrow> 'a proxy_env_scheme \<Rightarrow> int \<times> 'a proxy_env_scheme" where
  "proxy_pool_take addr e =
     (case pool_search (pe_pool e) addr (length (pe_pool e)) of
        None \<Rightarrow> (- 1, e)
      | Some i \<Rightarrow>
          (pi_fd (pe_pool e ! i),
           e\<lparr>pe_pool := butlast ((pe_pool e)[i := pe_pool e ! (length (pe_pool e) - 1)])\<rparr>))"

text \<open>\<open>False\<close>: the caller still owns the descriptor.\<close>

definition proxy_pool_put :: "int \<Rightarrow> byte list \<Rightarrow> 'a proxy_env_scheme \<Rightarrow> bool \<times> 'a proxy_env_scheme" where
  "proxy_pool_put fd addr e =
     (if fd < 0 \<or> length addr \<le> 0 \<or> length (pe_pool e) \<ge> PROXY_POOL_MAX then (False, e)
      else (True, e\<lparr>pe_pool := pe_pool e @ [\<lparr>pi_fd = fd, pi_addr = addr\<rparr>]\<rparr>))"

definition proxy_pool_clear :: "'a proxy_env_scheme \<Rightarrow> 'a proxy_env_scheme" where
  "proxy_pool_clear e =
     e\<lparr>k_closed := k_closed e @ filter (\<lambda>fd. fd \<ge> 0) (map pi_fd (rev (pe_pool e))), pe_pool := []\<rparr>"

declare proxy_pool_take_def [evals] proxy_pool_put_def [evals] addr_eq_def [evals] PROXY_POOL_MAX_def [evals]

section \<open>The contract\<close>

datatype ('a, 'f) pool_op = P_Put 'f 'a | P_Take 'a

text \<open>
  A pool holds descriptors under addresses. \<open>take_from\<close> gives back one that was put under this very
  address and fails only when there is none; \<open>put_in\<close> may refuse, and then changes nothing.
\<close>

locale idle_pool =
  fixes take_from :: "'a \<Rightarrow> 's \<Rightarrow> 'f option \<times> 's"
    and put_in :: "'f \<Rightarrow> 'a \<Rightarrow> 's \<Rightarrow> bool \<times> 's"
    and held :: "'s \<Rightarrow> ('a \<times> 'f) multiset"
    and pool_inv :: "'s \<Rightarrow> bool"
  assumes take_some: "pool_inv s \<Longrightarrow> take_from a s = (Some f, s') \<Longrightarrow> pool_inv s' \<and> held s = add_mset (a, f) (held s')"
    and take_none: "pool_inv s \<Longrightarrow> take_from a s = (None, s') \<Longrightarrow> s' = s \<and> (\<forall>f. (a, f) \<notin># held s)"
    and put_yes: "pool_inv s \<Longrightarrow> put_in f a s = (True, s') \<Longrightarrow> pool_inv s' \<and> held s' = add_mset (a, f) (held s)"
    and put_no: "pool_inv s \<Longrightarrow> put_in f a s = (False, s') \<Longrightarrow> s' = s"
begin

text \<open>A run with the connections accepted and the connections handed out, each with its address.\<close>

fun pool_run ::
  "('a, 'f) pool_op list \<Rightarrow> 's \<Rightarrow> ('a \<times> 'f) multiset \<times> ('a \<times> 'f) multiset \<times> 's" where
  "pool_run [] s = ({#}, {#}, s)"
| "pool_run (P_Put f a # ops) s =
     (case put_in f a s of (ok, s') \<Rightarrow> case pool_run ops s' of (ins, outs, s'') \<Rightarrow>
        (if ok then add_mset (a, f) ins else ins, outs, s''))"
| "pool_run (P_Take a # ops) s =
     (case take_from a s of (r, s') \<Rightarrow> case pool_run ops s' of (ins, outs, s'') \<Rightarrow>
        (ins, case r of None \<Rightarrow> outs | Some f \<Rightarrow> add_mset (a, f) outs, s''))"

lemma run_conserves:
  "pool_run ops s = (ins, outs, s') \<Longrightarrow> pool_inv s \<Longrightarrow> pool_inv s' \<and> held s + ins = outs + held s'"
proof (induction ops arbitrary: s ins outs)
  case (Cons a ops)
  show ?case
  proof (cases a)
    case (P_Put f b)
    obtain ok s1 where put: "put_in f b s = (ok, s1)" by (cases "put_in f b s")
    obtain i1 o1 where run: "pool_run ops s1 = (i1, o1, s')" "outs = o1" "ins = (if ok then add_mset (b, f) i1 else i1)"
      using Cons.prems(1) P_Put put by (auto split: prod.splits)
    have s1: "pool_inv s1 \<and> held s1 = (if ok then add_mset (b, f) (held s) else held s)"
      using put put_yes [OF Cons.prems(2), of f b s1] put_no [OF Cons.prems(2), of f b s1] Cons.prems(2)
      by (cases ok) simp_all
    with Cons.IH [OF run(1)] run(2,3) show ?thesis by (cases ok) auto
  next
    case (P_Take b)
    obtain r s1 where take: "take_from b s = (r, s1)" by (cases "take_from b s")
    obtain i1 o1 where run: "pool_run ops s1 = (i1, o1, s')" "ins = i1"
      "outs = (case r of None \<Rightarrow> o1 | Some f \<Rightarrow> add_mset (b, f) o1)"
      using Cons.prems(1) P_Take take by (auto split: prod.splits)
    have s1: "pool_inv s1 \<and> held s = (case r of None \<Rightarrow> held s1 | Some f \<Rightarrow> add_mset (b, f) (held s1))"
      using take take_some [OF Cons.prems(2), of b _ s1] take_none [OF Cons.prems(2), of b s1] Cons.prems(2)
      by (cases r) simp_all
    with Cons.IH [OF run(1)] run(2,3) show ?thesis by (cases r) auto
  qed
qed simp

end

section \<open>The code's pool\<close>

definition pool_held :: "'a proxy_env_scheme \<Rightarrow> (byte list \<times> int) multiset" where
  "pool_held e = image_mset (\<lambda>p. (pi_addr p, pi_fd p)) (mset (pe_pool e))"

definition pool_ok :: "'a proxy_env_scheme \<Rightarrow> bool" where
  "pool_ok e = (length (pe_pool e) \<le> PROXY_POOL_MAX \<and> (\<forall>p \<in> set (pe_pool e). 0 \<le> pi_fd p \<and> pi_addr p \<noteq> []))"

text \<open>\<open>-1\<close> is the answer of an empty-handed \<open>proxy_pool_take\<close>.\<close>

definition pool_take :: "byte list \<Rightarrow> 'a proxy_env_scheme \<Rightarrow> int option \<times> 'a proxy_env_scheme" where
  "pool_take addr e = (case proxy_pool_take addr e of (fd, e') \<Rightarrow> (if fd < 0 then None else Some fd, e'))"

lemma pool_search_Some: "pool_search pool addr n = Some i \<Longrightarrow> i < n \<and> pi_addr (pool ! i) = addr \<and> addr \<noteq> []"
  by (induction n) (auto simp: addr_eq_def split: if_splits)

lemma pool_search_None: "pool_search pool addr n = None \<Longrightarrow> addr \<noteq> [] \<Longrightarrow> i < n \<Longrightarrow> pi_addr (pool ! i) \<noteq> addr"
  by (induction n) (auto simp: addr_eq_def less_Suc_eq split: if_splits)

lemma mset_swap_remove:
  assumes "i < length xs"
  shows "mset xs = add_mset (xs ! i) (mset (butlast (xs[i := xs ! (length xs - 1)])))"
proof (cases "i = length xs - 1")
  case True
  with assms have "xs \<noteq> []" "xs[i := xs ! (length xs - 1)] = xs" by auto
  moreover from this have "xs ! i = last xs" using True by (simp add: last_conv_nth)
  ultimately show ?thesis by (metis append_butlast_last_id add_mset_add_single mset.simps(1,2) mset_append)
next
  case False
  let ?l = "xs ! (length xs - 1)" and ?ys = "xs[i := xs ! (length xs - 1)]"
  from assms have ne: "xs \<noteq> []" "?ys \<noteq> []" by auto
  then have last: "last ?ys = ?l" using assms False by (simp add: last_conv_nth)
  have "mset ?ys = add_mset ?l (mset xs - {#xs ! i#})" using assms by (simp add: mset_update)
  moreover have "mset ?ys = add_mset ?l (mset (butlast ?ys))"
    using ne last by (metis append_butlast_last_id add_mset_add_single mset.simps(1,2) mset_append)
  ultimately have "mset (butlast ?ys) = mset xs - {#xs ! i#}" by simp
  then show ?thesis using assms by simp
qed

lemma pool_take_some:
  assumes "pool_ok e" and "pool_take addr e = (Some fd, e')"
  shows "pool_ok e' \<and> pool_held e = add_mset (addr, fd) (pool_held e')"
proof -
  obtain i where i: "pool_search (pe_pool e) addr (length (pe_pool e)) = Some i"
    and fd: "fd = pi_fd (pe_pool e ! i)"
    and e': "e' = e\<lparr>pe_pool := butlast ((pe_pool e)[i := pe_pool e ! (length (pe_pool e) - 1)])\<rparr>"
    using assms(2) by (auto simp: pool_take_def proxy_pool_take_def split: option.splits if_splits)
  from pool_search_Some [OF i] have i: "i < length (pe_pool e)" "pi_addr (pe_pool e ! i) = addr" by auto
  note m = mset_swap_remove [OF i(1)]
  have "set (pe_pool e') \<subseteq> set (pe_pool e)"
    using arg_cong [OF m, of set_mset] unfolding e' by auto
  moreover have "length (pe_pool e') \<le> length (pe_pool e)" unfolding e' by simp
  ultimately have "pool_ok e'" using assms(1) unfolding pool_ok_def by auto
  moreover have "pool_held e = add_mset (addr, fd) (pool_held e')"
    unfolding pool_held_def e' by (subst m) (simp add: i(2) fd)
  ultimately show ?thesis by simp
qed

lemma pool_take_none:
  assumes "pool_ok e" and "pool_take addr e = (None, e')"
  shows "e' = e \<and> (\<forall>fd. (addr, fd) \<notin># pool_held e)"
proof -
  have none: "pool_search (pe_pool e) addr (length (pe_pool e)) = None"
  proof (rule ccontr)
    assume "pool_search (pe_pool e) addr (length (pe_pool e)) \<noteq> None"
    then obtain i where i: "pool_search (pe_pool e) addr (length (pe_pool e)) = Some i" by blast
    with pool_search_Some [OF i] assms(1) have "0 \<le> pi_fd (pe_pool e ! i)" by (simp add: pool_ok_def)
    then show False using assms(2) i by (simp add: pool_take_def proxy_pool_take_def)
  qed
  have "(addr, fd) \<notin># pool_held e" for fd
  proof
    assume "(addr, fd) \<in># pool_held e"
    then obtain i where "i < length (pe_pool e)" "pi_addr (pe_pool e ! i) = addr"
      by (auto simp: pool_held_def in_set_conv_nth)
    moreover from this have "addr \<noteq> []" using assms(1) by (auto simp: pool_ok_def)
    ultimately show False using pool_search_None [OF none] by blast
  qed
  then show ?thesis using assms(2) none by (simp add: pool_take_def proxy_pool_take_def)
qed

interpretation proxy: idle_pool pool_take proxy_pool_put pool_held pool_ok
proof
  show "pool_ok s' \<and> pool_held s = add_mset (a, f) (pool_held s')"
    if "pool_ok s" "pool_take a s = (Some f, s')" for s a f and s' :: "'a proxy_env_scheme"
    using pool_take_some that by blast
  show "s' = s \<and> (\<forall>f. (a, f) \<notin># pool_held s)" if "pool_ok s" "pool_take a s = (None, s')"
    for s a and s' :: "'a proxy_env_scheme"
    using pool_take_none that by blast
  show "pool_ok s' \<and> pool_held s' = add_mset (a, f) (pool_held s)" if "pool_ok s" "proxy_pool_put f a s = (True, s')"
    for s a f and s' :: "'a proxy_env_scheme"
    using that by (auto simp: proxy_pool_put_def pool_ok_def pool_held_def split: if_splits)
  show "s' = s" if "pool_ok s" "proxy_pool_put f a s = (False, s')" for s a f and s' :: "'a proxy_env_scheme"
    using that by (auto simp: proxy_pool_put_def split: if_splits)
qed

text \<open>
  C27. The pool keeps idle connections apart by address and loses none. In any run of
  \<open>proxy_pool_put\<close> and \<open>proxy_pool_take\<close> the connections put in together with those at the start are
  exactly the ones handed out and the ones still there, each under the address it belongs to: no
  request is sent to another upstream, and no connection serves two requests at once.
\<close>

theorem proxy_pool_conserves:
  assumes "pool_ok e" and "proxy.pool_run ops e = (ins, outs, e')"
  shows "pool_ok e' \<and> pool_held e + ins = outs + pool_held e'"
  using proxy.run_conserves [OF assms(2,1)] .

text \<open>Two connections to \<open>[1]\<close> and one to \<open>[2]\<close> come back; requests to \<open>[2]\<close>, \<open>[2]\<close> and \<open>[1]\<close> follow.\<close>

definition proxy_env0 :: proxy_env where
  "proxy_env0 = \<lparr>k_reads = (\<lambda>_. []), k_writes = (\<lambda>_. []), k_sent = (\<lambda>_. []), k_closed = [], k_sockets = [],
     k_connects = [], k_epolls = [], k_sockopts = [], k_files = (\<lambda>_. []),
     se_docroot_fd = 3, se_policy = \<lparr>allow_dotfiles = False, allow_symlinks = True\<rparr>, se_opens = [], se_stats = [],
     se_opened = [], fc_ready = False, fc_table = [], fc_retired = [], pe_pool = []\<rparr>"

lemma proxy_pool_conserves_witness:
  "\<exists>ins e'. proxy.pool_run [P_Put 8 [1], P_Put 9 [2], P_Put 7 [1], P_Take [2], P_Take [2], P_Take [1]] proxy_env0
      = (ins, {#([2], 9), ([1], 7)#}, e') \<and> ins = {#([2], 9), ([1], 7)#} + pool_held e' \<and> pool_ok e'"
proof -
  let ?ops = "[P_Put 8 [1], P_Put 9 [2], P_Put 7 [1], P_Take [2], P_Take [2], P_Take [1]]"
  have ok: "pool_ok proxy_env0" "pool_held proxy_env0 = {#}" by (simp_all add: pool_ok_def pool_held_def proxy_env0_def)
  obtain ins outs e' where run: "proxy.pool_run ?ops proxy_env0 = (ins, outs, e')" by (cases "proxy.pool_run ?ops proxy_env0")
  have "outs = {#([2], 9), ([1], 7)#}"
    using run by (simp add: proxy_env0_def pool_take_def TINY_CONNS_PER_WORKER_def evals)
  then show ?thesis using proxy_pool_conserves [OF ok(1) run] ok(2) run by simp
qed

end
