(* ===== verification/Proxy_Pump.thy ===== *)
theory Proxy_Pump
  imports Proxy_Pool
begin

text \<open>
  The proxied connection of a slot: \<^verbatim>\<open>src/proxy.c\<close> from \<open>proxy_begin\<close> on. \<open>proxy_pump\<close> is a loop
  over the phases of the exchange with a budget; it is modelled as a function of one round and
  the iteration of rounds, so that the round of each phase can be reasoned about by itself. A
  state is the client connection, the upstream connection and the environment of the worker.
\<close>

type_synonym 'a pump = "http_conn \<times> proxy_conn \<times> 'a proxy_env_scheme"

definition proxy_head :: "string list \<Rightarrow> byte list" where
  "proxy_head ls = concat (map (\<lambda>l. bytes l @ [CR, LF]) ls) @ [CR, LF]"

definition RESP_405 :: "byte list" where
  "RESP_405 = proxy_head [''HTTP/1.1 405 Method Not Allowed'', ''Content-Length: 0'', ''Allow: GET, HEAD, POST'', ''Connection: close'']"
definition RESP_411 :: "byte list" where
  "RESP_411 = proxy_head [''HTTP/1.1 411 Length Required'', ''Content-Length: 0'', ''Connection: close'']"
definition RESP_502 :: "byte list" where
  "RESP_502 = proxy_head [''HTTP/1.1 502 Bad Gateway'', ''Content-Length: 0'', ''Connection: close'']"
definition CONT_100 :: "byte list" where
  "CONT_100 = proxy_head [''HTTP/1.1 100 Continue'']"

section \<open>Closing, parking, opening\<close>

definition proxy_conn_reset :: "proxy_conn \<Rightarrow> proxy_conn" where
  "proxy_conn_reset px = px\<lparr>px_fd := - 1, px_phase := PX_NONE, px_armed := IO_DONE, px_in_epoll := False,
     px_flags := {}, chunk_state := CH_SIZE, saw_digit := False, px_cont_off := 0, px_status := 0,
     px_hdr_off := 0, px_hdr := [], px_buf_off := 0, px_buf := [], px_body_off := 0, px_body_end := 0,
     px_body_left := 0, px_resp_left := 0, chunk_size := 0, px_up_addr := []\<rparr>"

text \<open>\<open>setsockopt\<close> for the upstream cork, its result ignored, if the flag is set.\<close>

definition uncork_fd :: "proxy_conn \<Rightarrow> 'a proxy_env_scheme \<Rightarrow> 'a proxy_env_scheme" where
  "uncork_fd px e = (if PX_CORK \<in> px_flags px then snd (sys_sockopt e) else e)"

definition proxy_close :: "proxy_conn \<times> 'a proxy_env_scheme \<Rightarrow> proxy_conn \<times> 'a proxy_env_scheme" where
  "proxy_close = (\<lambda>(px, e).
     (if px_fd px < 0 then (px, e) else (proxy_conn_reset px, sys_close (px_fd px) (uncork_fd px e))))"

definition touch :: "u64 \<Rightarrow> http_conn \<Rightarrow> http_conn" where
  "touch now_ms hc = hc\<lparr>hc_last_active := now_ms, hc_deadline := now_ms + hc_send_timeout hc\<rparr>"

definition arm_fixed :: "byte list \<Rightarrow> u16 \<Rightarrow> u64 \<Rightarrow> http_conn \<Rightarrow> http_conn" where
  "arm_fixed resp status now_ms hc = hc\<lparr>hc_fixed := resp, hc_fixed_off := 0, hc_phase := PHASE_WRITE_FIXED,
     hc_deadline := now_ms + hc_send_timeout hc, hc_keep := False, hc_status := status\<rparr>"

definition proxy_fail :: "u64 \<Rightarrow> 'a pump \<Rightarrow> http_io \<times> 'a pump" where
  "proxy_fail now_ms = (\<lambda>(hc, px, e).
     (case proxy_close (px, e) of (px', e') \<Rightarrow>
        if PX_RESP_SENT \<in> px_flags px then (IO_CLOSE, hc, px', e')
        else (IO_WANT_WRITE, arm_fixed RESP_502 502 now_ms hc, px', e')))"

definition proxy_close_all :: "'a pump \<Rightarrow> http_io \<times> 'a pump" where
  "proxy_close_all = (\<lambda>(hc, s). (IO_CLOSE, hc, proxy_close s))"

definition proxy_can_pool :: "proxy_conn \<Rightarrow> bool" where
  "proxy_can_pool px =
     (if px_fd px < 0 \<or> px_up_addr px = [] then False
      else if PX_UP_CLOSE \<in> px_flags px \<or> PX_OVERREAD \<in> px_flags px \<or> PX_RESP_EOF \<in> px_flags px then False
      else PX_BODY_DONE \<in> px_flags px)"

definition proxy_release :: "proxy_conn \<times> 'a proxy_env_scheme \<Rightarrow> proxy_conn \<times> 'a proxy_env_scheme" where
  "proxy_release = (\<lambda>(px, e).
     (case proxy_pool_put (px_fd px) (px_up_addr px) (uncork_fd px e) of
        (stored, e') \<Rightarrow> (proxy_conn_reset px, if stored then e' else sys_close (px_fd px) e')))"

definition cork_up :: "bool \<Rightarrow> proxy_conn \<times> 'a proxy_env_scheme \<Rightarrow> proxy_conn \<times> 'a proxy_env_scheme" where
  "cork_up on = (\<lambda>(px, e).
     (if px_fd px < 0 then (px, e)
      else if \<not> on \<and> PX_CORK \<notin> px_flags px then (px, e)
      else
        (case sys_sockopt e of
           (False, e') \<Rightarrow> (px, e')
         | (True, e') \<Rightarrow>
             (px\<lparr>px_flags := if on then insert PX_CORK (px_flags px) else px_flags px - {PX_CORK}\<rparr>, e'))))"

definition body_pending :: "proxy_conn \<Rightarrow> bool" where
  "body_pending px = (px_body_off px < px_body_end px \<or> px_body_left px > 0)"

definition proxy_reopen :: "proxy_conn \<times> 'a proxy_env_scheme \<Rightarrow> bool \<times> proxy_conn \<times> 'a proxy_env_scheme" where
  "proxy_reopen = (\<lambda>(px, e).
     (let e = (if px_fd px \<ge> 0 then sys_close (px_fd px) (uncork_fd px e) else e);
          px = px\<lparr>px_fd := - 1, px_in_epoll := False, px_armed := IO_DONE,
            px_flags := px_flags px - {PX_CORK, PX_REUSED}, px_hdr_off := 0\<rparr>
      in case sys_socket e of
           (fd, e) \<Rightarrow>
             (if fd < 0 then (False, px, e)
              else
                (case (if body_pending px then cork_up True (px\<lparr>px_fd := fd\<rparr>, e) else (px\<lparr>px_fd := fd\<rparr>, e)) of
                   (px, e) \<Rightarrow> (case sys_connect e of (ok, e) \<Rightarrow> (ok, px, e))))))"

text \<open>\<open>1\<close>: resent, \<open>0\<close>: not eligible, \<open>- 1\<close>: the new connection failed.\<close>

definition proxy_retry_idle :: "'a pump \<Rightarrow> int \<times> 'a pump" where
  "proxy_retry_idle = (\<lambda>(hc, px, e).
     (if PX_REUSED \<notin> px_flags px \<or> PX_RESP_SENT \<in> px_flags px \<or> px_buf px \<noteq> [] then (0, hc, px, e)
      else if req_method (hc_req hc) \<noteq> METHOD_GET \<and> req_method (hc_req hc) \<noteq> METHOD_HEAD then (0, hc, px, e)
      else
        (case proxy_reopen (px, e) of
           (False, px, e) \<Rightarrow> (- 1, hc, px, e)
         | (True, px, e) \<Rightarrow> (1, hc, px\<lparr>px_buf_off := 0, px_buf := [], px_phase := PX_SEND_REQ\<rparr>, e))))"

definition cork_client :: "bool \<Rightarrow> http_conn \<times> 'a proxy_env_scheme \<Rightarrow> http_conn \<times> 'a proxy_env_scheme" where
  "cork_client on = (\<lambda>(hc, e).
     (if hc_fd hc < 0 then (hc, e)
      else if on \<and> hc_cork_on hc then (hc, e)
      else if \<not> on \<and> \<not> hc_cork_on hc then (hc, e)
      else (case sys_sockopt e of (False, e') \<Rightarrow> (hc, e') | (True, e') \<Rightarrow> (hc\<lparr>hc_cork_on := on\<rparr>, e'))))"

definition proxy_done :: "'a pump \<Rightarrow> http_io \<times> 'a pump" where
  "proxy_done = (\<lambda>(hc, px, e).
     (case cork_client False (hc, e) of (hc, e) \<Rightarrow>
      case (if proxy_can_pool px then proxy_release (px, e) else proxy_close (px, e)) of (px', e) \<Rightarrow>
        (IO_DONE, hc\<lparr>hc_keep := (PX_CLIENT_KEEP \<in> px_flags px),
           hc_status := if px_status px \<noteq> 0 then px_status px else 200\<rparr>, px', e)))"

section \<open>Waiting\<close>

definition arm_up :: "http_io \<Rightarrow> proxy_conn \<times> 'a proxy_env_scheme \<Rightarrow> bool \<times> proxy_conn \<times> 'a proxy_env_scheme" where
  "arm_up io = (\<lambda>(px, e).
     (if px_fd px < 0 then (False, px, e)
      else if px_in_epoll px \<and> px_armed px = io then (True, px, e)
      else
        (case sys_epoll e of
           (False, e) \<Rightarrow> (False, px, e)
         | (True, e) \<Rightarrow> (True, px\<lparr>px_in_epoll := True, px_armed := io\<rparr>, e))))"

text \<open>\<open>None\<close> is the \<open>-1\<close> of \<open>yield_up\<close>.\<close>

definition yield_up ::
  "http_io \<Rightarrow> http_io \<Rightarrow> proxy_conn \<times> 'a proxy_env_scheme \<Rightarrow> http_io option \<times> proxy_conn \<times> 'a proxy_env_scheme" where
  "yield_up up_io client_io s =
     (case arm_up up_io s of
        (False, px, e) \<Rightarrow> (None, px, e)
      | (True, px, e) \<Rightarrow> (Some (if PX_SEND_100 \<in> px_flags px then IO_WANT_WRITE else client_io), px, e))"

text \<open>The two lines after each call: \<open>return y < 0 ? proxy_fail(...) : y\<close>.\<close>

definition yield_or_fail :: "http_io \<Rightarrow> http_io \<Rightarrow> u64 \<Rightarrow> 'a pump \<Rightarrow> http_io \<times> 'a pump" where
  "yield_or_fail up_io client_io now_ms = (\<lambda>(hc, px, e).
     (case yield_up up_io client_io (px, e) of
        (None, px, e) \<Rightarrow> proxy_fail now_ms (hc, px, e)
      | (Some io, px, e) \<Rightarrow> (io, hc, px, e)))"

section \<open>Reading and writing\<close>

datatype sock_result = SR_Retry | SR_Ok bool bool | SR_Err

text \<open>\<open>sock_read\<close> into a buffer of \<open>cap\<close> bytes; \<open>SR_Ok again eof\<close>.\<close>

definition sock_read ::
  "int \<Rightarrow> byte list \<Rightarrow> nat \<Rightarrow> 'a kernel_scheme \<Rightarrow> sock_result \<times> byte list \<times> 'a kernel_scheme" where
  "sock_read fd buf cap k =
     (if length buf \<ge> cap then (SR_Ok False False, buf, k)
      else
        (case sys_read fd (cap - length buf) k of
           (Rd bs, k') \<Rightarrow> (SR_Ok False False, buf @ bs, k')
         | (Rd_Eof, k') \<Rightarrow> (SR_Ok False True, buf, k')
         | (Rd_Intr, k') \<Rightarrow> (SR_Retry, buf, k')
         | (Rd_Again, k') \<Rightarrow> (SR_Ok True False, buf, k')
         | (Rd_Err, k') \<Rightarrow> (SR_Err, buf, k')))"

text \<open>The inner loop of the body upload: again after \<open>EINTR\<close>.\<close>

lemma sys_read_progress:
  "sys_read fd cap k = (Rd_Intr, k') \<Longrightarrow> length (k_reads k' fd) < length (k_reads k fd)"
  by (auto simp: sys_read_def split: list.splits read_answer.splits if_splits)

lemma sock_read_retry:
  "sock_read fd buf cap k = (SR_Retry, buf', k') \<Longrightarrow> buf' = buf \<and> length (k_reads k' fd) < length (k_reads k fd)"
  by (auto simp: sock_read_def sys_read_progress split: prod.splits read_answer.splits if_splits)

function read_retry ::
  "int \<Rightarrow> byte list \<Rightarrow> nat \<Rightarrow> 'a kernel_scheme \<Rightarrow> sock_result \<times> byte list \<times> 'a kernel_scheme" where
  "read_retry fd buf cap k =
     (case sock_read fd buf cap k of
        (SR_Retry, buf', k') \<Rightarrow> read_retry fd buf' cap k'
      | r \<Rightarrow> r)"
  by pat_completeness auto
termination
  by (relation "measure (\<lambda>(fd, _, _, k). length (k_reads k fd))") (auto dest: sock_read_retry [OF sym])

declare read_retry.simps [simp del, evals]

text \<open>\<open>sendmsg\<close>, again after \<open>EINTR\<close>.\<close>

function sendmsg_retry :: "int \<Rightarrow> byte list \<Rightarrow> 'a kernel_scheme \<Rightarrow> write_answer \<times> 'a kernel_scheme" where
  "sendmsg_retry fd data k =
     (case sys_send fd data k of
        (Wr_Intr, k') \<Rightarrow> sendmsg_retry fd data k'
      | r \<Rightarrow> r)"
  by pat_completeness auto
termination
  by (relation "measure (\<lambda>(fd, _, k). length (k_writes k fd))") (auto dest: sys_send_progress [OF sym])

declare sendmsg_retry.simps [simp del, evals]

text \<open>The result is how the call ended: \<open>Send_Again\<close> for \<open>*again\<close>, \<open>Send_Dead\<close> for \<open>*dead\<close>.\<close>

definition send_gathered :: "'a pump \<Rightarrow> send_end \<times> proxy_conn \<times> 'a proxy_env_scheme" where
  "send_gathered = (\<lambda>(hc, px, e).
     (let hdr = drop (px_hdr_off px) (px_hdr px); buf = drop (px_buf_off px) (px_buf px)
      in if hdr = [] \<and> buf = [] then (Send_All, px, e)
         else
           (case sendmsg_retry (hc_fd hc) (hdr @ buf) e of
              (Wr n, e') \<Rightarrow>
                (if n = 0 then (Send_Dead, px, e')
                 else if n < length hdr then (Send_All, px\<lparr>px_hdr_off := px_hdr_off px + n\<rparr>, e')
                 else (Send_All, px\<lparr>px_hdr_off := px_hdr_off px + length hdr,
                        px_buf_off := px_buf_off px + (n - length hdr)\<rparr>, e'))
            | (Wr_Again, e') \<Rightarrow> (Send_Again, px, e')
            | (_, e') \<Rightarrow> (Send_Dead, px, e'))))"

text \<open>\<open>Send_Again\<close>: 1, \<open>Send_All\<close>: 0, \<open>Send_Dead\<close>: -1.\<close>

definition flush_100 :: "'a pump \<Rightarrow> send_end \<times> proxy_conn \<times> 'a proxy_env_scheme" where
  "flush_100 = (\<lambda>(hc, px, e).
     (if PX_SEND_100 \<notin> px_flags px then (Send_All, px, e)
      else
        (case send_loop (hc_fd hc) CONT_100 (px_cont_off px) e of
           (Send_All, off, e) \<Rightarrow> (Send_All, px\<lparr>px_cont_off := off, px_flags := px_flags px - {PX_SEND_100}\<rparr>, e)
         | (r, off, e) \<Rightarrow> (r, px\<lparr>px_cont_off := off\<rparr>, e))))"

section \<open>One round\<close>

text \<open>
  A round returns from \<open>proxy_pump\<close> (\<open>Inl\<close>), or it ends in a \<open>break\<close> of the switch (\<open>Inr\<close>), with the
  budget that is left.
\<close>

type_synonym 'a round = "(http_io \<times> 'a pump) + (nat \<times> 'a pump)"

text \<open>\<open>if (off != before) { touch(...); budget--; }\<close>\<close>

definition progressed :: "bool \<Rightarrow> u64 \<Rightarrow> nat \<Rightarrow> http_conn \<Rightarrow> nat \<times> http_conn" where
  "progressed moved now_ms budget hc = (if moved then (budget - 1, touch now_ms hc) else (budget, hc))"

text \<open>The budget is used up: whoever has to move next is armed.\<close>

definition pump_budget_out :: "u64 \<Rightarrow> 'a pump \<Rightarrow> http_io \<times> 'a pump" where
  "pump_budget_out now_ms = (\<lambda>(hc, px, e).
     (let buffered = px_buf_off px < length (px_buf px) in
      if px_phase px = PX_SEND_REQ
         \<or> (px_phase px = PX_SEND_BODY \<and> (buffered \<or> px_body_off px < px_body_end px))
      then yield_or_fail IO_WANT_WRITE IO_IDLE now_ms (hc, px, e)
      else if px_phase px = PX_SEND_BODY \<and> px_body_left px > 0
      then yield_or_fail IO_IDLE IO_WANT_READ now_ms (hc, px, e)
      else if px_phase px = PX_RECV_HDR
         \<or> (px_phase px = PX_STREAM \<and> \<not> buffered \<and> PX_BODY_DONE \<notin> px_flags px)
      then yield_or_fail IO_WANT_READ IO_IDLE now_ms (hc, px, e)
      else if px_phase px = PX_SEND_RESP \<or> px_phase px = PX_STREAM
      then yield_or_fail IO_IDLE IO_WANT_WRITE now_ms (hc, px, e)
      else proxy_fail now_ms (hc, px, e)))"

text \<open>The upload is over, or there is none.\<close>

definition start_recv :: "proxy_conn \<times> 'a proxy_env_scheme \<Rightarrow> proxy_conn \<times> 'a proxy_env_scheme" where
  "start_recv s =
     (case cork_up False s of (px, e) \<Rightarrow> (px\<lparr>px_buf_off := 0, px_buf := [], px_phase := PX_RECV_HDR\<rparr>, e))"

definition pump_send_req :: "u64 \<Rightarrow> nat \<Rightarrow> 'a pump \<Rightarrow> 'a round" where
  "pump_send_req now_ms budget = (\<lambda>(hc, px, e).
     (let next = (\<lambda>budget hc px e.
            if body_pending px then Inr (budget, hc, px\<lparr>px_phase := PX_SEND_BODY\<rparr>, e)
            else Inr (budget, hc, start_recv (px, e)))
      in if px_hdr_off px < length (px_hdr px) then
           (case send_loop (px_fd px) (px_hdr px) (px_hdr_off px) e of
              (r, off, e) \<Rightarrow>
                (if r = Send_Dead then
                   (if PX_REUSED \<in> px_flags px \<and> off = 0 then
                      (case proxy_reopen (px\<lparr>px_hdr_off := off\<rparr>, e) of
                         (True, px, e) \<Rightarrow> Inr (budget, hc, px, e)
                       | (False, px, e) \<Rightarrow> Inl (proxy_fail now_ms (hc, px, e)))
                    else Inl (proxy_fail now_ms (hc, px\<lparr>px_hdr_off := off\<rparr>, e)))
                 else
                   (case progressed (off \<noteq> px_hdr_off px) now_ms budget hc of
                      (budget, hc) \<Rightarrow>
                        (let px = px\<lparr>px_hdr_off := off\<rparr>
                         in if r = Send_Again \<or> off < length (px_hdr px)
                            then Inl (yield_or_fail IO_WANT_WRITE IO_IDLE now_ms (hc, px, e))
                            else next budget hc px e))))
         else next budget hc px e))"

definition pump_send_body :: "u64 \<Rightarrow> nat \<Rightarrow> 'a pump \<Rightarrow> 'a round" where
  "pump_send_body now_ms budget = (\<lambda>(hc, px, e).
     (if px_buf_off px < length (px_buf px) then
        (case send_loop (px_fd px) (px_buf px) (px_buf_off px) e of
           (r, off, e) \<Rightarrow>
             (if r = Send_Dead then Inl (proxy_fail now_ms (hc, px\<lparr>px_buf_off := off\<rparr>, e))
              else
                (case progressed (off \<noteq> px_buf_off px) now_ms budget hc of
                   (budget, hc) \<Rightarrow>
                     (if r = Send_Again
                      then Inl (yield_or_fail IO_WANT_WRITE IO_IDLE now_ms (hc, px\<lparr>px_buf_off := off\<rparr>, e))
                      else Inr (budget, hc, px\<lparr>px_buf_off := 0, px_buf := []\<rparr>, e)))))
      else if px_body_off px < px_body_end px then
        (case send_loop (px_fd px) (take (px_body_end px) (hc_buf hc)) (px_body_off px) e of
           (r, off, e) \<Rightarrow>
             (if r = Send_Dead then Inl (proxy_fail now_ms (hc, px\<lparr>px_body_off := off\<rparr>, e))
              else
                (case progressed (off \<noteq> px_body_off px) now_ms budget hc of
                   (budget, hc) \<Rightarrow>
                     (if r = Send_Again \<or> off < px_body_end px
                      then Inl (yield_or_fail IO_WANT_WRITE IO_IDLE now_ms (hc, px\<lparr>px_body_off := off\<rparr>, e))
                      else Inr (budget, hc, px\<lparr>px_body_off := off\<rparr>, e)))))
      else if px_body_left px > 0 then
        (case read_retry (hc_fd hc) [] (min PROXY_BUF_MAX (px_body_left px)) e of
           (r, buf, e) \<Rightarrow>
             (let px = px\<lparr>px_buf_off := 0, px_buf := buf\<rparr>; eof = (r = SR_Ok False True)
              in if r = SR_Err then Inl (proxy_close_all (hc, px, e))
                 else if buf = [] then
                   (if eof then Inl (proxy_close_all (hc, px, e))
                    else Inl (yield_or_fail IO_IDLE IO_WANT_READ now_ms (hc, px, e)))
                 else
                   (let px = px\<lparr>px_body_left := px_body_left px - length buf\<rparr>
                    in if eof \<and> px_body_left px > 0 then Inl (proxy_close_all (touch now_ms hc, px, e))
                       else Inr (budget - 1, touch now_ms hc, px, e))))
      else Inr (budget, hc, start_recv (px, e))))"

text \<open>A complete response head of \<open>at + 4\<close> bytes is at the front of the buffer.\<close>

definition pump_response :: "u64 \<Rightarrow> nat \<Rightarrow> nat \<Rightarrow> 'a pump \<Rightarrow> 'a round" where
  "pump_response now_ms at budget = (\<lambda>(hc, px, e).
     (let total = at + 4
      in case rewrite_response (hc_req hc) px (take total (px_buf px)) of
           None \<Rightarrow> Inl (proxy_fail now_ms (hc, px, e))
         | Some (info, px) \<Rightarrow>
             (let prefix = length (px_buf px) - total;
                  px = px\<lparr>px_buf := drop total (px_buf px), px_buf_off := 0\<rparr>
              in if info then Inr (budget, hc, px, e)
                 else if req_method (hc_req hc) = METHOD_HEAD \<or> PX_BODY_DONE \<in> px_flags px then
                   (let px = (if prefix > 0 then px\<lparr>px_flags := insert PX_OVERREAD (px_flags px)\<rparr> else px)
                    in Inr (budget, hc, px\<lparr>px_flags := insert PX_BODY_DONE (px_flags px), px_buf := [],
                         px_phase := PX_SEND_RESP\<rparr>, e))
                 else
                   (case (if prefix > 0 then note_body px prefix else Some px) of
                      None \<Rightarrow> Inl (proxy_fail now_ms (hc, px, e))
                    | Some px \<Rightarrow> Inr (budget, hc, px\<lparr>px_phase := PX_SEND_RESP\<rparr>, e)))))"

text \<open>After a failed read: a fresh connection if the old one was idle, otherwise an error.\<close>

definition retry_or_fail :: "u64 \<Rightarrow> nat \<Rightarrow> 'a pump \<Rightarrow> 'a round" where
  "retry_or_fail now_ms budget = (\<lambda>(hc, px, e).
     (case (if px_buf px = [] then proxy_retry_idle (hc, px, e) else (0, hc, px, e)) of
        (retry, s) \<Rightarrow> if retry > 0 then Inr (budget, s) else Inl (proxy_fail now_ms s)))"

definition pump_recv_hdr :: "u64 \<Rightarrow> nat \<Rightarrow> 'a pump \<Rightarrow> 'a round" where
  "pump_recv_hdr now_ms budget = (\<lambda>(hc, px, e).
     (case find_hdr_end (px_buf px) of
        Some at \<Rightarrow> pump_response now_ms at budget (hc, px, e)
      | None \<Rightarrow>
          (if length (px_buf px) \<ge> PROXY_BUF_MAX then Inl (proxy_fail now_ms (hc, px, e))
           else
             (case sock_read (px_fd px) (px_buf px) PROXY_BUF_MAX e of
                (SR_Retry, _, e) \<Rightarrow> Inr (budget, hc, px, e)
              | (SR_Err, _, e) \<Rightarrow> retry_or_fail now_ms budget (hc, px, e)
              | (SR_Ok again eof, buf, e) \<Rightarrow>
                  (if length buf = length (px_buf px) then
                     (if eof then retry_or_fail now_ms budget (hc, px, e)
                      else Inl (yield_or_fail IO_WANT_READ IO_IDLE now_ms (hc, px, e)))
                   else
                     (let hc = touch now_ms hc; px = px\<lparr>px_buf := buf\<rparr>
                      in case find_hdr_end buf of
                           Some at \<Rightarrow> pump_response now_ms at (budget - 1) (hc, px, e)
                         | None \<Rightarrow>
                             (if eof \<or> length buf \<ge> PROXY_BUF_MAX then Inl (proxy_fail now_ms (hc, px, e))
                              else Inr (budget - 1, hc, px, e))))))))"

definition mark_sent :: "bool \<Rightarrow> proxy_conn \<Rightarrow> proxy_conn" where
  "mark_sent moved px = (if moved then px\<lparr>px_flags := insert PX_RESP_SENT (px_flags px)\<rparr> else px)"

definition dead_client :: "u64 \<Rightarrow> 'a pump \<Rightarrow> http_io \<times> 'a pump" where
  "dead_client now_ms = (\<lambda>(hc, px, e).
     (if PX_RESP_SENT \<in> px_flags px then proxy_close_all (hc, px, e) else proxy_fail now_ms (hc, px, e)))"

definition pump_send_resp :: "u64 \<Rightarrow> nat \<Rightarrow> 'a pump \<Rightarrow> 'a round" where
  "pump_send_resp now_ms budget = (\<lambda>(hc, px, e).
     (if PX_BODY_DONE \<in> px_flags px then
        (case send_gathered (hc, px, e) of
           (r, px', e) \<Rightarrow>
             (let moved = (px_hdr_off px' \<noteq> px_hdr_off px \<or> px_buf_off px' \<noteq> px_buf_off px);
                  px = mark_sent moved px'
              in if r = Send_Dead then Inl (dead_client now_ms (hc, px, e))
                 else
                   (case progressed moved now_ms budget hc of
                      (budget, hc) \<Rightarrow>
                        (if px_hdr_off px < length (px_hdr px) \<or> px_buf_off px < length (px_buf px) then
                           (if r = Send_Again then Inl (IO_WANT_WRITE, hc, px, e) else Inr (budget, hc, px, e))
                         else Inl (proxy_done (hc, px, e))))))
      else
        (case cork_client True (hc, e) of
           (hc, e) \<Rightarrow>
             (let next = (\<lambda>budget hc px e.
                    if PX_BODY_DONE \<in> px_flags px \<and> px_buf_off px \<ge> length (px_buf px)
                    then Inl (proxy_done (hc, px, e))
                    else Inr (budget, hc, px\<lparr>px_phase := PX_STREAM\<rparr>, e))
              in if px_hdr_off px < length (px_hdr px) then
                   (case send_loop (hc_fd hc) (px_hdr px) (px_hdr_off px) e of
                      (r, off, e) \<Rightarrow>
                        (let moved = (off \<noteq> px_hdr_off px); px = mark_sent moved (px\<lparr>px_hdr_off := off\<rparr>)
                         in if r = Send_Dead then Inl (dead_client now_ms (hc, px, e))
                            else
                              (case progressed moved now_ms budget hc of
                                 (budget, hc) \<Rightarrow>
                                   (if r = Send_Again \<or> off < length (px_hdr px)
                                    then Inl (yield_or_fail IO_IDLE IO_WANT_WRITE now_ms (hc, px, e))
                                    else next budget hc px e))))
                 else next budget hc px e))))"

definition pump_stream :: "u64 \<Rightarrow> nat \<Rightarrow> 'a pump \<Rightarrow> 'a round" where
  "pump_stream now_ms budget = (\<lambda>(hc, px, e).
     (if px_buf_off px < length (px_buf px) then
        (case send_loop (hc_fd hc) (px_buf px) (px_buf_off px) e of
           (r, off, e) \<Rightarrow>
             (if r = Send_Dead then Inl (proxy_close_all (hc, px\<lparr>px_buf_off := off\<rparr>, e))
              else
                (let moved = (off \<noteq> px_buf_off px); px = mark_sent moved (px\<lparr>px_buf_off := off\<rparr>)
                 in case progressed moved now_ms budget hc of
                      (budget, hc) \<Rightarrow>
                        (if r = Send_Again \<or> off < length (px_buf px)
                         then Inl (yield_or_fail IO_IDLE IO_WANT_WRITE now_ms (hc, px, e))
                         else
                           (let px = px\<lparr>px_buf_off := 0, px_buf := []\<rparr>
                            in if PX_BODY_DONE \<in> px_flags px then Inl (proxy_done (hc, px, e))
                               else Inr (budget, hc, px, e))))))
      else if PX_BODY_DONE \<in> px_flags px then Inl (proxy_done (hc, px, e))
      else
        (let cap = (if PX_RESP_CL \<in> px_flags px \<and> unat (px_resp_left px) < PROXY_BUF_MAX
                    then unat (px_resp_left px) else PROXY_BUF_MAX)
         in if cap = 0 then Inl (proxy_done (hc, px\<lparr>px_flags := insert PX_BODY_DONE (px_flags px)\<rparr>, e))
            else
              (case sock_read (px_fd px) [] cap e of
                 (SR_Retry, _, e) \<Rightarrow> Inr (budget, hc, px\<lparr>px_buf_off := 0, px_buf := []\<rparr>, e)
               | (SR_Err, _, e) \<Rightarrow> Inl (proxy_close_all (hc, px, e))
               | (SR_Ok again eof, buf, e) \<Rightarrow>
                   (let px = px\<lparr>px_buf_off := 0, px_buf := buf\<rparr>
                    in if buf = [] then
                         (if eof \<and> PX_RESP_EOF \<in> px_flags px then Inl (proxy_done (hc, px, e))
                          else if eof then Inl (proxy_close_all (hc, px, e))
                          else Inl (yield_or_fail IO_WANT_READ IO_IDLE now_ms (hc, px, e)))
                       else
                         (case note_body px (length buf) of
                            None \<Rightarrow> Inl (proxy_close_all (hc, px, e))
                          | Some px \<Rightarrow> Inr (budget - 1, touch now_ms hc, px, e)))))))"

definition pump_phase :: "u64 \<Rightarrow> nat \<Rightarrow> 'a pump \<Rightarrow> 'a round" where
  "pump_phase now_ms budget = (\<lambda>(hc, px, e).
     (case px_phase px of
        PX_SEND_REQ \<Rightarrow> pump_send_req now_ms budget (hc, px, e)
      | PX_SEND_BODY \<Rightarrow> pump_send_body now_ms budget (hc, px, e)
      | PX_RECV_HDR \<Rightarrow> pump_recv_hdr now_ms budget (hc, px, e)
      | PX_SEND_RESP \<Rightarrow> pump_send_resp now_ms budget (hc, px, e)
      | PX_STREAM \<Rightarrow> pump_stream now_ms budget (hc, px, e)
      | PX_NONE \<Rightarrow> Inl (proxy_fail now_ms (hc, px, e))))"

definition pump_round :: "u64 \<Rightarrow> nat \<Rightarrow> 'a pump \<Rightarrow> 'a round" where
  "pump_round now_ms budget = (\<lambda>(hc, px, e).
     (case flush_100 (hc, px, e) of
        (Send_Dead, px, e) \<Rightarrow> Inl (proxy_close_all (hc, px, e))
      | (Send_Again, px, e) \<Rightarrow> Inl (IO_WANT_WRITE, hc, px, e)
      | (Send_All, px, e) \<Rightarrow>
          (if budget = 0 then Inl (pump_budget_out now_ms (hc, px, e))
           else pump_phase now_ms budget (hc, px, e))))"

section \<open>The loop ends\<close>

lemma send_loop_only: "send_loop fd data off k = (r, off', k') \<Longrightarrow> only_sends fd k k'"
proof (cases "off \<le> length data")
  case True
  then show "send_loop fd data off k = (r, off', k') \<Longrightarrow> only_sends fd k k'" using send_loop_exact by blast
next
  case False
  then show "send_loop fd data off k = (r, off', k') \<Longrightarrow> only_sends fd k k'" by (simp add: send_loop.simps)
qed

lemma send_loop_reads: "send_loop fd data off k = (r, off', k') \<Longrightarrow> k_reads k' = k_reads k"
  by (drule send_loop_only) (simp add: only_sends_def)

text \<open>
  What decreases from round to round: a reused connection is given up only once; otherwise a round
  that moves data costs budget; otherwise the phase advances; otherwise a read was interrupted, and
  the script of answers is shorter; otherwise an informational response was dropped from the buffer.
\<close>

fun phase_rank :: "px_phase \<Rightarrow> nat" where
  "phase_rank PX_SEND_REQ = 5"
| "phase_rank PX_SEND_BODY = 4"
| "phase_rank PX_RECV_HDR = 3"
| "phase_rank PX_SEND_RESP = 2"
| "phase_rank PX_STREAM = 1"
| "phase_rank PX_NONE = 0"

fun pump_rank :: "nat \<times> 'a pump \<Rightarrow> nat \<times> nat \<times> nat \<times> nat \<times> nat" where
  "pump_rank (budget, hc, px, e) =
     (if PX_REUSED \<in> px_flags px then 1 else 0, budget, phase_rank (px_phase px),
      length (k_reads e (px_fd px)), length (px_buf px))"

definition rank_order :: "((nat \<times> nat \<times> nat \<times> nat \<times> nat) \<times> (nat \<times> nat \<times> nat \<times> nat \<times> nat)) set" where
  "rank_order = less_than <*lex*> less_than <*lex*> less_than <*lex*> less_than <*lex*> less_than"

lemma wf_rank_order: "wf rank_order"
  by (auto simp: rank_order_def)

lemma rank_reused:
  "PX_REUSED \<in> px_flags px \<Longrightarrow> PX_REUSED \<notin> px_flags px' \<Longrightarrow> (pump_rank (b', hc', px', e'), pump_rank (b, hc, px, e)) \<in> rank_order"
  by (simp add: rank_order_def)

lemma rank_budget:
  "PX_REUSED \<in> px_flags px' \<Longrightarrow> PX_REUSED \<in> px_flags px \<Longrightarrow> b' < b \<Longrightarrow>
    (pump_rank (b', hc', px', e'), pump_rank (b, hc, px, e)) \<in> rank_order"
  "PX_REUSED \<notin> px_flags px' \<Longrightarrow> b' < b \<Longrightarrow>
    (pump_rank (b', hc', px', e'), pump_rank (b, hc, px, e)) \<in> rank_order"
  by (auto simp: rank_order_def)

text \<open>The flag of a reused connection is set by \<open>proxy_begin\<close> only.\<close>

lemma cork_up_keeps: "cork_up on (px, e) = (px', e') \<Longrightarrow>
    (\<forall>f. f \<noteq> PX_CORK \<longrightarrow> (f \<in> px_flags px' \<longleftrightarrow> f \<in> px_flags px)) \<and> px_fd px' = px_fd px \<and> px_phase px' = px_phase px
    \<and> px_buf px' = px_buf px \<and> px_buf_off px' = px_buf_off px \<and> px_hdr px' = px_hdr px \<and> px_hdr_off px' = px_hdr_off px
    \<and> px_body_off px' = px_body_off px \<and> px_body_end px' = px_body_end px \<and> px_body_left px' = px_body_left px
    \<and> px_up_addr px' = px_up_addr px \<and> px_resp_left px' = px_resp_left px \<and> px_status px' = px_status px
    \<and> chunk_state px' = chunk_state px \<and> saw_digit px' = saw_digit px \<and> chunk_size px' = chunk_size px
    \<and> px_cont_off px' = px_cont_off px \<and> px_armed px' = px_armed px \<and> px_in_epoll px' = px_in_epoll px"
  by (auto simp: cork_up_def split: if_splits prod.splits bool.splits)

lemma reopen_flags: "proxy_reopen (px, e) = (ok, px', e') \<Longrightarrow> PX_REUSED \<notin> px_flags px'"
  by (auto simp: proxy_reopen_def Let_def split: if_splits prod.splits dest!: cork_up_keeps)

lemma chunk_byte_more: "chunk_byte px c = Inr px' \<Longrightarrow> chunk_conn.more px' = chunk_conn.more px"
  by (auto simp: chunk_byte_def split: ch_state.splits if_splits)

lemma chunk_data_more: "chunk_conn.more (chunk_data px n) = chunk_conn.more px"
  by (simp add: chunk_data_def Let_def)

lemma chunk_loop_more:
  "chunk_feed_loop px s i = (px', r) \<Longrightarrow> chunk_conn.more px' = chunk_conn.more px"
proof (induction "(length s, if chunk_state px = CH_DATA then 1 else 0 :: nat)" arbitrary: px s i
    rule: wf_induct_rule [OF wf_lex_prod [OF wf_less_than wf_less_than]])
  case 1
  show ?case
  proof (cases s)
    case (Cons c cs)
    show ?thesis
    proof (cases "chunk_state px = CH_DATA")
      case True
      define n where "n = min (length s) (unat (chunk_size px))"
      have run: "chunk_feed_loop (chunk_data px n) (drop n s) (i + n) = (px', r)"
        using "1.prems" chunk_loop_data [OF True] Cons by (simp add: n_def Let_def)
      have "n = 0 \<Longrightarrow> chunk_state (chunk_data px n) \<noteq> CH_DATA"
        using Cons by (auto simp: n_def chunk_data_def Let_def min_def unat_eq_0 split: if_splits)
      with 1 (1) [OF _ run] chunk_data_more [of px n] show ?thesis using Cons True by (cases "n = 0") auto
    next
      case False
      then show ?thesis using "1.prems" Cons 1(1) chunk_byte_more
        by (fastforce simp: chunk_loop_byte split: sum.splits)
    qed
  qed (use "1.prems" in simp)
qed

lemma chunk_feed_fields:
  assumes "chunk_feed px s = (px', r)"
  shows "px' = px\<lparr>chunk_state := chunk_state px', saw_digit := saw_digit px', chunk_size := chunk_size px'\<rparr>"
  using chunk_loop_more [of px s 0 px' r] assms by (simp add: chunk_feed_def)

lemma chunk_feed_more: "chunk_feed px s = (px', r) \<Longrightarrow> px_flags px' = px_flags px"
  by (drule chunk_feed_fields, erule ssubst) simp

lemma note_body_reused: "note_body px n = Some px' \<Longrightarrow> PX_REUSED \<in> px_flags px' \<longleftrightarrow> PX_REUSED \<in> px_flags px"
  by (auto simp: note_body_def Let_def split: if_splits prod.splits dest: chunk_feed_more)

lemma response_field_flags:
  "response_field name v px sc = Some (px', sc') \<Longrightarrow> f \<notin> {PX_RESP_CL, PX_RESP_CHUNKED} \<Longrightarrow>
    f \<in> px_flags px' \<longleftrightarrow> f \<in> px_flags px"
  by (auto simp: response_field_def split: if_splits option.splits)

lemma response_lines_flags:
  "response_lines s px sc = Some (px', sc') \<Longrightarrow> f \<notin> {PX_RESP_CL, PX_RESP_CHUNKED} \<Longrightarrow>
    f \<in> px_flags px' \<longleftrightarrow> f \<in> px_flags px"
proof (induction s px sc rule: response_lines.induct)
  case (1 s px sc)
  show ?case
  proof (cases "length s < 2 \<or> s ! 0 = CR \<and> s ! 1 = LF")
    case True
    then show ?thesis using "1.prems" by (subst (asm) response_lines.simps) (auto split: if_splits)
  next
    case False
    then obtain e px1 sc1 where line: "px_find_crlf s = Some e" "response_line s e px sc = Some (px1, sc1)"
      "response_lines (drop (e + 2) s) px1 sc1 = Some (px', sc')"
      using "1.prems" by (subst (asm) response_lines.simps) (auto split: if_splits option.splits)
    have "f \<in> px_flags px1 \<longleftrightarrow> f \<in> px_flags px"
      using line(2) response_field_flags [OF _ "1.prems"(2)] by (auto simp: response_line_def split: option.splits if_splits)
    moreover have "f \<in> px_flags px' \<longleftrightarrow> f \<in> px_flags px1"
      using "1.IH" [OF _ _ line(1,2) refl line(3) "1.prems"(2)] False by blast
    ultimately show ?thesis by simp
  qed
qed

lemma response_lines_reused:
  "response_lines s px sc = Some (px', sc') \<Longrightarrow> PX_REUSED \<in> px_flags px' \<longleftrightarrow> PX_REUSED \<in> px_flags px"
  by (rule response_lines_flags) simp_all

lemma rewrite_response_reused:
  "rewrite_response req px src = Some (info, px') \<Longrightarrow> PX_REUSED \<in> px_flags px' \<longleftrightarrow> PX_REUSED \<in> px_flags px"
  by (auto simp: rewrite_response_def response_connection_def response_framing_def response_reset_def Let_def
      split: option.splits if_splits dest!: response_lines_reused)

lemma start_recv_keeps:
  assumes "start_recv (px, e) = (px', e')"
  shows "f \<noteq> PX_CORK \<Longrightarrow> f \<in> px_flags px' \<longleftrightarrow> f \<in> px_flags px" "px_phase px' = PX_RECV_HDR"
proof -
  obtain px1 e1 where cork: "cork_up False (px, e) = (px1, e1)" by (cases "cork_up False (px, e)")
  then have px': "px' = px1\<lparr>px_buf_off := 0, px_buf := [], px_phase := PX_RECV_HDR\<rparr>"
    using assms by (simp add: start_recv_def)
  then show "px_phase px' = PX_RECV_HDR" by simp
  show "f \<in> px_flags px' \<longleftrightarrow> f \<in> px_flags px" if "f \<noteq> PX_CORK"
    using cork_up_keeps [OF cork] that unfolding px' by simp
qed

lemma rank_phase:
  "(PX_REUSED \<in> px_flags px' \<longleftrightarrow> PX_REUSED \<in> px_flags px) \<Longrightarrow> b' \<le> b \<Longrightarrow>
    phase_rank (px_phase px') < phase_rank (px_phase px) \<Longrightarrow>
    (pump_rank (b', hc', px', e'), pump_rank (b, hc, px, e)) \<in> rank_order"
  by (auto simp: rank_order_def)

lemma rank_budget':
  "(PX_REUSED \<in> px_flags px' \<longleftrightarrow> PX_REUSED \<in> px_flags px) \<Longrightarrow> b' < b \<Longrightarrow>
    (pump_rank (b', hc', px', e'), pump_rank (b, hc, px, e)) \<in> rank_order"
  by (auto simp: rank_order_def)

lemma progressed_budget: "progressed moved now b hc = (b', hc') \<Longrightarrow> b' \<le> b \<and> (moved \<longrightarrow> 0 < b \<longrightarrow> b' < b)"
  by (auto simp: progressed_def split: if_splits)

lemma pump_send_req_rank:
  assumes run: "pump_send_req now b (hc, px, e) = Inr (b', hc', px', e')" and "px_phase px = PX_SEND_REQ"
  shows "(pump_rank (b', hc', px', e'), pump_rank (b, hc, px, e)) \<in> rank_order"
proof -
  obtain r off e1 where send: "send_loop (px_fd px) (px_hdr px) (px_hdr_off px) e = (r, off, e1)"
    by (cases "send_loop (px_fd px) (px_hdr px) (px_hdr_off px) e")
  obtain b1 hc1 where prog: "progressed (off \<noteq> px_hdr_off px) now b hc = (b1, hc1)"
    by (cases "progressed (off \<noteq> px_hdr_off px) now b hc")
  note b1 = progressed_budget [OF prog]
  consider (reopen) px1 e1 where "PX_REUSED \<in> px_flags px" "proxy_reopen (px1, e1) = (True, px', e')"
    | (next_phase) px1 e1 where "b' \<le> b" "px_flags px1 = px_flags px" "px_phase px1 = px_phase px"
      "px' = px1\<lparr>px_phase := PX_SEND_BODY\<rparr> \<or> start_recv (px1, e1) = (px', e')"
  proof (cases "px_hdr_off px < length (px_hdr px)")
    case False
    then show thesis using run next_phase [of px e] by (auto simp: pump_send_req_def Let_def split: if_splits)
  next
    case True
    show thesis
    proof (cases "r = Send_Dead")
      case dead: True
      then show thesis using run True send reopen
        by (auto simp: pump_send_req_def Let_def split: if_splits prod.splits bool.splits)
    next
      case False
      then show thesis using run True send prog b1 next_phase [of "px\<lparr>px_hdr_off := off\<rparr>" e1]
        by (auto simp: pump_send_req_def Let_def split: if_splits)
    qed
  qed
  then show ?thesis
  proof cases
    case reopen
    then show ?thesis using reopen_flags by (blast intro: rank_reused)
  next
    case next_phase
    from next_phase(4) have "(PX_REUSED \<in> px_flags px' \<longleftrightarrow> PX_REUSED \<in> px_flags px)
        \<and> phase_rank (px_phase px') < phase_rank (px_phase px)"
    proof
      assume recv: "start_recv (px1, e1) = (px', e')"
      show ?thesis using start_recv_keeps(1) [OF recv, of PX_REUSED] start_recv_keeps(2) [OF recv] next_phase(2,3) assms(2) by simp
    qed (use next_phase assms(2) in simp)
    with next_phase(1) show ?thesis by (intro rank_phase) simp_all
  qed
qed

lemma start_recv_rank:
  assumes "start_recv (px, e) = (px', e')" and "px_phase px = PX_SEND_REQ \<or> px_phase px = PX_SEND_BODY"
  shows "(pump_rank (b, hc', px', e'), pump_rank (b, hc, px, e)) \<in> rank_order"
  using start_recv_keeps(1) [OF assms(1), of PX_REUSED] start_recv_keeps(2) [OF assms(1)] assms(2)
  by (intro rank_phase) auto

lemma pump_send_body_rank:
  assumes run: "pump_send_body now b (hc, px, e) = Inr (b', hc', px', e')" and phase: "px_phase px = PX_SEND_BODY" and "0 < b"
  shows "(pump_rank (b', hc', px', e'), pump_rank (b, hc, px, e)) \<in> rank_order"
proof -
  consider (buffered) "px_buf_off px < length (px_buf px)"
    | (body) "\<not> px_buf_off px < length (px_buf px)" "px_body_off px < px_body_end px"
    | (unread) "\<not> px_buf_off px < length (px_buf px)" "\<not> px_body_off px < px_body_end px" "0 < px_body_left px"
    | (over) "\<not> px_buf_off px < length (px_buf px)" "\<not> px_body_off px < px_body_end px" "\<not> 0 < px_body_left px"
    by blast
  then show ?thesis
  proof cases
    case buffered
    obtain r off e1 where send: "send_loop (px_fd px) (px_buf px) (px_buf_off px) e = (r, off, e1)"
      by (cases "send_loop (px_fd px) (px_buf px) (px_buf_off px) e")
    have r: "r = Send_All" using run buffered send
      by (cases r) (auto simp: pump_send_body_def split: if_splits prod.splits)
    with send_loop_exact [OF send] buffered have "off \<noteq> px_buf_off px" by auto
    then show ?thesis using run buffered send r assms(3)
      by (intro rank_budget') (auto simp: pump_send_body_def progressed_def)
  next
    case body
    obtain r off e1 where send: "send_loop (px_fd px) (take (px_body_end px) (hc_buf hc)) (px_body_off px) e = (r, off, e1)"
      by (cases "send_loop (px_fd px) (take (px_body_end px) (hc_buf hc)) (px_body_off px) e")
    have r: "r \<noteq> Send_Dead" "\<not> off < px_body_end px" using run body send
      by (auto simp: pump_send_body_def split: if_splits prod.splits)
    then show ?thesis using run body send assms(3)
      by (intro rank_budget') (auto simp: pump_send_body_def progressed_def split: if_splits)
  next
    case unread
    then show ?thesis using run assms(3)
      by (intro rank_budget') (auto simp: pump_send_body_def Let_def split: if_splits prod.splits)
  next
    case over
    then have "start_recv (px, e) = (px', e')" "b' = b" using run by (auto simp: pump_send_body_def)
    then show ?thesis using start_recv_rank phase by blast
  qed
qed

lemma find_hdr_end_bound: "find_hdr_end buf = Some at \<Longrightarrow> at + 4 \<le> length buf"
  by (auto simp: find_hdr_end_def find_Some_iff)

lemma pump_response_rank:
  assumes run: "pump_response now at b0 (hc0, px0, e0) = Inr (b', hc', px', e')"
    and phase: "px_phase px0 = PX_RECV_HDR" and at: "find_hdr_end (px_buf px0) = Some at"
  shows "e' = e0 \<and> b' = b0 \<and> (PX_REUSED \<in> px_flags px' \<longleftrightarrow> PX_REUSED \<in> px_flags px0)
    \<and> (px_phase px' = PX_SEND_RESP \<or> px_phase px' = PX_RECV_HDR \<and> length (px_buf px') < length (px_buf px0) \<and> px_fd px' = px_fd px0)"
proof -
  obtain info px1 where rw: "rewrite_response (hc_req hc0) px0 (take (at + 4) (px_buf px0)) = Some (info, px1)"
    using run by (cases "rewrite_response (hc_req hc0) px0 (take (at + 4) (px_buf px0))") (auto simp: pump_response_def)
  note reused = rewrite_response_reused [OF rw]
  show ?thesis
  proof (cases info)
    case True
    then have "px1 = px0" using rw by (auto simp: rewrite_response_def split: option.splits if_splits)
    then show ?thesis using run rw True phase find_hdr_end_bound [OF at] by (auto simp: pump_response_def Let_def)
  next
    case False
    let ?q = "px1\<lparr>px_buf := drop (at + 4) (px_buf px1), px_buf_off := 0\<rparr>"
    have note_keeps: "PX_REUSED \<in> px_flags q \<longleftrightarrow> PX_REUSED \<in> px_flags px1" if "note_body ?q n = Some q" for n q
      using note_body_reused [OF that] by simp
    show ?thesis
      using run rw False reused by (auto simp: pump_response_def Let_def note_keeps split: if_splits option.splits)
  qed
qed

lemma retry_rank:
  assumes "retry_or_fail now b0 (hc0, px0, e0) = Inr (b', hc', px', e')"
  shows "PX_REUSED \<in> px_flags px0 \<and> PX_REUSED \<notin> px_flags px'"
proof -
  have "\<exists>px1. proxy_reopen (px0, e0) = (True, px1, e') \<and> px_flags px' = px_flags px1 \<and> PX_REUSED \<in> px_flags px0"
    using assms by (auto simp: retry_or_fail_def proxy_retry_idle_def split: if_splits prod.splits bool.splits)
  then show ?thesis using reopen_flags by metis
qed

lemma sock_read_more: "sock_read fd buf cap k = (r, buf', k') \<Longrightarrow> length buf' \<noteq> length buf \<Longrightarrow> length buf < length buf'"
  by (auto simp: sock_read_def split: if_splits prod.splits read_answer.splits)

lemma pump_recv_hdr_rank:
  assumes run: "pump_recv_hdr now b (hc, px, e) = Inr (b', hc', px', e')" and phase: "px_phase px = PX_RECV_HDR" and "0 < b"
  shows "(pump_rank (b', hc', px', e'), pump_rank (b, hc, px, e)) \<in> rank_order"
proof (cases "find_hdr_end (px_buf px)")
  case (Some at)
  with run have "pump_response now at b (hc, px, e) = Inr (b', hc', px', e')" by (simp add: pump_recv_hdr_def)
  from pump_response_rank [OF this phase Some] phase show ?thesis by (auto simp: rank_order_def)
next
  case None
  obtain r buf e1 where read: "sock_read (px_fd px) (px_buf px) PROXY_BUF_MAX e = (r, buf, e1)"
    by (cases "sock_read (px_fd px) (px_buf px) PROXY_BUF_MAX e")
  have room: "length (px_buf px) < PROXY_BUF_MAX" using run None by (auto simp: pump_recv_hdr_def split: if_splits)
  have retried: "?thesis" if "retry_or_fail now b (hc, px, e1) = Inr (b', hc', px', e')"
    using retry_rank [OF that] by (blast intro: rank_reused)
  show ?thesis
  proof (cases r)
    case SR_Retry
    then show ?thesis using run None room read sock_read_retry [of "px_fd px" "px_buf px" PROXY_BUF_MAX e buf e1]
      by (auto simp: pump_recv_hdr_def rank_order_def)
  next
    case SR_Err
    then show ?thesis using run None room read retried by (simp add: pump_recv_hdr_def)
  next
    case (SR_Ok again eof)
    show ?thesis
    proof (cases "length buf = length (px_buf px)")
      case True
      then show ?thesis using run None room read SR_Ok retried by (simp add: pump_recv_hdr_def split: if_splits)
    next
      case False
      let ?px = "px\<lparr>px_buf := buf\<rparr>"
      show ?thesis
      proof (cases "find_hdr_end buf")
        case None2: None
        then show ?thesis using run None room read SR_Ok False assms(3)
          by (intro rank_budget') (auto simp: pump_recv_hdr_def Let_def split: if_splits)
      next
        case (Some at)
        then have "pump_response now at (b - 1) (touch now hc, ?px, e1) = Inr (b', hc', px', e')"
          using run None room read SR_Ok False by (simp add: pump_recv_hdr_def Let_def)
        from pump_response_rank [OF this] phase Some assms(3) show ?thesis by (intro rank_budget') auto
      qed
    qed
  qed
qed

lemma mark_sent_keeps [simp]:
  "PX_REUSED \<in> px_flags (mark_sent moved px) \<longleftrightarrow> PX_REUSED \<in> px_flags px"
  "px_phase (mark_sent moved px) = px_phase px" "px_fd (mark_sent moved px) = px_fd px"
  "px_buf (mark_sent moved px) = px_buf px" "px_buf_off (mark_sent moved px) = px_buf_off px"
  "px_hdr (mark_sent moved px) = px_hdr px" "px_hdr_off (mark_sent moved px) = px_hdr_off px"
  "PX_BODY_DONE \<in> px_flags (mark_sent moved px) \<longleftrightarrow> PX_BODY_DONE \<in> px_flags px"
  by (simp_all add: mark_sent_def)

lemma send_gathered_keeps:
  assumes "send_gathered (hc, px, e) = (r, px', e')"
  shows "px_flags px' = px_flags px \<and> px_phase px' = px_phase px \<and> px_buf px' = px_buf px \<and> px_hdr px' = px_hdr px
    \<and> (r = Send_All \<longrightarrow> px_hdr_off px < length (px_hdr px) \<or> px_buf_off px < length (px_buf px) \<longrightarrow>
        px_hdr_off px' \<noteq> px_hdr_off px \<or> px_buf_off px' \<noteq> px_buf_off px)"
  using assms by (auto simp: send_gathered_def Let_def split: if_splits prod.splits write_answer.splits)

lemma pump_send_resp_rank:
  assumes run: "pump_send_resp now b (hc, px, e) = Inr (b', hc', px', e')" and phase: "px_phase px = PX_SEND_RESP" and "0 < b"
  shows "(pump_rank (b', hc', px', e'), pump_rank (b, hc, px, e)) \<in> rank_order"
proof (cases "PX_BODY_DONE \<in> px_flags px")
  case True
  obtain r px1 e1 where send: "send_gathered (hc, px, e) = (r, px1, e1)" by (cases "send_gathered (hc, px, e)")
  note keeps = send_gathered_keeps [OF send]
  let ?moved = "px_hdr_off px1 \<noteq> px_hdr_off px \<or> px_buf_off px1 \<noteq> px_buf_off px"
  obtain b1 hc1 where prog: "progressed ?moved now b hc = (b1, hc1)" by (cases "progressed ?moved now b hc")
  have out: "px_hdr_off px1 < length (px_hdr px1) \<or> px_buf_off px1 < length (px_buf px1)" "r = Send_All"
    "b' = b1" "px' = mark_sent ?moved px1"
    using run True send prog by (cases r; auto simp: pump_send_resp_def Let_def split: if_splits)+
  have ?moved
  proof (rule ccontr)
    assume "\<not> ?moved"
    then show False using out(1,2) keeps by simp
  qed
  then have "b' < b" using progressed_budget [OF prog] assms(3) out(3) by simp
  then show ?thesis using keeps out(4) by (intro rank_budget') simp_all
next
  case False
  obtain hc0 e0 where cork: "cork_client True (hc, e) = (hc0, e0)" by (cases "cork_client True (hc, e)")
  obtain r off e1 where send: "send_loop (hc_fd hc0) (px_hdr px) (px_hdr_off px) e0 = (r, off, e1)"
    by (cases "send_loop (hc_fd hc0) (px_hdr px) (px_hdr_off px) e0")
  let ?moved = "off \<noteq> px_hdr_off px"
  obtain b1 hc1 where prog: "progressed ?moved now b hc0 = (b1, hc1)" by (cases "progressed ?moved now b hc0")
  have "b' \<le> b \<and> (PX_REUSED \<in> px_flags px' \<longleftrightarrow> PX_REUSED \<in> px_flags px) \<and> px_phase px' = PX_STREAM"
  proof (cases "px_hdr_off px < length (px_hdr px)")
    case True
    then show ?thesis using run False cork send prog progressed_budget [OF prog]
      by (auto simp: pump_send_resp_def Let_def split: if_splits)
  next
    case no_hdr: False
    then show ?thesis using run False cork by (auto simp: pump_send_resp_def Let_def split: if_splits)
  qed
  then show ?thesis using phase by (intro rank_phase) simp_all
qed

lemma pump_stream_rank:
  assumes run: "pump_stream now b (hc, px, e) = Inr (b', hc', px', e')" and phase: "px_phase px = PX_STREAM" and "0 < b"
  shows "(pump_rank (b', hc', px', e'), pump_rank (b, hc, px, e)) \<in> rank_order"
proof (cases "px_buf_off px < length (px_buf px)")
  case True
  obtain r off e1 where send: "send_loop (hc_fd hc) (px_buf px) (px_buf_off px) e = (r, off, e1)"
    by (cases "send_loop (hc_fd hc) (px_buf px) (px_buf_off px) e")
  have r: "r \<noteq> Send_Dead" "r \<noteq> Send_Again" using run True send
    by (auto simp: pump_stream_def Let_def split: if_splits prod.splits)
  then have "r = Send_All" by (cases r) auto
  with send_loop_exact [OF send] True have "off \<noteq> px_buf_off px" by auto
  then show ?thesis using run True send r assms(3)
    by (intro rank_budget') (auto simp: pump_stream_def Let_def progressed_def split: if_splits)
next
  case False
  define cap where "cap = (if PX_RESP_CL \<in> px_flags px \<and> unat (px_resp_left px) < PROXY_BUF_MAX
      then unat (px_resp_left px) else PROXY_BUF_MAX)"
  obtain r buf e1 where read: "sock_read (px_fd px) [] cap e = (r, buf, e1)" by (cases "sock_read (px_fd px) [] cap e")
  have c: "PX_BODY_DONE \<notin> px_flags px" "cap \<noteq> 0"
    using run False by (auto simp: pump_stream_def cap_def [symmetric] Let_def split: if_splits)
  show ?thesis
  proof (cases r)
    case SR_Retry
    then have "b' = b \<and> px' = px\<lparr>px_buf_off := 0, px_buf := []\<rparr> \<and> e' = e1"
      using run False c read by (auto simp: pump_stream_def cap_def [symmetric] Let_def)
    then show ?thesis using sock_read_retry [of "px_fd px" "[]" cap e buf e1] read SR_Retry
      by (auto simp: rank_order_def)
  next
    case SR_Err
    then show ?thesis using run False c read by (simp add: pump_stream_def cap_def [symmetric] Let_def)
  next
    case (SR_Ok again eof)
    let ?px = "px\<lparr>px_buf_off := 0, px_buf := buf\<rparr>"
    have "b' = b - 1 \<and> note_body ?px (length buf) = Some px'"
      using run False c read SR_Ok by (auto simp: pump_stream_def cap_def [symmetric] Let_def split: if_splits option.splits)
    with note_body_reused [of ?px "length buf" px'] assms(3) show ?thesis by (intro rank_budget') simp_all
  qed
qed

lemma flush_100_keeps:
  assumes "flush_100 (hc, px, e) = (r, px', e')"
  shows "k_reads e' = k_reads e \<and> px_fd px' = px_fd px \<and> px_phase px' = px_phase px \<and> px_buf px' = px_buf px
    \<and> (PX_REUSED \<in> px_flags px' \<longleftrightarrow> PX_REUSED \<in> px_flags px)"
proof (cases "PX_SEND_100 \<in> px_flags px")
  case False
  then show ?thesis using assms by (simp add: flush_100_def)
next
  case True
  obtain r1 off e1 where send: "send_loop (hc_fd hc) CONT_100 (px_cont_off px) e = (r1, off, e1)"
    by (cases "send_loop (hc_fd hc) CONT_100 (px_cont_off px) e")
  have "k_reads e1 = k_reads e" using send_loop_reads [OF send] .
  then show ?thesis using assms True send by (cases r1) (auto simp: flush_100_def)
qed

theorem pump_round_rank:
  assumes "pump_round now b s = Inr (b', s')"
  shows "(pump_rank (b', s'), pump_rank (b, s)) \<in> rank_order"
proof -
  obtain hc px e where s: "s = (hc, px, e)" by (cases s)
  obtain hc' px' e' where s': "s' = (hc', px', e')" by (cases s')
  obtain r px1 e1 where flush: "flush_100 (hc, px, e) = (r, px1, e1)" by (cases "flush_100 (hc, px, e)")
  have "0 < b" "pump_phase now b (hc, px1, e1) = Inr (b', s')"
    using assms flush unfolding s by (auto simp: pump_round_def split: send_end.splits if_splits)
  then have "(pump_rank (b', s'), pump_rank (b, hc, px1, e1)) \<in> rank_order"
    unfolding s' using pump_send_req_rank pump_send_body_rank pump_recv_hdr_rank pump_send_resp_rank pump_stream_rank
    by (cases "px_phase px1") (simp_all only: pump_phase_def prod.case px_phase.case sum.distinct)
  moreover have "pump_rank (b, hc, px1, e1) = pump_rank (b, s)"
    unfolding s using flush_100_keeps [OF flush] by simp
  ultimately show ?thesis by simp
qed

section \<open>\<open>proxy_pump\<close> and \<open>proxy_begin\<close>\<close>

function pump_loop :: "u64 \<Rightarrow> nat \<Rightarrow> 'a pump \<Rightarrow> http_io \<times> 'a pump" where
  "pump_loop now_ms budget s =
     (case pump_round now_ms budget s of
        Inl r \<Rightarrow> r
      | Inr (budget', s') \<Rightarrow> pump_loop now_ms budget' s')"
  by pat_completeness auto
termination
  by (relation "inv_image rank_order (\<lambda>(_, budget, s). pump_rank (budget, s))")
    (auto intro!: wf_inv_image wf_rank_order simp del: pump_rank.simps dest: pump_round_rank)

declare pump_loop.simps [simp del]

definition proxy_pump :: "u64 \<Rightarrow> 'a pump \<Rightarrow> http_io \<times> 'a pump" where
  "proxy_pump now_ms = (\<lambda>(hc, px, e).
     (if px_fd px < 0 then (IO_CLOSE, hc, px, e)
      else if now_ms \<ge> hc_deadline hc then proxy_close_all (hc, px, e)
      else pump_loop now_ms 16 (hc, px, e)))"

text \<open>The body bytes that came with the head, and those still to be read.\<close>

definition body_have :: "http_conn \<Rightarrow> nat" where
  "body_have hc =
     (let hdrs = unat (req_header_bytes (hc_req hc)); need = unat (req_content_length (hc_req hc))
      in if has_flag (hc_req hc) HTTP_FLAG_CONTENT_LENGTH \<and> length (hc_buf hc) > hdrs
         then min (length (hc_buf hc) - hdrs) need else 0)"

definition body_need :: "http_conn \<Rightarrow> nat" where
  "body_need hc =
     (if has_flag (hc_req hc) HTTP_FLAG_CONTENT_LENGTH then unat (req_content_length (hc_req hc)) else 0)"

text \<open>The socket for a request: an idle one, or a new one; \<open>False\<close> when there is none to be had.\<close>

definition take_or_socket :: "proxy_conn \<times> 'a proxy_env_scheme \<Rightarrow> bool \<times> proxy_conn \<times> 'a proxy_env_scheme" where
  "take_or_socket = (\<lambda>(px, e).
     (case proxy_pool_take (px_up_addr px) e of
        (fd, e) \<Rightarrow>
          (if fd \<ge> 0 then (True, px\<lparr>px_fd := fd, px_flags := insert PX_REUSED (px_flags px)\<rparr>, e)
           else (case sys_socket e of
                   (fd, e) \<Rightarrow> if fd < 0 then (False, px, e) else (True, px\<lparr>px_fd := fd\<rparr>, e)))))"

definition proxy_begin :: "byte list \<Rightarrow> u64 \<Rightarrow> 'a pump \<Rightarrow> http_io \<times> 'a pump" where
  "proxy_begin upstream now_ms = (\<lambda>(hc, px, e).
     (let req = hc_req hc in
      if req_method req \<noteq> METHOD_GET \<and> req_method req \<noteq> METHOD_HEAD \<and> req_method req \<noteq> METHOD_POST
      then (IO_WANT_WRITE, arm_fixed RESP_405 405 now_ms hc, px, e)
      else if req_method req = METHOD_POST \<and> \<not> has_flag req HTTP_FLAG_CONTENT_LENGTH
      then (IO_WANT_WRITE, arm_fixed RESP_411 411 now_ms hc, px, e)
      else
        (let hdrs = unat (req_header_bytes req);
             px = (proxy_conn_reset px)\<lparr>px_up_addr := upstream,
               px_flags := (if expects_continue (hc_buf hc) req then {PX_SEND_100} else {}),
               px_body_off := hdrs, px_body_end := hdrs + body_have hc, px_body_left := body_need hc - body_have hc\<rparr>
         in case rewrite_request (hc_buf hc) hdrs of
              None \<Rightarrow> (IO_WANT_WRITE, arm_fixed RESP_502 502 now_ms hc, px, e)
            | Some hdr \<Rightarrow>
                (case take_or_socket (px\<lparr>px_hdr := hdr\<rparr>, e) of
                   (False, px, e) \<Rightarrow> (IO_WANT_WRITE, arm_fixed RESP_502 502 now_ms hc, px, e)
                 | (True, px, e) \<Rightarrow>
                     (let px = px\<lparr>px_phase := PX_SEND_REQ\<rparr>
                      in case (if body_pending px then cork_up True (px, e) else (px, e)) of
                           (px, e) \<Rightarrow>
                             (case (if PX_REUSED \<in> px_flags px then (True, e) else sys_connect e) of
                                (False, e) \<Rightarrow> proxy_fail now_ms (hc, px, e)
                              | (True, e) \<Rightarrow>
                                  proxy_pump now_ms
                                    (hc\<lparr>hc_keep := False, hc_deadline := now_ms + hc_send_timeout hc\<rparr>, px, e)))))))"

end
