(* ===== verification/Proxy_Relay.thy ===== *)
theory Proxy_Relay
  imports Proxy_Pump
begin

text \<open>
  What passes through the proxy. A run of \<open>proxy_pump\<close> is seen as its rounds, over all calls, with
  whatever other connections do in between; the bytes still to come are counted on both sides.
\<close>

section \<open>Runs\<close>

text \<open>
  Other activity of the worker leaves the two sockets of a slot alone: what has been sent on them
  and what will be read from them. What their writes will answer may change.
\<close>

definition quiet :: "http_conn \<Rightarrow> proxy_conn \<Rightarrow> 'a proxy_env_scheme \<Rightarrow> 'a proxy_env_scheme \<Rightarrow> bool" where
  "quiet hc px e e' = (\<forall>fd \<in> {hc_fd hc, px_fd px}. k_sent e' fd = k_sent e fd \<and> k_reads e' fd = k_reads e fd)"

inductive pump_step :: "'a pump \<Rightarrow> 'a pump \<Rightarrow> bool" where
  round: "0 \<le> px_fd px \<Longrightarrow> pump_round now_ms budget (hc, px, e) = Inr (budget', s') \<Longrightarrow> pump_step (hc, px, e) s'"
| yield: "0 \<le> px_fd px \<Longrightarrow> pump_round now_ms budget (hc, px, e) = Inl (io, s') \<Longrightarrow> io \<noteq> IO_DONE \<Longrightarrow> io \<noteq> IO_CLOSE \<Longrightarrow>
    pump_step (hc, px, e) s'"
| others: "quiet hc px e e' \<Longrightarrow> pump_step (hc, px, e) (hc, px, e')"

text \<open>The connection stays open from round to round.\<close>

lemma reopen_open: "proxy_reopen (px, e) = (True, px', e') \<Longrightarrow> 0 \<le> px_fd px'"
  by (auto simp: proxy_reopen_def Let_def split: if_splits prod.splits dest!: cork_up_keeps)

lemma start_recv_fd: "start_recv (px, e) = (px', e') \<Longrightarrow> px_fd px' = px_fd px"
  by (auto simp: start_recv_def split: prod.splits dest: cork_up_keeps)

lemma retry_open: "retry_or_fail now b (hc, px, e) = Inr (b', hc', px', e') \<Longrightarrow> 0 \<le> px_fd px'"
  by (auto simp: retry_or_fail_def proxy_retry_idle_def split: if_splits prod.splits bool.splits dest!: reopen_open)

lemma note_body_keeps:
  assumes "note_body px n = Some px'"
  shows "px_fd px' = px_fd px \<and> px_phase px' = px_phase px \<and> px_hdr px' = px_hdr px \<and> px_hdr_off px' = px_hdr_off px
    \<and> px_buf_off px' = px_buf_off px"
proof -
  have feed: "px_fd q = px_fd px \<and> px_phase q = px_phase px \<and> px_hdr q = px_hdr px \<and> px_hdr_off q = px_hdr_off px
      \<and> px_buf_off q = px_buf_off px \<and> px_buf q = px_buf px"
    if "chunk_feed px s = (q, r)" for s q r by (subst (1 2 3 4 5 6) chunk_feed_fields [OF that]) simp
  show ?thesis using assms feed
    by (auto simp: note_body_def Let_def split: if_splits prod.splits)
qed

lemma response_field_keeps_px:
  "response_field name v px sc = Some (px', sc') \<Longrightarrow> px_fd px' = px_fd px \<and> px_phase px' = px_phase px \<and> px_buf px' = px_buf px"
  by (auto simp: response_field_def split: if_splits option.splits)

lemma response_lines_keeps_px:
  "response_lines s px sc = Some (px', sc') \<Longrightarrow> px_fd px' = px_fd px \<and> px_phase px' = px_phase px \<and> px_buf px' = px_buf px"
proof (induction s px sc rule: response_lines.induct)
  case (1 s px sc)
  show ?case
  proof (cases "length s < 2 \<or> s ! 0 = CR \<and> s ! 1 = LF")
    case True
    then show ?thesis using "1.prems" by (subst (asm) response_lines.simps) (auto split: if_splits)
  next
    case False
    then obtain e px1 sc1 where line: "px_find_crlf s = Some e" "response_line s e px sc = Some (px1, sc1)"
      "response_lines (drop (e + 2) s) px1 sc1 = Some (px', sc')"
      using "1.prems" by (subst (asm) response_lines.simps) (auto split: if_splits option.splits)
    have "px_fd px1 = px_fd px \<and> px_phase px1 = px_phase px \<and> px_buf px1 = px_buf px"
      using line(2) by (auto simp: response_line_def split: option.splits if_splits dest: response_field_keeps_px)
    then show ?thesis using "1.IH" [OF _ _ line(1,2) refl line(3)] False by simp
  qed
qed

lemma rewrite_response_cases:
  assumes "rewrite_response req px src = Some (info, px')"
  obtains "info" "px' = px"
  | rest code sc px1 sc' where "\<not> info" "response_lines rest (response_reset code px) sc = Some (px1, sc')"
    "PX_RESP_CL \<notin> px_flags px1 \<or> PX_RESP_CHUNKED \<notin> px_flags px1"
    "response_connection req (src ! 7 = 48) (response_framing code px1) sc' = Some px'"
  using assms by (auto simp: rewrite_response_def split: option.splits if_splits)

lemma response_framing_keeps [simp]:
  "px_fd (response_framing code px) = px_fd px" "px_phase (response_framing code px) = px_phase px"
  "px_buf (response_framing code px) = px_buf px" "px_resp_left (response_framing code px) = px_resp_left px"
  by (simp_all add: response_framing_def)

lemma response_connection_keeps:
  assumes "response_connection req http10 px sc = Some px'"
  shows "px_fd px' = px_fd px \<and> px_phase px' = px_phase px \<and> px_buf px' = px_buf px \<and> px_hdr_off px' = 0
    \<and> px_resp_left px' = px_resp_left px \<and> chunk_state px' = chunk_state px \<and> saw_digit px' = saw_digit px
    \<and> chunk_size px' = chunk_size px \<and> px_flags px' - {PX_UP_CLOSE, PX_CLIENT_KEEP} = px_flags px - {PX_UP_CLOSE, PX_CLIENT_KEEP}"
  using assms unfolding response_connection_def
  by (cases "http10 \<and> \<not> sc_up_ka sc \<or> sc_up_close sc"; cases "http_should_keepalive req")
    (auto simp: Let_def simp del: de_Morgan_conj de_Morgan_disj split: option.splits)

lemma rewrite_response_keeps:
  assumes "rewrite_response req px src = Some (info, px')"
  shows "px_fd px' = px_fd px \<and> px_phase px' = px_phase px \<and> px_buf px' = px_buf px"
  using assms
proof (rule rewrite_response_cases)
  fix rest code sc px1 sc'
  assume "response_lines rest (response_reset code px) sc = Some (px1, sc')"
    "response_connection req (src ! 7 = 48) (response_framing code px1) sc' = Some px'"
  then show ?thesis using response_lines_keeps_px [of rest "response_reset code px" sc px1 sc']
      response_connection_keeps [of req "src ! 7 = 48" "response_framing code px1" sc' px']
    by (simp add: response_reset_def)
qed simp

lemma pump_response_fd:
  assumes "pump_response now at b (hc, px, e) = Inr (b', hc', px', e')"
  shows "px_fd px' = px_fd px"
proof -
  obtain info px1 where rw: "rewrite_response (hc_req hc) px (take (at + 4) (px_buf px)) = Some (info, px1)"
    using assms by (cases "rewrite_response (hc_req hc) px (take (at + 4) (px_buf px))") (auto simp: pump_response_def)
  let ?q = "px1\<lparr>px_buf := drop (at + 4) (px_buf px1), px_buf_off := 0\<rparr>"
  have fd: "px_fd px1 = px_fd px" using rewrite_response_keeps [OF rw] by simp
  have note_fd: "px_fd q = px_fd px" if "note_body ?q n = Some q" for n q using note_body_keeps [OF that] fd by simp
  show ?thesis using assms rw fd note_fd by (auto simp: pump_response_def Let_def split: option.splits if_splits)
qed

lemma pump_send_req_open: "pump_send_req now b (hc, px, e) = Inr (b', hc', px', e') \<Longrightarrow> 0 \<le> px_fd px \<Longrightarrow> 0 \<le> px_fd px'"
  by (auto simp: pump_send_req_def Let_def split: if_splits prod.splits bool.splits dest!: start_recv_fd reopen_open)

lemma pump_send_body_open: "pump_send_body now b (hc, px, e) = Inr (b', hc', px', e') \<Longrightarrow> 0 \<le> px_fd px \<Longrightarrow> 0 \<le> px_fd px'"
  by (auto simp: pump_send_body_def Let_def split: if_splits prod.splits dest!: start_recv_fd)

lemma pump_recv_hdr_open: "pump_recv_hdr now b (hc, px, e) = Inr (b', hc', px', e') \<Longrightarrow> 0 \<le> px_fd px \<Longrightarrow> 0 \<le> px_fd px'"
  by (auto simp: pump_recv_hdr_def Let_def split: option.splits if_splits prod.splits sock_result.splits
      dest!: pump_response_fd retry_open)

lemma send_gathered_fd: "send_gathered (hc, px, e) = (r, px', e') \<Longrightarrow> px_fd px' = px_fd px"
  by (auto simp: send_gathered_def Let_def split: if_splits prod.splits write_answer.splits)

lemma pump_send_resp_open: "pump_send_resp now b (hc, px, e) = Inr (b', hc', px', e') \<Longrightarrow> 0 \<le> px_fd px \<Longrightarrow> 0 \<le> px_fd px'"
  by (auto simp: pump_send_resp_def Let_def split: if_splits prod.splits dest!: send_gathered_fd)

lemma pump_stream_open: "pump_stream now b (hc, px, e) = Inr (b', hc', px', e') \<Longrightarrow> 0 \<le> px_fd px \<Longrightarrow> 0 \<le> px_fd px'"
  by (auto simp: pump_stream_def Let_def split: if_splits prod.splits sock_result.splits option.splits dest!: note_body_keeps)

lemma pump_round_open:
  assumes run: "pump_round now b (hc, px, e) = Inr (b', hc', px', e')" and "0 \<le> px_fd px"
  shows "0 \<le> px_fd px'"
proof -
  obtain r px1 e1 where flush: "flush_100 (hc, px, e) = (r, px1, e1)" by (cases "flush_100 (hc, px, e)")
  have "0 \<le> px_fd px1" using flush_100_keeps [OF flush] assms(2) by simp
  moreover have "pump_phase now b (hc, px1, e1) = Inr (b', hc', px', e')"
    using run flush by (auto simp: pump_round_def split: send_end.splits if_splits)
  ultimately show ?thesis
    using pump_send_req_open pump_send_body_open pump_recv_hdr_open pump_send_resp_open pump_stream_open
    by (cases "px_phase px1") (simp_all only: pump_phase_def prod.case px_phase.case sum.distinct)
qed

text \<open>A call that leaves the exchange open is a run of such steps.\<close>

lemma pump_loop_steps:
  "pump_loop now_ms budget (hc, px, e) = (io, s') \<Longrightarrow> 0 \<le> px_fd px \<Longrightarrow> io \<noteq> IO_DONE \<Longrightarrow> io \<noteq> IO_CLOSE \<Longrightarrow>
    pump_step\<^sup>*\<^sup>* (hc, px, e) s'"
proof (induction now_ms budget "(hc, px, e)" arbitrary: hc px e rule: pump_loop.induct)
  case (1 now_ms budget hc px e)
  show ?case
  proof (cases "pump_round now_ms budget (hc, px, e)")
    case (Inl r)
    then have "pump_round now_ms budget (hc, px, e) = Inl (io, s')" using "1.prems"(1) by (simp add: pump_loop.simps)
    then show ?thesis using "1.prems"(2-4) by (intro r_into_rtranclp pump_step.yield)
  next
    case (Inr r)
    obtain b1 hc1 px1 e1 where r: "r = (b1, hc1, px1, e1)" by (cases r)
    then have "pump_loop now_ms b1 (hc1, px1, e1) = (io, s')" using "1.prems"(1) Inr by (subst (asm) pump_loop.simps) simp
    moreover have "0 \<le> px_fd px1" using pump_round_open Inr r "1.prems"(2) by blast
    ultimately have "pump_step\<^sup>*\<^sup>* (hc1, px1, e1) s'" using "1.hyps" [OF Inr r [symmetric]] "1.prems"(3,4) by blast
    moreover have "pump_step (hc, px, e) (hc1, px1, e1)" using Inr r "1.prems"(2) by (auto intro: pump_step.round)
    ultimately show ?thesis by (rule converse_rtranclp_into_rtranclp [rotated])
  qed
qed

lemma proxy_pump_steps:
  "proxy_pump now_ms s = (io, s') \<Longrightarrow> io \<noteq> IO_DONE \<Longrightarrow> io \<noteq> IO_CLOSE \<Longrightarrow> pump_step\<^sup>*\<^sup>* s s'"
  by (cases s) (auto simp: proxy_pump_def proxy_close_all_def split: if_splits intro: pump_loop_steps)

section \<open>Effects of the helpers\<close>

text \<open>What is left of the input of a descriptor.\<close>

definition stream :: "'a kernel_scheme \<Rightarrow> int \<Rightarrow> byte list" where
  "stream k fd = concat (map (\<lambda>a. case a of Rd bs \<Rightarrow> bs | _ \<Rightarrow> []) (k_reads k fd))"

lemma stream_same: "k_reads k' fd = k_reads k fd \<Longrightarrow> stream k' fd = stream k fd"
  by (simp add: stream_def)

definition same_io :: "'a kernel_scheme \<Rightarrow> 'a kernel_scheme \<Rightarrow> bool" where
  "same_io k k' = (k_sent k' = k_sent k \<and> k_reads k' = k_reads k)"

lemma same_io_refl [simp]: "same_io k k"
  by (simp add: same_io_def)

lemma same_io_trans: "same_io k k' \<Longrightarrow> same_io k' k'' \<Longrightarrow> same_io k k''"
  by (simp add: same_io_def)

lemma sys_read_stream:
  "sys_read fd cap k = (a, k') \<Longrightarrow> stream k fd = (case a of Rd bs \<Rightarrow> bs | _ \<Rightarrow> []) @ stream k' fd
    \<and> k_sent k' = k_sent k \<and> (\<forall>f. f \<noteq> fd \<longrightarrow> k_reads k' f = k_reads k f)
    \<and> (\<forall>bs. a = Rd bs \<longrightarrow> length bs \<le> cap)"
  by (auto simp: sys_read_def stream_def split: list.splits read_answer.splits if_splits)

lemma sock_read_stream:
  "sock_read fd buf cap k = (r, buf', k') \<Longrightarrow> \<exists>bs. buf' = buf @ bs \<and> stream k fd = bs @ stream k' fd
    \<and> (length buf \<le> cap \<longrightarrow> length buf' \<le> cap)
    \<and> k_sent k' = k_sent k \<and> (\<forall>f. f \<noteq> fd \<longrightarrow> k_reads k' f = k_reads k f)"
  by (auto simp: sock_read_def split: if_splits prod.splits read_answer.splits dest!: sys_read_stream)

lemma read_retry_stream:
  "read_retry fd buf cap k = (r, buf', k') \<Longrightarrow> \<exists>bs. buf' = buf @ bs \<and> stream k fd = bs @ stream k' fd
    \<and> (length buf \<le> cap \<longrightarrow> length buf' \<le> cap)
    \<and> k_sent k' = k_sent k \<and> (\<forall>f. f \<noteq> fd \<longrightarrow> k_reads k' f = k_reads k f)"
proof (induction fd buf cap k arbitrary: r buf' k' rule: read_retry.induct)
  case (1 fd buf cap k)
  obtain r1 b1 k1 where read: "sock_read fd buf cap k = (r1, b1, k1)" by (cases "sock_read fd buf cap k")
  show ?case
  proof (cases "r1 = SR_Retry")
    case True
    note eff = sock_read_stream [OF read] and same = sock_read_retry [OF read [unfolded True]]
    have "read_retry fd b1 cap k1 = (r, buf', k')"
      using "1.prems" read True by (subst (asm) read_retry.simps) simp
    from "1.IH" [OF read [symmetric] True refl this] eff same show ?thesis by auto
  next
    case False
    then have "(r, buf', k') = (r1, b1, k1)"
      using "1.prems" read by (subst (asm) read_retry.simps) (auto split: sock_result.splits)
    with sock_read_stream [OF read] show ?thesis by simp
  qed
qed

lemma sockopt_io [simp]: "same_io k (snd (sys_sockopt k))"
  by (simp add: same_io_def)

lemma uncork_io [simp]: "same_io e (uncork_fd px e)"
  by (simp add: uncork_fd_def)

lemma cork_up_io: "cork_up on (px, e) = (px', e') \<Longrightarrow> same_io e e'"
  by (auto simp: cork_up_def same_io_def sys_sockopt_def split: if_splits prod.splits bool.splits list.splits)

lemma cork_client_io: "cork_client on (hc, e) = (hc', e') \<Longrightarrow> same_io e e'
    \<and> hc_conn hc' = hc_conn hc \<and> hc_buf hc' = hc_buf hc \<and> hc_req hc' = hc_req hc"
  by (auto simp: cork_client_def same_io_def sys_sockopt_def split: if_splits prod.splits bool.splits list.splits)

lemma proxy_close_io: "proxy_close (px, e) = (px', e') \<Longrightarrow> same_io e e' \<and> px_fd px' < 0"
  by (auto simp: proxy_close_def proxy_conn_reset_def same_io_def uncork_fd_def split: if_splits)

lemma proxy_fail_closes: "proxy_fail now (hc, px, e) = (io, hc', px', e') \<Longrightarrow> px_fd px' < 0 \<and> same_io e e'"
  by (auto simp: proxy_fail_def split: prod.splits if_splits dest: proxy_close_io)

lemma proxy_close_all_closes: "proxy_close_all (hc, px, e) = (io, hc', px', e') \<Longrightarrow> io = IO_CLOSE"
  by (auto simp: proxy_close_all_def)

lemma arm_up_io: "arm_up io (px, e) = (ok, px', e') \<Longrightarrow> same_io e e'
    \<and> px' = px\<lparr>px_in_epoll := px_in_epoll px', px_armed := px_armed px'\<rparr>"
  by (auto simp: arm_up_def same_io_def sys_epoll_def split: if_splits prod.splits bool.splits list.splits)

lemma yield_effect:
  assumes "yield_or_fail a b now (hc, px, e) = (io, hc', px', e')"
  shows "same_io e e' \<and> (px_fd px' < 0 \<or> hc' = hc \<and> px' = px\<lparr>px_in_epoll := px_in_epoll px', px_armed := px_armed px'\<rparr>)"
proof -
  obtain ok px1 e1 where arm: "arm_up a (px, e) = (ok, px1, e1)" by (cases "arm_up a (px, e)")
  note arm_up_io [OF arm]
  then show ?thesis using assms arm proxy_fail_closes [of now hc px1 e1 io hc' px' e']
    by (cases ok) (auto simp: yield_or_fail_def yield_up_def intro: same_io_trans)
qed

lemma touch_keeps [simp]: "hc_conn (touch now hc) = hc_conn hc" "hc_buf (touch now hc) = hc_buf hc" "hc_req (touch now hc) = hc_req hc"
  by (simp_all add: touch_def)

lemma progressed_keeps: "progressed m now b hc = (b', hc') \<Longrightarrow> hc_conn hc' = hc_conn hc \<and> hc_buf hc' = hc_buf hc \<and> hc_req hc' = hc_req hc"
  by (auto simp: progressed_def split: if_splits)

section \<open>The request\<close>

text \<open>What is still to go upstream: the rest of the head, of the bytes that came with it, and of the unread body.\<close>

fun req_rest :: "'a pump \<Rightarrow> byte list" where
  "req_rest (hc, px, e) =
     (if px_phase px = PX_SEND_REQ then drop (px_hdr_off px) (px_hdr px) else []) @
     (if px_phase px = PX_SEND_REQ \<or> px_phase px = PX_SEND_BODY then
        drop (px_buf_off px) (px_buf px) @ bslice (hc_buf hc) (px_body_off px) (px_body_end px)
        @ take (px_body_left px) (stream e (hc_fd hc))
      else [])"

declare req_rest.simps [simp del]

text \<open>
  The invariant of a request on a new connection \<open>U\<close>: what has been sent and what is still to come
  are together \<open>T\<close>, as long as the connection is open.
\<close>

fun uploading :: "int \<Rightarrow> http_conn \<Rightarrow> byte list \<Rightarrow> 'a pump \<Rightarrow> bool" where
  "uploading U hc0 T (hc, px, e) =
     (px_fd px < 0 \<or> px_fd px = U \<and> PX_REUSED \<notin> px_flags px
      \<and> hc_conn hc = hc_conn hc0 \<and> hc_buf hc = hc_buf hc0
      \<and> (px_phase px = PX_SEND_REQ \<or> px_phase px = PX_SEND_BODY \<longrightarrow> px_body_end px \<le> length (hc_buf hc))
      \<and> (px_phase px = PX_SEND_REQ \<longrightarrow> px_buf px = []) \<and> k_sent e U @ req_rest (hc, px, e) = T)"

definition round_ok :: "('a pump \<Rightarrow> bool) \<Rightarrow> 'a round \<Rightarrow> bool" where
  "round_ok P r = (case r of Inr (b, s) \<Rightarrow> P s | Inl (io, s) \<Rightarrow> io \<noteq> IO_DONE \<longrightarrow> io \<noteq> IO_CLOSE \<longrightarrow> P s)"

lemma round_ok_simps [simp]:
  "round_ok P (Inr (b, s)) = P s" "round_ok P (Inl (proxy_close_all s))" "round_ok P (Inl (proxy_done s))"
  by (simp_all add: round_ok_def proxy_close_all_def proxy_done_def split: prod.split)

lemma round_ok_leave: "P s \<Longrightarrow> round_ok P (Inl (io, s))"
  by (simp add: round_ok_def)

lemma round_ok_fail [simp]: "round_ok (uploading U hc0 T) (Inl (proxy_fail now s))"
  by (cases s) (auto simp: round_ok_def dest: proxy_fail_closes split: prod.split)

lemma round_ok_yield:
  assumes "uploading U hc0 T s"
  shows "round_ok (uploading U hc0 T) (Inl (yield_or_fail a b now s))"
proof -
  obtain hc px e where s: "s = (hc, px, e)" by (cases s)
  obtain io hc' px' e' where y: "yield_or_fail a b now (hc, px, e) = (io, hc', px', e')"
    by (cases "yield_or_fail a b now (hc, px, e)")
  from yield_effect [OF y] have "uploading U hc0 T (hc', px', e')"
  proof (elim conjE disjE)
    assume io: "same_io e e'" and same: "hc' = hc" "px' = px\<lparr>px_in_epoll := px_in_epoll px', px_armed := px_armed px'\<rparr>"
    have f: "px_fd px' = px_fd px" "px_flags px' = px_flags px" "px_phase px' = px_phase px" "px_buf px' = px_buf px"
      "px_buf_off px' = px_buf_off px" "px_hdr px' = px_hdr px" "px_hdr_off px' = px_hdr_off px"
      "px_body_off px' = px_body_off px" "px_body_end px' = px_body_end px" "px_body_left px' = px_body_left px"
      by (subst same(2), simp)+
    have "req_rest (hc, px', e') = req_rest (hc, px, e)"
      using io stream_same [of e' "hc_fd hc" e] by (simp add: f req_rest.simps same_io_def)
    then show ?thesis using assms io unfolding s same(1) uploading.simps f same_io_def by simp
  qed simp
  then show ?thesis by (simp add: round_ok_def s y)
qed

text \<open>Sending on: the bytes between the offsets move from what is to come to what has been sent.\<close>

lemma sent_on:
  assumes "send_loop fd data off k = (r, off', k')" and "off \<le> length data"
  shows "k_sent k fd @ drop off data @ rest = tot \<Longrightarrow> k_sent k' fd @ drop off' data @ rest = tot" "off \<le> off'" "off' \<le> length data"
    "k_reads k' = k_reads k" "f \<noteq> fd \<Longrightarrow> k_sent k' f = k_sent k f" "r = Send_All \<Longrightarrow> off' = length data"
    "r \<noteq> Send_All \<Longrightarrow> off' \<noteq> length data"
proof -
  note ex = send_loop_exact [OF assms]
  then show le: "off \<le> off'" "off' \<le> length data" "r = Send_All \<Longrightarrow> off' = length data" "r \<noteq> Send_All \<Longrightarrow> off' \<noteq> length data"
    by auto
  show "k_reads k' = k_reads k" "f \<noteq> fd \<Longrightarrow> k_sent k' f = k_sent k f" using ex by (auto simp: only_sends_def)
  have "drop off data = take (off' - off) (drop off data) @ drop off' data"
    using le(1) by (metis append_take_drop_id drop_drop le_add_diff_inverse2)
  then have "k_sent k fd @ drop off data = k_sent k' fd @ drop off' data" using ex by simp
  then show "k_sent k fd @ drop off data @ rest = tot \<Longrightarrow> k_sent k' fd @ drop off' data @ rest = tot"
    by (metis append_assoc)
qed

lemma start_recv_effect:
  assumes "start_recv (px, e) = (px', e')"
  shows "same_io e e' \<and> px_fd px' = px_fd px \<and> px_phase px' = PX_RECV_HDR \<and> px_body_end px' = px_body_end px
    \<and> (PX_REUSED \<in> px_flags px' \<longleftrightarrow> PX_REUSED \<in> px_flags px)"
proof -
  obtain px1 e1 where cork: "cork_up False (px, e) = (px1, e1)" by (cases "cork_up False (px, e)")
  then show ?thesis using assms cork_up_io [OF cork] cork_up_keeps [OF cork] by (auto simp: start_recv_def)
qed

lemma uploading_recv:
  assumes "uploading U hc0 T (hc, px, e)" and "req_rest (hc, px, e) = []"
  shows "uploading U hc0 T (hc, start_recv (px, e))"
proof -
  obtain px' e' where run: "start_recv (px, e) = (px', e')" by (cases "start_recv (px, e)")
  from start_recv_effect [OF run] assms show ?thesis
    unfolding run by (cases "px_fd px < 0") (auto simp: req_rest.simps same_io_def)
qed

lemma uploading_send_req:
  assumes inv: "uploading U hc0 T (hc, px, e)" and phase: "px_phase px = PX_SEND_REQ" and U: "U \<noteq> hc_fd hc0"
    and open_fd: "0 \<le> px_fd px"
  shows "round_ok (uploading U hc0 T) (pump_send_req now b (hc, px, e))"
proof -
  have px: "px_fd px = U" "PX_REUSED \<notin> px_flags px" "hc_conn hc = hc_conn hc0" "hc_buf hc = hc_buf hc0"
    "px_body_end px \<le> length (hc_buf hc)" "px_buf px = []" "k_sent e U @ req_rest (hc, px, e) = T"
    using inv phase open_fd by auto
  have next_ok: "round_ok (uploading U hc0 T) (if body_pending q then Inr (b', h, q\<lparr>px_phase := PX_SEND_BODY\<rparr>, e')
      else Inr (b', h, start_recv (q, e')))"
    if up: "uploading U hc0 T (h, q, e')" and q: "px_phase q = PX_SEND_REQ" "px_hdr_off q \<ge> length (px_hdr q)" "0 \<le> px_fd q"
    for b' h q e'
  proof (cases "body_pending q")
    case True
    then show ?thesis using up q by (auto simp: req_rest.simps)
  next
    case False
    then have "req_rest (h, q, e') = []" using up q by (simp add: req_rest.simps body_pending_def)
    from uploading_recv [OF up this] False show ?thesis by simp
  qed
  show ?thesis
  proof (cases "px_hdr_off px < length (px_hdr px)")
    case False
    then show ?thesis using next_ok [OF inv phase] open_fd by (simp add: pump_send_req_def Let_def)
  next
    case True
    obtain r off e1 where send: "send_loop (px_fd px) (px_hdr px) (px_hdr_off px) e = (r, off, e1)"
      by (cases "send_loop (px_fd px) (px_hdr px) (px_hdr_off px) e")
    note on = sent_on [OF send less_imp_le [OF True]]
    obtain b1 h where prog: "progressed (off \<noteq> px_hdr_off px) now b hc = (b1, h)"
      by (cases "progressed (off \<noteq> px_hdr_off px) now b hc")
    note keep = progressed_keeps [OF prog]
    let ?q = "px\<lparr>px_hdr_off := off\<rparr>"
    have up: "uploading U hc0 T (h, ?q, e1)"
      using px on(4) keep phase stream_same [of e1 "hc_fd hc" e]
      by (simp add: req_rest.simps on(1) [unfolded px(1)])
    show ?thesis
    proof (cases "r = Send_Dead")
      case dead: True
      then show ?thesis using True send px(2) by (simp add: pump_send_req_def Let_def)
    next
      case False
      show ?thesis
      proof (cases "r = Send_Again \<or> off < length (px_hdr px)")
        case blocked: True
        then show ?thesis using True send False prog round_ok_yield [OF up]
          by (auto simp: pump_send_req_def Let_def)
      next
        case sent: False
        then have "pump_send_req now b (hc, px, e) =
            (if body_pending ?q then Inr (b1, h, ?q\<lparr>px_phase := PX_SEND_BODY\<rparr>, e1) else Inr (b1, h, start_recv (?q, e1)))"
          using True send False prog by (simp add: pump_send_req_def Let_def)
        then show ?thesis using next_ok [OF up] phase sent open_fd by simp
      qed
    qed
  qed
qed

lemma uploading_send_body:
  assumes inv: "uploading U hc0 T (hc, px, e)" and phase: "px_phase px = PX_SEND_BODY" and U: "U \<noteq> hc_fd hc0"
    and open_fd: "0 \<le> px_fd px"
  shows "round_ok (uploading U hc0 T) (pump_send_body now b (hc, px, e))"
proof -
  have px: "px_fd px = U" "PX_REUSED \<notin> px_flags px" "hc_conn hc = hc_conn hc0" "hc_buf hc = hc_buf hc0"
    "px_body_end px \<le> length (hc_buf hc)" "k_sent e U @ req_rest (hc, px, e) = T"
    using inv phase open_fd by auto
  consider (buffered) "px_buf_off px < length (px_buf px)"
    | (body) "\<not> px_buf_off px < length (px_buf px)" "px_body_off px < px_body_end px"
    | (unread) "\<not> px_buf_off px < length (px_buf px)" "\<not> px_body_off px < px_body_end px" "0 < px_body_left px"
    | (over) "\<not> px_buf_off px < length (px_buf px)" "\<not> px_body_off px < px_body_end px" "\<not> 0 < px_body_left px"
    by blast
  then show ?thesis
  proof cases
    case buffered
    obtain r off e1 where send: "send_loop (px_fd px) (px_buf px) (px_buf_off px) e = (r, off, e1)"
      by (cases "send_loop (px_fd px) (px_buf px) (px_buf_off px) e")
    note on = sent_on [OF send less_imp_le [OF buffered]]
    obtain b1 h where prog: "progressed (off \<noteq> px_buf_off px) now b hc = (b1, h)"
      by (cases "progressed (off \<noteq> px_buf_off px) now b hc")
    have up: "uploading U hc0 T (h, px\<lparr>px_buf_off := off\<rparr>, e1)"
      using px on(4) progressed_keeps [OF prog] phase stream_same [of e1 "hc_fd hc" e]
      by (simp add: req_rest.simps on(1) [unfolded px(1)])
    have up_all: "uploading U hc0 T (h, px\<lparr>px_buf_off := 0, px_buf := []\<rparr>, e1)" if "r = Send_All"
      using up on(6) [OF that] phase by (auto simp: req_rest.simps)
    show ?thesis using buffered send prog round_ok_yield [OF up] up_all
      by (cases r) (simp_all add: pump_send_body_def)
  next
    case body
    let ?data = "take (px_body_end px) (hc_buf hc)"
    have len: "length ?data = px_body_end px" using px(5) by simp
    obtain r off e1 where send: "send_loop (px_fd px) ?data (px_body_off px) e = (r, off, e1)"
      by (cases "send_loop (px_fd px) ?data (px_body_off px) e")
    have le: "px_body_off px \<le> length ?data" using body len by simp
    note on = sent_on [OF send le]
    have slice: "drop n ?data = bslice (hc_buf hc) n (px_body_end px)" for n by (simp add: bslice_def drop_take)
    obtain b1 h where prog: "progressed (off \<noteq> px_body_off px) now b hc = (b1, h)"
      by (cases "progressed (off \<noteq> px_body_off px) now b hc")
    have up: "uploading U hc0 T (h, px\<lparr>px_body_off := off\<rparr>, e1)"
      using px body on(4) progressed_keeps [OF prog] phase stream_same [of e1 "hc_fd hc" e]
      by (simp add: req_rest.simps on(1) [unfolded slice, unfolded px(1,4)])
    show ?thesis using body send prog round_ok_yield [OF up] up
      by (cases r) (simp_all add: pump_send_body_def)
  next
    case unread
    let ?cap = "min PROXY_BUF_MAX (px_body_left px)"
    obtain r buf e1 where read: "read_retry (hc_fd hc) [] ?cap e = (r, buf, e1)" by (cases "read_retry (hc_fd hc) [] ?cap e")
    have eff: "stream e (hc_fd hc) = buf @ stream e1 (hc_fd hc)" "length buf \<le> ?cap" "k_sent e1 = k_sent e"
      using read_retry_stream [OF read] by auto
    have split: "take (px_body_left px) (stream e (hc_fd hc)) = buf @ take (px_body_left px - length buf) (stream e1 (hc_fd hc))"
      using eff(1,2) by simp
    have up: "uploading U hc0 T (h, px\<lparr>px_buf_off := 0, px_buf := buf, px_body_left := px_body_left px - length buf\<rparr>, e1)"
      if "hc_conn h = hc_conn hc \<and> hc_buf h = hc_buf hc" for h
      using px unread phase eff(3) split that by (simp add: req_rest.simps)
    have up0: "uploading U hc0 T (hc, px\<lparr>px_buf_off := 0, px_buf := buf\<rparr>, e1)" if "buf = []"
      using up [of hc] that by (simp add: req_rest.simps)
    show ?thesis using unread read round_ok_yield [OF up0] up [of "touch now hc"]
      by (simp add: pump_send_body_def Let_def del: uploading.simps diff_is_0_eq diff_is_0_eq')
  next
    case over
    then have "req_rest (hc, px, e) = []" using phase by (simp add: req_rest.simps)
    from uploading_recv [OF inv this] over show ?thesis by (simp add: pump_send_body_def)
  qed
qed

text \<open>From then on nothing more goes to the upstream.\<close>

fun uploaded :: "int \<Rightarrow> http_conn \<Rightarrow> byte list \<Rightarrow> 'a pump \<Rightarrow> bool" where
  "uploaded U hc0 T (hc, px, e) =
     (px_fd px < 0 \<or> px_fd px = U \<and> PX_REUSED \<notin> px_flags px \<and> hc_conn hc = hc_conn hc0 \<and> hc_buf hc = hc_buf hc0
      \<and> px_phase px \<in> {PX_RECV_HDR, PX_SEND_RESP, PX_STREAM} \<and> k_sent e U = T)"

lemma uploaded_iff:
  "px_phase px \<in> {PX_RECV_HDR, PX_SEND_RESP, PX_STREAM} \<Longrightarrow> uploading U hc0 T (hc, px, e) = uploaded U hc0 T (hc, px, e)"
  by (auto simp: req_rest.simps)

lemma uploaded_uploading: "uploaded U hc0 T s \<Longrightarrow> uploading U hc0 T s"
  by (cases s) (auto simp: req_rest.simps)

lemma round_ok_mono: "round_ok P r \<Longrightarrow> (\<And>s. P s \<Longrightarrow> Q s) \<Longrightarrow> round_ok Q r"
  by (auto simp: round_ok_def split: sum.splits prod.splits)

lemma uploaded_fail [simp]: "round_ok (uploaded U hc0 T) (Inl (proxy_fail now s))"
  by (cases s) (auto simp: round_ok_def dest: proxy_fail_closes split: prod.split)

lemma uploaded_yield:
  assumes "uploaded U hc0 T s"
  shows "round_ok (uploaded U hc0 T) (Inl (yield_or_fail a b now s))"
proof -
  obtain hc px e where s: "s = (hc, px, e)" by (cases s)
  obtain io hc' px' e' where y: "yield_or_fail a b now (hc, px, e) = (io, hc', px', e')"
    by (cases "yield_or_fail a b now (hc, px, e)")
  from yield_effect [OF y] have "uploaded U hc0 T (hc', px', e')"
  proof (elim conjE disjE)
    assume io: "same_io e e'" and same: "hc' = hc" "px' = px\<lparr>px_in_epoll := px_in_epoll px', px_armed := px_armed px'\<rparr>"
    have "px_fd px' = px_fd px" "px_flags px' = px_flags px" "px_phase px' = px_phase px" by (subst same(2), simp)+
    then show ?thesis using assms io unfolding s same(1) by (simp add: same_io_def)
  qed simp
  then show ?thesis by (simp add: round_ok_def s y)
qed

lemma uploaded_response:
  assumes inv: "uploaded U hc0 T (hc, px, e)" and phase: "px_phase px = PX_RECV_HDR"
  shows "round_ok (uploaded U hc0 T) (pump_response now at b (hc, px, e))"
proof (cases "rewrite_response (hc_req hc) px (take (at + 4) (px_buf px))")
  case None
  then show ?thesis by (simp add: pump_response_def)
next
  case (Some r)
  obtain info px1 where r: "r = (info, px1)" by (cases r)
  note rw = Some [unfolded r]
  note keep = rewrite_response_keeps [OF rw] rewrite_response_reused [OF rw]
  let ?q = "px1\<lparr>px_buf := drop (at + 4) (px_buf px1), px_buf_off := 0\<rparr>"
  have up: "uploaded U hc0 T (hc, ?q, e)" using inv keep by simp
  have note_up: "uploaded U hc0 T (hc, q\<lparr>px_phase := PX_SEND_RESP\<rparr>, e)" if "note_body ?q n = Some q" for q n
    using note_body_keeps [OF that] note_body_reused [OF that] up by auto
  show ?thesis using rw up note_up
    by (auto simp: pump_response_def Let_def split: option.splits)
qed

lemma uploaded_retry:
  assumes "uploaded U hc0 T (hc, px, e)" and "0 \<le> px_fd px"
  shows "round_ok (uploaded U hc0 T) (retry_or_fail now b (hc, px, e))"
  using assms by (simp add: retry_or_fail_def proxy_retry_idle_def)

lemma uploaded_recv_hdr:
  assumes inv: "uploaded U hc0 T (hc, px, e)" and phase: "px_phase px = PX_RECV_HDR" and open_fd: "0 \<le> px_fd px"
  shows "round_ok (uploaded U hc0 T) (pump_recv_hdr now b (hc, px, e))"
proof (cases "find_hdr_end (px_buf px)")
  case (Some at)
  then show ?thesis using uploaded_response [OF inv phase] by (simp add: pump_recv_hdr_def)
next
  case None
  show ?thesis
  proof (cases "PROXY_BUF_MAX \<le> length (px_buf px)")
    case True
    then show ?thesis using None by (simp add: pump_recv_hdr_def)
  next
    case False
    obtain r buf e1 where read: "sock_read (px_fd px) (px_buf px) PROXY_BUF_MAX e = (r, buf, e1)"
      by (cases "sock_read (px_fd px) (px_buf px) PROXY_BUF_MAX e")
    have up: "uploaded U hc0 T (h, px\<lparr>px_buf := bs\<rparr>, e1)" if "hc_conn h = hc_conn hc \<and> hc_buf h = hc_buf hc" for h bs
      using inv sock_read_stream [OF read] that by auto
    have up1: "uploaded U hc0 T (hc, px, e1)" using inv sock_read_stream [OF read] by auto
    show ?thesis using None False read uploaded_retry [OF up1 open_fd] up1 uploaded_yield [OF up1] up [of "touch now hc"]
      uploaded_response [OF up [of "touch now hc"]] phase
      by (auto simp: pump_recv_hdr_def Let_def split: sock_result.split option.split)
  qed
qed

lemma sendmsg_retry_effect:
  "sendmsg_retry fd data k = (a, k') \<Longrightarrow> only_sends fd k k'
    \<and> k_sent k' fd = k_sent k fd @ (case a of Wr n \<Rightarrow> take n data | _ \<Rightarrow> [])
    \<and> (\<forall>n. a = Wr n \<longrightarrow> n \<le> length data)"
proof (induction fd data k arbitrary: a k' rule: sendmsg_retry.induct)
  case (1 fd data k)
  obtain a1 k1 where call: "sys_send fd data k = (a1, k1)" by (cases "sys_send fd data k")
  note eff = sys_send_effect [OF call]
  show ?case
  proof (cases "a1 = Wr_Intr")
    case True
    then have "sendmsg_retry fd data k1 = (a, k')" using "1.prems" call by (subst (asm) sendmsg_retry.simps) simp
    from "1.IH" [OF call [symmetric] True this] eff True show ?thesis by (auto intro: only_sends_trans)
  next
    case False
    then have "(a, k') = (a1, k1)"
      using "1.prems" call by (subst (asm) sendmsg_retry.simps) (auto split: write_answer.splits)
    then show ?thesis using eff by simp
  qed
qed

text \<open>\<open>send_gathered\<close> moves the bytes between the old and the new pair of offsets.\<close>

lemma send_gathered_on:
  assumes "send_gathered (hc, px, e) = (r, px', e')"
  shows "only_sends (hc_fd hc) e e' \<and> px' = px\<lparr>px_hdr_off := px_hdr_off px', px_buf_off := px_buf_off px'\<rparr>
    \<and> k_sent e' (hc_fd hc) @ drop (px_hdr_off px') (px_hdr px) @ drop (px_buf_off px') (px_buf px)
      = k_sent e (hc_fd hc) @ drop (px_hdr_off px) (px_hdr px) @ drop (px_buf_off px) (px_buf px)
    \<and> (px_hdr_off px \<le> length (px_hdr px) \<longrightarrow> px_hdr_off px' \<le> length (px_hdr px))
    \<and> (px_buf_off px \<le> length (px_buf px) \<longrightarrow> px_buf_off px' \<le> length (px_buf px))"
proof (cases "drop (px_hdr_off px) (px_hdr px) = [] \<and> drop (px_buf_off px) (px_buf px) = []")
  case True
  then show ?thesis using assms by (auto simp: send_gathered_def Let_def)
next
  case False
  let ?h = "drop (px_hdr_off px) (px_hdr px)" and ?b = "drop (px_buf_off px) (px_buf px)"
  obtain a e1 where send: "sendmsg_retry (hc_fd hc) (?h @ ?b) e = (a, e1)"
    by (cases "sendmsg_retry (hc_fd hc) (?h @ ?b) e")
  note eff = sendmsg_retry_effect [OF send]
  have run: "(r, px', e') = (case a of Wr n \<Rightarrow>
        (if n = 0 then (Send_Dead, px, e1)
         else if n < length ?h then (Send_All, px\<lparr>px_hdr_off := px_hdr_off px + n\<rparr>, e1)
         else (Send_All, px\<lparr>px_hdr_off := px_hdr_off px + length ?h, px_buf_off := px_buf_off px + (n - length ?h)\<rparr>, e1))
      | Wr_Again \<Rightarrow> (Send_Again, px, e1) | _ \<Rightarrow> (Send_Dead, px, e1))"
    using assms False send by (auto simp: send_gathered_def Let_def)
  show ?thesis
  proof (cases a)
    case (Wr n)
    then have n: "n \<le> length ?h + length ?b" using eff by simp
    have split: "?h = take n ?h @ drop (n + px_hdr_off px) (px_hdr px)"
      "?b = take (n - length ?h) ?b @ drop (n - length ?h + px_buf_off px) (px_buf px)"
      using append_take_drop_id [of n ?h] append_take_drop_id [of "n - length ?h" ?b] by simp_all
    consider "n = 0" | "0 < n" "n < length ?h" | "0 < n" "length ?h \<le> n" by linarith
    then show ?thesis
    proof cases
      case 1
      then show ?thesis using run Wr eff by simp
    next
      case 2
      then have eq: "px' = px\<lparr>px_hdr_off := px_hdr_off px + n\<rparr>" "e' = e1" using run Wr by simp_all
      have "k_sent e1 (hc_fd hc) = k_sent e (hc_fd hc) @ take n ?h" using eff Wr 2 by simp
      then have "k_sent e1 (hc_fd hc) @ drop (n + px_hdr_off px) (px_hdr px) = k_sent e (hc_fd hc) @ ?h"
        using split(1) by (metis append_assoc)
      then show ?thesis using eff 2 unfolding eq by (auto simp: add.commute)
    next
      case 3
      then have eq: "px' = px\<lparr>px_hdr_off := px_hdr_off px + length ?h, px_buf_off := px_buf_off px + (n - length ?h)\<rparr>" "e' = e1"
        using run Wr by simp_all
      have "k_sent e1 (hc_fd hc) = k_sent e (hc_fd hc) @ ?h @ take (n - length ?h) ?b" using eff Wr 3 by simp
      then have "k_sent e1 (hc_fd hc) @ drop (n - length ?h + px_buf_off px) (px_buf px) = k_sent e (hc_fd hc) @ ?h @ ?b"
        using split(2) by (metis append_assoc)
      then show ?thesis using eff 3 n unfolding eq by (auto simp: add.commute)
    qed
  qed (use run eff in auto)
qed

lemma uploaded_client:
  "uploaded U hc0 T (hc, px, e) \<Longrightarrow> U \<noteq> hc_fd hc0 \<Longrightarrow> only_sends (hc_fd hc) e e' \<Longrightarrow> uploaded U hc0 T (hc, px, e')"
  by (auto simp: only_sends_def)

lemma uploaded_touch:
  "uploaded U hc0 T (hc, px, e) \<Longrightarrow> progressed m now b hc = (b', hc') \<Longrightarrow> uploaded U hc0 T (hc', px, e)"
  using progressed_keeps [of m now b hc b' hc'] by auto

lemma uploaded_conn:
  "uploaded U hc0 T (hc, px, e) \<Longrightarrow> px_fd px' = px_fd px \<Longrightarrow> (PX_REUSED \<in> px_flags px' \<longleftrightarrow> PX_REUSED \<in> px_flags px) \<Longrightarrow>
    px_phase px' \<in> {PX_RECV_HDR, PX_SEND_RESP, PX_STREAM} \<Longrightarrow> uploaded U hc0 T (hc, px', e)"
  by auto

lemma dead_client_ok [simp]: "round_ok (uploaded U hc0 T) (Inl (dead_client now s))"
  by (cases s) (simp add: dead_client_def)

lemma uploaded_send_resp:
  assumes inv: "uploaded U hc0 T (hc, px, e)" and phase: "px_phase px = PX_SEND_RESP" and U: "U \<noteq> hc_fd hc0"
  shows "round_ok (uploaded U hc0 T) (pump_send_resp now b (hc, px, e))"
proof (cases "PX_BODY_DONE \<in> px_flags px")
  case True
  obtain r px1 e1 where send: "send_gathered (hc, px, e) = (r, px1, e1)" by (cases "send_gathered (hc, px, e)")
  note on = send_gathered_on [OF send] and keeps = send_gathered_keeps [OF send]
  let ?moved = "px_hdr_off px1 \<noteq> px_hdr_off px \<or> px_buf_off px1 \<noteq> px_buf_off px"
  obtain b1 h where prog: "progressed ?moved now b hc = (b1, h)" by (cases "progressed ?moved now b hc")
  have "uploaded U hc0 T (hc, px, e1)" using uploaded_client [OF inv U] on by blast
  then have "uploaded U hc0 T (hc, mark_sent ?moved px1, e1)"
    by (rule uploaded_conn) (use keeps send_gathered_fd [OF send] phase in auto)
  then have up: "uploaded U hc0 T (h, mark_sent ?moved px1, e1)" using prog by (rule uploaded_touch)
  then show ?thesis using True send prog round_ok_leave [of "uploaded U hc0 T", OF up]
    by (simp add: pump_send_resp_def Let_def del: uploaded.simps)
next
  case False
  obtain hc1 e1 where cork: "cork_client True (hc, e) = (hc1, e1)" by (cases "cork_client True (hc, e)")
  have keep: "hc_conn hc1 = hc_conn hc" "hc_buf hc1 = hc_buf hc" "same_io e e1"
    using cork_client_io [OF cork] by auto
  have up1: "uploaded U hc0 T (hc1, px, e1)" using inv keep by (auto simp: same_io_def)
  have next_ok: "round_ok (uploaded U hc0 T) (if PX_BODY_DONE \<in> px_flags q \<and> length (px_buf q) \<le> px_buf_off q
      then Inl (proxy_done (h, q, e')) else Inr (b', h, q\<lparr>px_phase := PX_STREAM\<rparr>, e'))"
    if "uploaded U hc0 T (h, q, e')" for h q e' b'
    using that by auto
  show ?thesis
  proof (cases "px_hdr_off px < length (px_hdr px)")
    case no_hdr: False
    then show ?thesis using False cork next_ok [OF up1] by (simp add: pump_send_resp_def Let_def)
  next
    case True
    obtain r off e2 where send: "send_loop (hc_fd hc1) (px_hdr px) (px_hdr_off px) e1 = (r, off, e2)"
      by (cases "send_loop (hc_fd hc1) (px_hdr px) (px_hdr_off px) e1")
    let ?moved = "off \<noteq> px_hdr_off px"
    obtain b1 h where prog: "progressed ?moved now b hc1 = (b1, h)" by (cases "progressed ?moved now b hc1")
    have "uploaded U hc0 T (hc1, px, e2)" using uploaded_client [OF up1 U send_loop_only [OF send]] .
    then have "uploaded U hc0 T (hc1, mark_sent m (px\<lparr>px_hdr_off := off\<rparr>), e2)" for m
      by (rule uploaded_conn) (use phase in auto)
    then have up: "uploaded U hc0 T (h, mark_sent m (px\<lparr>px_hdr_off := off\<rparr>), e2)" for m
      using prog by (rule uploaded_touch)
    show ?thesis using False True cork send prog uploaded_yield [OF up] next_ok [OF up]
      by (simp add: pump_send_resp_def Let_def del: uploaded.simps)
  qed
qed

lemma uploaded_stream:
  assumes inv: "uploaded U hc0 T (hc, px, e)" and phase: "px_phase px = PX_STREAM" and U: "U \<noteq> hc_fd hc0"
  shows "round_ok (uploaded U hc0 T) (pump_stream now b (hc, px, e))"
proof (cases "px_buf_off px < length (px_buf px)")
  case True
  obtain r off e1 where send: "send_loop (hc_fd hc) (px_buf px) (px_buf_off px) e = (r, off, e1)"
    by (cases "send_loop (hc_fd hc) (px_buf px) (px_buf_off px) e")
  let ?moved = "off \<noteq> px_buf_off px"
  let ?q = "mark_sent ?moved (px\<lparr>px_buf_off := off\<rparr>)"
  obtain b1 h where prog: "progressed ?moved now b hc = (b1, h)" by (cases "progressed ?moved now b hc")
  have "uploaded U hc0 T (hc, px, e1)" using uploaded_client [OF inv U send_loop_only [OF send]] .
  then have "uploaded U hc0 T (hc, ?q, e1)" by (rule uploaded_conn) (use phase in auto)
  then have up: "uploaded U hc0 T (h, ?q, e1)" using prog by (rule uploaded_touch)
  then have "uploaded U hc0 T (h, mark_sent m (px\<lparr>px_buf_off := off\<rparr>)\<lparr>px_buf_off := 0, px_buf := []\<rparr>, e1)" for m
    by (rule uploaded_conn) (use phase in auto)
  then show ?thesis using True send prog uploaded_yield [OF up]
    by (simp add: pump_stream_def Let_def del: uploaded.simps)
next
  case no_buf: False
  show ?thesis
  proof (cases "PX_BODY_DONE \<in> px_flags px")
    case True
    then show ?thesis using no_buf by (simp add: pump_stream_def)
  next
    case False
    define cap where "cap = (if PX_RESP_CL \<in> px_flags px \<and> unat (px_resp_left px) < PROXY_BUF_MAX
        then unat (px_resp_left px) else PROXY_BUF_MAX)"
    obtain r buf e1 where read: "sock_read (px_fd px) [] cap e = (r, buf, e1)" by (cases "sock_read (px_fd px) [] cap e")
    let ?q = "\<lambda>bs. px\<lparr>px_buf_off := 0, px_buf := bs\<rparr>"
    have "uploaded U hc0 T (hc, px, e1)" using inv sock_read_stream [OF read] by auto
    then have up: "uploaded U hc0 T (hc, ?q bs, e1)" for bs by (rule uploaded_conn) (use phase in auto)
    have note_up: "uploaded U hc0 T (touch now hc, q, e1)" if "note_body (?q bs) n = Some q" for bs q n
      using note_body_keeps [OF that] note_body_reused [OF that] up [of bs] phase by auto
    show ?thesis using no_buf False read up [of "[]"] note_up uploaded_yield [OF up [of "[]"]]
      by (simp add: pump_stream_def Let_def cap_def [symmetric] del: uploaded.simps split: sock_result.split option.split)
  qed
qed

lemma budget_out_yields:
  "(\<exists>a c. pump_budget_out now s = yield_or_fail a c now s) \<or> pump_budget_out now s = proxy_fail now s"
  by (cases s) (auto simp: pump_budget_out_def Let_def)

lemma flush_100_on:
  assumes "flush_100 (hc, px, e) = (r, px', e')"
  obtains off fl where "px' = px\<lparr>px_cont_off := off, px_flags := fl\<rparr>" "fl - {PX_SEND_100} = px_flags px - {PX_SEND_100}"
    "only_sends (hc_fd hc) e e'"
proof (cases "PX_SEND_100 \<in> px_flags px")
  case False
  then show ?thesis using assms that [of "px_flags px" "px_cont_off px"] by (simp add: flush_100_def)
next
  case True
  obtain r1 off e1 where send: "send_loop (hc_fd hc) CONT_100 (px_cont_off px) e = (r1, off, e1)"
    by (cases "send_loop (hc_fd hc) CONT_100 (px_cont_off px) e")
  note io = send_loop_only [OF send]
  have "e' = e1 \<and> (px' = px\<lparr>px_cont_off := off, px_flags := px_flags px - {PX_SEND_100}\<rparr>
      \<or> px' = px\<lparr>px_cont_off := off, px_flags := px_flags px\<rparr>)"
    using True assms send by (cases r1) (auto simp: flush_100_def)
  then show ?thesis
  proof (elim conjE disjE)
    assume "e' = e1" "px' = px\<lparr>px_cont_off := off, px_flags := px_flags px - {PX_SEND_100}\<rparr>"
    with io show ?thesis by (intro that [where off = off and fl = "px_flags px - {PX_SEND_100}"]) simp_all
  next
    assume "e' = e1" "px' = px\<lparr>px_cont_off := off, px_flags := px_flags px\<rparr>"
    with io show ?thesis by (intro that [where off = off and fl = "px_flags px"]) simp_all
  qed
qed

lemma uploading_flush:
  assumes "uploading U hc0 T (hc, px, e)" and "U \<noteq> hc_fd hc0" and flush: "flush_100 (hc, px, e) = (r, px', e')"
  shows "uploading U hc0 T (hc, px', e')"
proof (cases "px_fd px < 0")
  case True
  then show ?thesis using flush_100_keeps [OF flush] by simp
next
  case False
  obtain off fl where px': "px' = px\<lparr>px_cont_off := off, px_flags := fl\<rparr>" "fl - {PX_SEND_100} = px_flags px - {PX_SEND_100}"
    and io: "only_sends (hc_fd hc) e e'" using flush by (rule flush_100_on)
  have "PX_REUSED \<in> fl \<longleftrightarrow> PX_REUSED \<in> px_flags px" using px'(2) by blast
  moreover have "k_sent e' U = k_sent e U" "stream e' (hc_fd hc) = stream e (hc_fd hc)"
    using io assms(1,2) False by (auto simp: only_sends_def stream_def)
  moreover from this have "req_rest (hc, px', e') = req_rest (hc, px, e)" unfolding px'(1) by (simp add: req_rest.simps)
  ultimately show ?thesis using assms(1) unfolding px'(1) by simp
qed

lemma uploading_round:
  assumes inv: "uploading U hc0 T (hc, px, e)" and U: "U \<noteq> hc_fd hc0" and open_fd: "0 \<le> px_fd px"
  shows "round_ok (uploading U hc0 T) (pump_round now b (hc, px, e))"
proof -
  obtain r px1 e1 where flush: "flush_100 (hc, px, e) = (r, px1, e1)" by (cases "flush_100 (hc, px, e)")
  have up: "uploading U hc0 T (hc, px1, e1)" by (rule uploading_flush [OF inv U flush])
  have fd: "0 \<le> px_fd px1" using flush_100_keeps [OF flush] open_fd by simp
  have later: "round_ok (uploading U hc0 T) r'" if "round_ok (uploaded U hc0 T) r'" for r' :: "'a round"
    using that uploaded_uploading by (rule round_ok_mono)
  have phases: "round_ok (uploading U hc0 T) (pump_phase now b (hc, px1, e1))"
  proof (cases "px_phase px1")
    case PX_SEND_REQ
    then show ?thesis using uploading_send_req [OF up _ U fd] by (simp add: pump_phase_def)
  next
    case PX_SEND_BODY
    then show ?thesis using uploading_send_body [OF up _ U fd] by (simp add: pump_phase_def)
  next
    case PX_RECV_HDR
    with up have "uploaded U hc0 T (hc, px1, e1)" by (subst (asm) uploaded_iff) simp_all
    from later [OF uploaded_recv_hdr [OF this PX_RECV_HDR fd]] PX_RECV_HDR show ?thesis by (simp add: pump_phase_def)
  next
    case PX_SEND_RESP
    with up have "uploaded U hc0 T (hc, px1, e1)" by (subst (asm) uploaded_iff) simp_all
    from later [OF uploaded_send_resp [OF this PX_SEND_RESP U]] PX_SEND_RESP show ?thesis by (simp add: pump_phase_def)
  next
    case PX_STREAM
    with up have "uploaded U hc0 T (hc, px1, e1)" by (subst (asm) uploaded_iff) simp_all
    from later [OF uploaded_stream [OF this PX_STREAM U]] PX_STREAM show ?thesis by (simp add: pump_phase_def)
  next
    case PX_NONE
    then show ?thesis by (simp add: pump_phase_def)
  qed
  have "round_ok (uploading U hc0 T) (Inl (pump_budget_out now (hc, px1, e1)))"
    using budget_out_yields [of now "(hc, px1, e1)"] round_ok_yield [OF up] by auto
  then show ?thesis using flush phases round_ok_leave [of "uploading U hc0 T", OF up]
    by (cases r) (simp_all add: pump_round_def del: uploading.simps)
qed

lemma uploading_step:
  assumes "pump_step s s'" and "uploading U hc0 T s" and "U \<noteq> hc_fd hc0"
  shows "uploading U hc0 T s'"
  using assms
proof (induction rule: pump_step.induct)
  case (round px now_ms budget hc e budget' s')
  from uploading_round [OF round.prems round.hyps(1), of now_ms budget] round.hyps(2) show ?case by simp
next
  case (yield px now_ms budget hc e io s')
  from uploading_round [OF yield.prems yield.hyps(1), of now_ms budget] yield.hyps(2-4) show ?case
    by (simp add: round_ok_def)
next
  case (others hc px e e')
  show ?case
  proof (cases "px_fd px < 0")
    case False
    then have "k_sent e' U = k_sent e U" "stream e' (hc_fd hc) = stream e (hc_fd hc)"
      using others by (auto simp: quiet_def stream_def)
    moreover from this have "req_rest (hc, px, e') = req_rest (hc, px, e)" by (simp add: req_rest.simps)
    ultimately show ?thesis using others.prems by simp
  qed simp
qed

lemma uploading_steps:
  "pump_step\<^sup>*\<^sup>* s s' \<Longrightarrow> uploading U hc0 T s \<Longrightarrow> U \<noteq> hc_fd hc0 \<Longrightarrow> uploading U hc0 T s'"
  by (induction rule: rtranclp_induct) (auto intro: uploading_step simp del: uploading.simps)

lemma closed_steps:
  "pump_step\<^sup>*\<^sup>* s s' \<Longrightarrow> px_fd (fst (snd s)) < 0 \<Longrightarrow> px_fd (fst (snd s')) < 0"
  by (induction rule: rtranclp_induct) (auto elim: pump_step.cases)

text \<open>The body the request has: what came with the head, then what is read.\<close>

lemma body_bytes:
  assumes "unat (req_header_bytes (hc_req hc)) \<le> length (hc_buf hc)"
  shows "bslice (hc_buf hc) (unat (req_header_bytes (hc_req hc))) (unat (req_header_bytes (hc_req hc)) + body_have hc)
      @ take (body_need hc - body_have hc) S
    = take (body_need hc) (drop (unat (req_header_bytes (hc_req hc))) (hc_buf hc) @ S)"
  using assms by (auto simp: bslice_def body_have_def body_need_def Let_def min_def)

text \<open>\<open>proxy_begin\<close> on a new connection: the first state of the exchange.\<close>

lemma proxy_begin_fresh:
  assumes run: "proxy_begin upstream now (hc, px, e) = (io, s')" and io: "io \<noteq> IO_DONE" "io \<noteq> IO_CLOSE"
    and closed: "px_fd px < 0" and fresh: "fst (proxy_pool_take upstream e) < 0"
    and hdrs: "unat (req_header_bytes (hc_req hc)) \<le> length (hc_buf hc)"
  obtains "px_fd (fst (snd s')) < 0"
  | hdr s0 where "rewrite_request (hc_buf hc) (unat (req_header_bytes (hc_req hc))) = Some hdr" "pump_step\<^sup>*\<^sup>* s0 s'"
      "px_fd (fst (snd s0)) \<in> set (k_sockets e)"
      "\<And>U. px_fd (fst (snd s0)) = U \<Longrightarrow> uploading U hc (k_sent e U @ hdr @ take (body_need hc)
          (drop (unat (req_header_bytes (hc_req hc))) (hc_buf hc) @ stream e (hc_fd hc))) s0"
proof (cases "px_fd (fst (snd s')) < 0")
  case open_end: False
  let ?hdrs = "unat (req_header_bytes (hc_req hc))"
  let ?px = "\<lambda>hdr. (proxy_conn_reset px)\<lparr>px_up_addr := upstream,
               px_flags := (if expects_continue (hc_buf hc) (hc_req hc) then {PX_SEND_100} else {}),
               px_body_off := ?hdrs, px_body_end := ?hdrs + body_have hc, px_body_left := body_need hc - body_have hc,
               px_hdr := hdr\<rparr>"
  obtain fd0 e1 where pool: "proxy_pool_take upstream e = (fd0, e1)" by (cases "proxy_pool_take upstream e")
  have fd0: "fd0 < 0" "same_io e e1" "k_sockets e1 = k_sockets e"
    using pool fresh by (auto simp: proxy_pool_take_def same_io_def split: option.splits)
  obtain fd e2 where sock: "sys_socket e1 = (fd, e2)" by (cases "sys_socket e1")
  have e2: "same_io e e2" using sock fd0(2) by (auto simp: sys_socket_def same_io_def split: list.splits)
  have take: "take_or_socket (?px hdr, e) =
      (if fd < 0 then (False, ?px hdr, e2) else (True, (?px hdr)\<lparr>px_fd := fd\<rparr>, e2))" for hdr
    using pool sock fd0 by (simp add: take_or_socket_def proxy_conn_reset_def)
  obtain hdr where hdr: "rewrite_request (hc_buf hc) ?hdrs = Some hdr" "0 \<le> fd"
    and req: "\<not> (req_method (hc_req hc) \<noteq> METHOD_GET \<and> req_method (hc_req hc) \<noteq> METHOD_HEAD \<and> req_method (hc_req hc) \<noteq> METHOD_POST)"
      "\<not> (req_method (hc_req hc) = METHOD_POST \<and> \<not> has_flag (hc_req hc) HTTP_FLAG_CONTENT_LENGTH)"
  proof -
    have "(px_fd (fst (snd s')) < 0) = (px_fd (fst (snd (snd (proxy_begin upstream now (hc, px, e))))) < 0)" using run by simp
    with open_end closed that show thesis
      using take by (auto simp: proxy_begin_def Let_def proxy_conn_reset_def split: if_splits option.splits)
  qed
  define b1 where "b1 = (?px hdr)\<lparr>px_fd := fd\<rparr>"
  have took: "take_or_socket (?px hdr, e) = (True, b1, e2)" using take [of hdr] hdr(2) by (simp add: b1_def)
  have start: "proxy_begin upstream now (hc, px, e) =
      (let p = b1\<lparr>px_phase := PX_SEND_REQ\<rparr>
       in case (if body_pending p then cork_up True (p, e2) else (p, e2)) of
           (p, e) \<Rightarrow>
             (case (if PX_REUSED \<in> px_flags p then (True, e) else sys_connect e) of
                (False, e) \<Rightarrow> proxy_fail now (hc, p, e)
              | (True, e) \<Rightarrow> proxy_pump now (hc\<lparr>hc_keep := False, hc_deadline := now + hc_send_timeout hc\<rparr>, p, e)))"
    unfolding proxy_begin_def Let_def prod.case if_not_P [OF req(1)] if_not_P [OF req(2)] hdr(1) option.case took bool.case
    by (rule refl)
  define px2 where "px2 = b1\<lparr>px_phase := PX_SEND_REQ\<rparr>"
  obtain px3 e3 where cork: "(if body_pending px2 then cork_up True (px2, e2) else (px2, e2)) = (px3, e3)"
    by (cases "if body_pending px2 then cork_up True (px2, e2) else (px2, e2)")
  have px2: "px_fd px2 = fd" "px_phase px2 = PX_SEND_REQ" "PX_REUSED \<notin> px_flags px2" "px_buf px2 = []" "px_buf_off px2 = 0"
    "px_hdr px2 = hdr" "px_hdr_off px2 = 0" "px_body_off px2 = ?hdrs" "px_body_end px2 = ?hdrs + body_have hc"
    "px_body_left px2 = body_need hc - body_have hc"
    by (simp_all add: px2_def b1_def proxy_conn_reset_def)
  have px3: "px_fd px3 = fd" "px_phase px3 = PX_SEND_REQ" "PX_REUSED \<notin> px_flags px3" "px_buf px3 = []" "px_buf_off px3 = 0"
    "px_hdr px3 = hdr" "px_hdr_off px3 = 0" "px_body_off px3 = ?hdrs" "px_body_end px3 = ?hdrs + body_have hc"
    "px_body_left px3 = body_need hc - body_have hc"
    using cork cork_up_keeps [of True px2 e2 px3 e3] px2 by (auto split: if_splits)
  have e3: "same_io e e3" using cork cork_up_io [of True px2 e2 px3 e3] e2 by (auto intro: same_io_trans split: if_splits)
  obtain ok e4 where conn: "sys_connect e3 = (ok, e4)" by (cases "sys_connect e3")
  have e4: "same_io e e4" using conn e3 by (auto simp: sys_connect_def same_io_def split: list.splits)
  let ?s0 = "(hc\<lparr>hc_keep := False, hc_deadline := now + hc_send_timeout hc\<rparr>, px3, e4)"
  have "proxy_begin upstream now (hc, px, e) = (if ok then proxy_pump now ?s0 else proxy_fail now (hc, px3, e4))"
    using cork conn px3(3) unfolding start Let_def px2_def [symmetric] by (cases ok) simp_all
  with run open_end have "proxy_pump now ?s0 = (io, s')"
    by (cases ok; cases "proxy_fail now (hc, px3, e4)") (auto dest: proxy_fail_closes)
  then have steps: "pump_step\<^sup>*\<^sup>* ?s0 s'" using io by (rule proxy_pump_steps)
  have "body_have hc \<le> length (hc_buf hc) - ?hdrs" by (simp add: body_have_def Let_def)
  then have len: "?hdrs + body_have hc \<le> length (hc_buf hc)" using hdrs by simp
  have same: "k_sent e4 = k_sent e" "stream e4 (hc_fd hc) = stream e (hc_fd hc)" using e4 by (auto simp: same_io_def stream_def)
  have "uploading U hc (k_sent e U @ hdr @ take (body_need hc) (drop ?hdrs (hc_buf hc) @ stream e (hc_fd hc))) ?s0"
    if "px_fd (fst (snd ?s0)) = U" for U
    using that px3 len same body_bytes [OF hdrs] by (simp add: req_rest.simps)
  moreover have "px_fd (fst (snd ?s0)) \<in> set (k_sockets e)"
    using sock fd0(3) hdr(2) px3(1) by (auto simp: sys_socket_def split: list.splits)
  ultimately show thesis using steps hdr(1) by (intro that(2)) auto
qed (use that in blast)

text \<open>
  C28. The upstream gets the request exactly once, whatever the sizes of the reads and writes. Take a
  request that \<open>proxy_begin\<close> sends on a new connection, and any later moment, over any number of
  calls of \<open>proxy_pump\<close> and whatever the other slots do between them, at which the exchange is still
  open. What the upstream has been sent, followed by what the slot still has to send, is the rewritten
  head and then as many body bytes as \<open>Content-Length\<close> says: first those that came with the head,
  then those the client sends. When the response is awaited, nothing is left to send.
\<close>

theorem upload_exact:
  fixes e e' :: "'a proxy_env_scheme"
  assumes "proxy_begin upstream now (hc, px, e) = (io, s1)" and "io \<noteq> IO_DONE" and "io \<noteq> IO_CLOSE"
    and "px_fd px < 0" and "fst (proxy_pool_take upstream e) < 0"
    and "unat (req_header_bytes (hc_req hc)) \<le> length (hc_buf hc)"
    and "pump_step\<^sup>*\<^sup>* s1 (hc', px', e')" and "0 \<le> px_fd px'" and "hc_fd hc \<notin> set (k_sockets e)"
  shows "\<exists>head. rewrite_request (hc_buf hc) (unat (req_header_bytes (hc_req hc))) = Some head
    \<and> (let request = head @ take (body_need hc) (drop (unat (req_header_bytes (hc_req hc))) (hc_buf hc) @ stream e (hc_fd hc))
       in k_sent e' (px_fd px') @ req_rest (hc', px', e') = k_sent e (px_fd px') @ request
          \<and> (px_phase px' \<in> {PX_RECV_HDR, PX_SEND_RESP, PX_STREAM} \<longrightarrow>
              k_sent e' (px_fd px') = k_sent e (px_fd px') @ request))"
  using proxy_begin_fresh [OF assms(1-6)]
proof cases
  case 1
  with closed_steps [OF assms(7)] assms(8) show ?thesis by simp
next
  case (2 head s0)
  define U where "U = px_fd (fst (snd s0))"
  define request where "request = head @ take (body_need hc) (drop (unat (req_header_bytes (hc_req hc))) (hc_buf hc) @ stream e (hc_fd hc))"
  have "U \<noteq> hc_fd hc" using 2(3) assms(9) U_def by auto
  moreover have "pump_step\<^sup>*\<^sup>* s0 (hc', px', e')" using 2(2) assms(7) by (rule rtranclp_trans)
  ultimately have inv: "uploading U hc (k_sent e U @ request) (hc', px', e')"
    using uploading_steps 2(4) unfolding U_def request_def by blast
  then have U: "px_fd px' = U" "k_sent e' U @ req_rest (hc', px', e') = k_sent e U @ request" using assms(8) by auto
  moreover have "req_rest (hc', px', e') = []" if "px_phase px' \<in> {PX_RECV_HDR, PX_SEND_RESP, PX_STREAM}"
    using that by (auto simp: req_rest.simps)
  ultimately have "k_sent e' (px_fd px') @ req_rest (hc', px', e') = k_sent e (px_fd px') @ request
      \<and> (px_phase px' \<in> {PX_RECV_HDR, PX_SEND_RESP, PX_STREAM} \<longrightarrow> k_sent e' (px_fd px') = k_sent e (px_fd px') @ request)"
    by auto
  then show ?thesis using 2(1) unfolding request_def Let_def by blast
qed

text \<open>Five body bytes, two of which came with the head; the head goes out in two pieces.\<close>

definition post_bytes :: "byte list" where
  "post_bytes = bytes ''POST / HTTP/1.1'' @ [CR, LF, CR, LF] @ bytes ''he''"

definition post_conn :: http_conn where
  "post_conn = http_conn0\<lparr>hc_buf := post_bytes,
     hc_req := http_request0\<lparr>req_method := METHOD_POST, req_minor_version := 1, req_header_bytes := 19,
       req_content_length := 5, req_flags := HTTP_FLAG_CONTENT_LENGTH\<rparr>\<rparr>"

definition post_head :: "byte list" where
  "post_head = bytes ''POST / HTTP/1.1'' @ [CR, LF] @ CONNECTION_KEEP"

definition post_env :: proxy_env where
  "post_env = proxy_env0\<lparr>k_sockets := [9], k_reads := (\<lambda>_. [])(5 := [Rd (bytes ''ll''), Rd_Intr, Rd (bytes ''o'')]),
     k_writes := (\<lambda>_. [])(9 := [Wr 10, Wr_Intr, Wr 100, Wr 100, Wr 100, Wr 100])\<rparr>"

lemma post_rewrite: "rewrite_request post_bytes 19 = Some post_head"
  by (simp add: rewrite_request_def post_bytes_def bytes_def append_bytes_def post_head_def request_lines.simps
      CONNECTION_KEEP_def PROXY_HDR_MAX_def)

lemma length_post_head: "length post_head = 43"
  by (simp add: post_head_def CONNECTION_KEEP_def bytes_def)

definition px_conn0 :: proxy_conn where
  "px_conn0 = \<lparr>chunk_state = CH_SIZE, saw_digit = False, chunk_size = 0, px_fd = - 1, px_phase = PX_NONE, px_armed = IO_DONE,
     px_in_epoll = False, px_cont_off = 0, px_flags = {}, px_status = 0, px_up_addr = [], px_hdr = [], px_hdr_off = 0,
     px_buf = [], px_buf_off = 0, px_body_off = 0, px_body_end = 0, px_body_left = 0, px_resp_left = 0\<rparr>"

lemma find_hdr_end_Nil: "find_hdr_end [] = None"
  by (simp add: find_hdr_end_def)

lemmas pump_evals = pump_loop.simps pump_round_def pump_phase_def pump_send_req_def pump_send_body_def pump_recv_hdr_def
  pump_send_resp_def pump_stream_def pump_budget_out_def flush_100_def progressed_def touch_def start_recv_def cork_up_def
  body_pending_def yield_or_fail_def yield_up_def arm_up_def sock_read_def PROXY_BUF_MAX_def find_hdr_end_Nil Let_def

lemma post_conn_fields:
  "hc_fd post_conn = 5" "hc_buf post_conn = post_bytes" "req_method (hc_req post_conn) = METHOD_POST"
  "req_flags (hc_req post_conn) = 8" "req_header_bytes (hc_req post_conn) = 19"
  "req_content_length (hc_req post_conn) = 5" "\<not> expects_continue post_bytes (hc_req post_conn)"
  "hc_send_timeout post_conn = 30000" "length post_bytes = 21"
  by (simp_all add: post_conn_def http_conn0_def has_flag_def http_flag_defs expects_continue_def http_request0_def slice0_def
      slice_of_def expect_loop.simps post_bytes_def bytes_def bslice_def)

lemma upload_exact_witness:
  "\<exists>io hc' px' e'. proxy_begin [1] 0 (post_conn, px_conn0, post_env) = (io, hc', px', e')
    \<and> px_phase px' = PX_RECV_HDR \<and> px_fd px' = 9 \<and> k_sent e' 9 = post_head @ bytes ''hello''"
proof -
  obtain io hc' px' e' where run: "proxy_begin [1] 0 (post_conn, px_conn0, post_env) = (io, hc', px', e')"
    by (cases "proxy_begin [1] 0 (post_conn, px_conn0, post_env)")
  let ?px = "px_conn0\<lparr>px_fd := 9, px_up_addr := [1], px_hdr := post_head, px_body_off := 19, px_body_end := 21, px_body_left := 3,
    px_phase := PX_SEND_REQ, px_flags := {PX_CORK}\<rparr>"
  have "proxy_begin [1] 0 (post_conn, px_conn0, post_env) =
      proxy_pump 0 (post_conn\<lparr>hc_keep := False, hc_deadline := 30000\<rparr>, ?px, post_env\<lparr>k_sockets := []\<rparr>)"
    by (simp add: proxy_begin_def post_conn_fields body_have_def body_need_def Let_def post_rewrite take_or_socket_def
       post_env_def proxy_env0_def body_pending_def cork_up_def evals proxy_conn_reset_def px_conn0_def)
  moreover have "\<exists>hc' px' e'. proxy_pump 0 (post_conn\<lparr>hc_keep := False, hc_deadline := 30000\<rparr>, ?px, post_env\<lparr>k_sockets := []\<rparr>) =
     (IO_IDLE, hc', px', e') \<and> px_phase px' = PX_RECV_HDR \<and> px_fd px' = 9"
    by (simp add: proxy_pump_def pump_evals evals length_post_head post_conn_fields px_conn0_def post_env_def proxy_env0_def)
  ultimately have ev: "io = IO_IDLE \<and> px_phase px' = PX_RECV_HDR \<and> px_fd px' = 9"
    using run by auto
  have "fst (proxy_pool_take [1] post_env) < 0" "hc_fd post_conn \<notin> set (k_sockets post_env)"
    "stream post_env (hc_fd post_conn) = bytes ''llo''" "k_sent post_env 9 = []" "px_fd px_conn0 < 0"
    by (simp_all add: post_env_def proxy_env0_def px_conn0_def post_conn_fields stream_def evals)
  moreover have "drop 19 post_bytes = bytes ''he''" "body_need post_conn = 5"
    by (simp_all add: post_bytes_def bytes_def body_need_def post_conn_fields has_flag_def http_flag_defs)
  ultimately have "k_sent e' 9 = post_head @ bytes ''hello''"
    using upload_exact [OF run, of hc' px' e'] ev post_rewrite by (simp add: post_conn_fields Let_def bytes_def)
  with run ev show ?thesis by blast
qed

end
