(* ===== verification/Proxy_Budget.thy ===== *)
theory Proxy_Budget
  imports Proxy_Relay
begin

text \<open>
  What one call of \<open>proxy_pump\<close> may do before it returns to the event loop: at most sixteen rounds that
  move data (and one \<open>100 Continue\<close>), and a bounded number of others. Nothing here depends on the
  length of the scripts of answers.
\<close>

section \<open>Rounds that move data\<close>

text \<open>No byte has been sent, and no byte has been taken from a stream.\<close>

definition no_data :: "'a kernel_scheme \<Rightarrow> 'a kernel_scheme \<Rightarrow> bool" where
  "no_data k k' = (k_sent k' = k_sent k \<and> (\<forall>fd. stream k' fd = stream k fd))"

lemma no_data_refl [simp]: "no_data k k"
  by (simp add: no_data_def)

lemma no_data_trans: "no_data k k' \<Longrightarrow> no_data k' k'' \<Longrightarrow> no_data k k''"
  by (simp add: no_data_def)

lemma same_io_no_data: "same_io k k' \<Longrightarrow> no_data k k'"
  by (simp add: same_io_def no_data_def stream_def)

lemma only_sends_no_data: "only_sends fd k k' \<Longrightarrow> k_sent k' fd = k_sent k fd \<Longrightarrow> no_data k k'"
  by (auto simp: only_sends_def no_data_def stream_def fun_eq_iff)

lemma send_no_data:
  assumes "send_loop fd data off k = (r, off, k')"
  shows "no_data k k'"
proof (cases "off \<le> length data")
  case True
  with send_loop_exact [OF assms] show ?thesis by (intro only_sends_no_data) auto
next
  case False
  with assms show ?thesis by (simp add: send_loop.simps)
qed

lemma gathered_no_data:
  assumes "send_gathered (hc, px, e) = (r, px', e')"
    and "px_hdr_off px' = px_hdr_off px" and "px_buf_off px' = px_buf_off px"
  shows "no_data e e'"
  using send_gathered_on [OF assms(1)] assms(2,3) by (intro only_sends_no_data) auto

lemma read_no_data:
  assumes "sock_read fd buf cap k = (r, buf', k')" and "length buf' = length buf"
  shows "no_data k k'"
proof -
  obtain bs where bs: "buf' = buf @ bs" "stream k fd = bs @ stream k' fd" "k_sent k' = k_sent k"
    "\<forall>f. f \<noteq> fd \<longrightarrow> k_reads k' f = k_reads k f"
    using sock_read_stream [OF assms(1)] by blast
  then have "stream k' f = stream k f" for f
    using assms(2) by (cases "f = fd") (auto intro: stream_same)
  with bs(3) show ?thesis by (simp add: no_data_def)
qed

lemma reopen_no_data: "proxy_reopen (px, e) = (ok, px', e') \<Longrightarrow> no_data e e'"
proof -
  assume run: "proxy_reopen (px, e) = (ok, px', e')"
  have sys: "same_io k (sys_close fd k)" "sys_socket k = (fd', k') \<Longrightarrow> same_io k k'" "sys_connect k = (ok', k') \<Longrightarrow> same_io k k'"
    for k k' :: "'a proxy_env_scheme" and fd fd' ok'
    by (auto simp: same_io_def sys_close_def sys_socket_def sys_connect_def split: list.splits)
  define e0 where "e0 = (if px_fd px \<ge> 0 then sys_close (px_fd px) (uncork_fd px e) else e)"
  have e0: "same_io e e0" using same_io_trans [OF uncork_io sys(1)] by (simp add: e0_def)
  have "same_io e e'"
    using run e0 by (auto simp: proxy_reopen_def Let_def e0_def [symmetric] split: prod.splits if_splits
        dest!: sys(2,3) cork_up_io elim: same_io_trans intro: same_io_trans)
  then show ?thesis by (rule same_io_no_data)
qed

text \<open>
  A round either spends budget or moves no data, and no phase brings the flag of the pending
  \<open>100 Continue\<close> back.
\<close>

definition spends :: "nat \<Rightarrow> proxy_conn \<Rightarrow> 'a kernel_scheme \<Rightarrow> nat \<Rightarrow> proxy_conn \<Rightarrow> 'a kernel_scheme \<Rightarrow> bool" where
  "spends b px e b' px' e' = (b' \<le> b \<and> (b' < b \<or> no_data e e') \<and> (PX_SEND_100 \<in> px_flags px' \<longrightarrow> PX_SEND_100 \<in> px_flags px))"

lemma spendsI:
  assumes "b' \<le> b" and "b' = b \<Longrightarrow> no_data e e'" and "PX_SEND_100 \<in> px_flags px' \<Longrightarrow> PX_SEND_100 \<in> px_flags px"
  shows "spends b px e b' px' e'"
  using assms by (cases "b' = b") (auto simp: spends_def)

lemma recv_spends:
  assumes "start_recv (px1, e1) = (px', e')" and "px_flags px1 = px_flags px" and "b' \<le> b" and "b' = b \<Longrightarrow> no_data e e1"
  shows "spends b px e b' px' e'"
  using assms start_recv_effect [OF assms(1)] start_recv_keeps(1) [OF assms(1), of PX_SEND_100]
  by (intro spendsI) (auto intro: no_data_trans same_io_no_data)

lemma progressed_spends:
  "progressed m now b hc = (b', hc') \<Longrightarrow> 0 < b \<Longrightarrow> b' \<le> b \<and> (b' = b \<longrightarrow> \<not> m)"
  by (auto simp: progressed_def split: if_splits)

lemma reopen_flag_100: "proxy_reopen (px, e) = (ok, px', e') \<Longrightarrow> PX_SEND_100 \<in> px_flags px' \<longleftrightarrow> PX_SEND_100 \<in> px_flags px"
  by (auto simp: proxy_reopen_def Let_def split: if_splits prod.splits dest!: cork_up_keeps)

lemma send_req_spends:
  assumes run: "pump_send_req now b (hc, px, e) = Inr (b', hc', px', e')" and "0 < b"
  shows "spends b px e b' px' e'"
proof -
  have next_spends: "spends b px e b' px' e'"
    if "(if body_pending q then Inr (c, h, q\<lparr>px_phase := PX_SEND_BODY\<rparr>, e1) else Inr (c, h, start_recv (q, e1)))
        = (Inr (b', hc', px', e') :: 'a round)"
      and "px_flags q = px_flags px" "c \<le> b" "c = b \<Longrightarrow> no_data e e1" for c h q e1
    using that recv_spends [of q e1 px' e' px b' b e] by (auto split: if_splits intro: spendsI)
  show ?thesis
  proof (cases "px_hdr_off px < length (px_hdr px)")
    case False
    then show ?thesis using run next_spends [of px b hc e] by (simp add: pump_send_req_def Let_def)
  next
    case True
    obtain r off e1 where send: "send_loop (px_fd px) (px_hdr px) (px_hdr_off px) e = (r, off, e1)"
      by (cases "send_loop (px_fd px) (px_hdr px) (px_hdr_off px) e")
    obtain b1 h where prog: "progressed (off \<noteq> px_hdr_off px) now b hc = (b1, h)"
      by (cases "progressed (off \<noteq> px_hdr_off px) now b hc")
    have still: "no_data e e1" if "off = px_hdr_off px" using send_no_data [of "px_fd px" "px_hdr px" off e r e1] send that by simp
    show ?thesis
    proof (cases "r = Send_Dead")
      case dead: True
      have le: "px_hdr_off px \<le> off" using send_loop_exact [OF send] True by simp
      obtain ok q e2 where re: "proxy_reopen (px\<lparr>px_hdr_off := off\<rparr>, e1) = (ok, q, e2)"
        by (cases "proxy_reopen (px\<lparr>px_hdr_off := off\<rparr>, e1)")
      have "off = 0 \<and> b' = b \<and> px' = q \<and> e' = e2" using run True dead send re
        by (auto simp: pump_send_req_def Let_def split: if_splits bool.splits)
      then show ?thesis using still le reopen_no_data [OF re] reopen_flag_100 [OF re]
        by (intro spendsI) (auto intro: no_data_trans)
    next
      case False
      then have "(if body_pending (px\<lparr>px_hdr_off := off\<rparr>) then Inr (b1, h, px\<lparr>px_hdr_off := off\<rparr>\<lparr>px_phase := PX_SEND_BODY\<rparr>, e1)
          else Inr (b1, h, start_recv (px\<lparr>px_hdr_off := off\<rparr>, e1))) = (Inr (b', hc', px', e') :: 'a round)"
        using run True send prog by (simp add: pump_send_req_def Let_def split: if_splits)
      then show ?thesis
        by (rule next_spends) (use progressed_spends [OF prog assms(2)] still in auto)
    qed
  qed
qed

lemma send_body_spends:
  assumes run: "pump_send_body now b (hc, px, e) = Inr (b', hc', px', e')" and "0 < b"
  shows "spends b px e b' px' e'"
proof -
  consider (buffered) "px_buf_off px < length (px_buf px)"
    | (body) "\<not> px_buf_off px < length (px_buf px)" "px_body_off px < px_body_end px"
    | (unread) "\<not> px_buf_off px < length (px_buf px)" "\<not> px_body_off px < px_body_end px" "0 < px_body_left px"
    | (over) "\<not> px_buf_off px < length (px_buf px)" "\<not> px_body_off px < px_body_end px" "\<not> 0 < px_body_left px"
    by blast
  then show ?thesis
  proof cases
    case buffered
    obtain r off e1 where send: "send_loop (px_fd px) (px_buf px) (px_buf_off px) e = (r, off, e1)"
      by (cases "send_loop (px_fd px) (px_buf px) (px_buf_off px) e")
    obtain b1 h where prog: "progressed (off \<noteq> px_buf_off px) now b hc = (b1, h)"
      by (cases "progressed (off \<noteq> px_buf_off px) now b hc")
    show ?thesis using run buffered send prog progressed_spends [OF prog assms(2)] send_no_data
      by (intro spendsI) (auto simp: pump_send_body_def split: if_splits)
  next
    case body
    let ?data = "take (px_body_end px) (hc_buf hc)"
    obtain r off e1 where send: "send_loop (px_fd px) ?data (px_body_off px) e = (r, off, e1)"
      by (cases "send_loop (px_fd px) ?data (px_body_off px) e")
    obtain b1 h where prog: "progressed (off \<noteq> px_body_off px) now b hc = (b1, h)"
      by (cases "progressed (off \<noteq> px_body_off px) now b hc")
    show ?thesis using run body send prog progressed_spends [OF prog assms(2)] send_no_data
      by (intro spendsI) (auto simp: pump_send_body_def split: if_splits)
  next
    case unread
    then show ?thesis using run assms(2)
      by (intro spendsI) (auto simp: pump_send_body_def Let_def split: if_splits prod.splits)
  next
    case over
    then have "start_recv (px, e) = (px', e')" "b' = b" using run by (auto simp: pump_send_body_def)
    then show ?thesis using recv_spends [of px e px' e' px b' b e] by simp
  qed
qed

lemma rewrite_flag_100:
  "rewrite_response req px src = Some (info, px') \<Longrightarrow> PX_SEND_100 \<in> px_flags px' \<longleftrightarrow> PX_SEND_100 \<in> px_flags px"
  by (auto simp: rewrite_response_def response_connection_def response_framing_def response_reset_def Let_def
      split: option.splits if_splits dest!: response_lines_flags [where f = PX_SEND_100])

lemma note_flag_100:
  "note_body px n = Some px' \<Longrightarrow> PX_SEND_100 \<in> px_flags px' \<longleftrightarrow> PX_SEND_100 \<in> px_flags px"
  by (auto simp: note_body_def Let_def split: if_splits prod.splits dest: chunk_feed_more)

lemma response_spends:
  assumes run: "pump_response now at b (hc, px, e) = Inr (b', hc', px', e')"
  shows "b' = b \<and> e' = e \<and> (PX_SEND_100 \<in> px_flags px' \<longrightarrow> PX_SEND_100 \<in> px_flags px)"
proof -
  obtain info px1 where rw: "rewrite_response (hc_req hc) px (take (at + 4) (px_buf px)) = Some (info, px1)"
    using run by (cases "rewrite_response (hc_req hc) px (take (at + 4) (px_buf px))") (auto simp: pump_response_def)
  show ?thesis using run rw rewrite_flag_100 [OF rw]
    by (auto simp: pump_response_def Let_def split: if_splits option.splits dest: note_flag_100)
qed

lemma retry_spends:
  assumes "retry_or_fail now b (hc, px, e) = Inr (b', hc', px', e')"
  shows "b' = b \<and> no_data e e' \<and> (PX_SEND_100 \<in> px_flags px' \<longrightarrow> PX_SEND_100 \<in> px_flags px)"
proof -
  have "\<exists>px1. proxy_reopen (px, e) = (True, px1, e') \<and> px_flags px' = px_flags px1 \<and> b' = b"
    using assms by (auto simp: retry_or_fail_def proxy_retry_idle_def split: if_splits prod.splits bool.splits)
  then show ?thesis using reopen_no_data reopen_flag_100 by metis
qed

lemma recv_hdr_spends:
  assumes run: "pump_recv_hdr now b (hc, px, e) = Inr (b', hc', px', e')" and "0 < b"
  shows "spends b px e b' px' e'"
proof (cases "find_hdr_end (px_buf px)")
  case (Some at)
  with run have "pump_response now at b (hc, px, e) = Inr (b', hc', px', e')" by (simp add: pump_recv_hdr_def)
  from response_spends [OF this] show ?thesis by (intro spendsI) auto
next
  case None
  obtain r buf e1 where read: "sock_read (px_fd px) (px_buf px) PROXY_BUF_MAX e = (r, buf, e1)"
    by (cases "sock_read (px_fd px) (px_buf px) PROXY_BUF_MAX e")
  have room: "length (px_buf px) < PROXY_BUF_MAX" using run None by (auto simp: pump_recv_hdr_def split: if_splits)
  note still = read_no_data [OF read]
  have retried: "?thesis" if "retry_or_fail now b (hc, px, e1) = Inr (b', hc', px', e')" "length buf = length (px_buf px)"
    using retry_spends [OF that(1)] still that(2) by (intro spendsI) (auto intro: no_data_trans)
  show ?thesis
  proof (cases r)
    case SR_Retry
    then have "buf = px_buf px" using sock_read_retry [of "px_fd px" "px_buf px" PROXY_BUF_MAX e buf e1] read by simp
    then show ?thesis using run None room read SR_Retry still
      by (intro spendsI) (auto simp: pump_recv_hdr_def)
  next
    case SR_Err
    then have "buf = px_buf px" using read room by (auto simp: sock_read_def split: prod.splits read_answer.splits)
    then show ?thesis using run None room read retried SR_Err by (simp add: pump_recv_hdr_def)
  next
    case (SR_Ok again eof)
    show ?thesis
    proof (cases "length buf = length (px_buf px)")
      case True
      then show ?thesis using run None room read SR_Ok retried by (simp add: pump_recv_hdr_def split: if_splits)
    next
      case False
      show ?thesis
      proof (cases "find_hdr_end buf")
        case None2: None
        then show ?thesis using run None room read SR_Ok False assms(2)
          by (intro spendsI) (auto simp: pump_recv_hdr_def Let_def split: if_splits)
      next
        case (Some at)
        then have "pump_response now at (b - 1) (touch now hc, px\<lparr>px_buf := buf\<rparr>, e1) = Inr (b', hc', px', e')"
          using run None room read SR_Ok False by (simp add: pump_recv_hdr_def Let_def)
        from response_spends [OF this] assms(2) show ?thesis by (intro spendsI) auto
      qed
    qed
  qed
qed

lemma mark_sent_flag_100 [simp]: "PX_SEND_100 \<in> px_flags (mark_sent m px) \<longleftrightarrow> PX_SEND_100 \<in> px_flags px"
  by (simp add: mark_sent_def)

lemma send_resp_spends:
  assumes run: "pump_send_resp now b (hc, px, e) = Inr (b', hc', px', e')" and "0 < b"
  shows "spends b px e b' px' e'"
proof (cases "PX_BODY_DONE \<in> px_flags px")
  case True
  obtain r px1 e1 where send: "send_gathered (hc, px, e) = (r, px1, e1)" by (cases "send_gathered (hc, px, e)")
  let ?moved = "px_hdr_off px1 \<noteq> px_hdr_off px \<or> px_buf_off px1 \<noteq> px_buf_off px"
  obtain b1 hc1 where prog: "progressed ?moved now b hc = (b1, hc1)" by (cases "progressed ?moved now b hc")
  have "b' = b1 \<and> px' = mark_sent ?moved px1 \<and> e' = e1"
    using run True send prog by (auto simp: pump_send_resp_def Let_def split: if_splits)
  then show ?thesis using progressed_spends [OF prog assms(2)] gathered_no_data [OF send] send_gathered_keeps [OF send]
    by (intro spendsI) auto
next
  case False
  obtain hc0 e0 where cork: "cork_client True (hc, e) = (hc0, e0)" by (cases "cork_client True (hc, e)")
  have e0: "no_data e e0" using cork_client_io [OF cork] by (simp add: same_io_no_data)
  show ?thesis
  proof (cases "px_hdr_off px < length (px_hdr px)")
    case no_hdr: False
    then show ?thesis using run False cork e0
      by (intro spendsI) (auto simp: pump_send_resp_def Let_def split: if_splits)
  next
    case True
    obtain r off e1 where send: "send_loop (hc_fd hc0) (px_hdr px) (px_hdr_off px) e0 = (r, off, e1)"
      by (cases "send_loop (hc_fd hc0) (px_hdr px) (px_hdr_off px) e0")
    let ?moved = "off \<noteq> px_hdr_off px"
    obtain b1 hc1 where prog: "progressed ?moved now b hc0 = (b1, hc1)" by (cases "progressed ?moved now b hc0")
    have "no_data e e1" if "off = px_hdr_off px"
      using e0 send_no_data [of "hc_fd hc0" "px_hdr px" off e0 r e1] send that by (auto intro: no_data_trans)
    moreover have "b' = b1 \<and> px' = (mark_sent ?moved (px\<lparr>px_hdr_off := off\<rparr>))\<lparr>px_phase := PX_STREAM\<rparr> \<and> e' = e1"
      using run False True cork send prog by (auto simp: pump_send_resp_def Let_def split: if_splits)
    ultimately show ?thesis using progressed_spends [OF prog assms(2)] by (intro spendsI) auto
  qed
qed

lemma stream_spends:
  assumes run: "pump_stream now b (hc, px, e) = Inr (b', hc', px', e')" and "0 < b"
  shows "spends b px e b' px' e'"
proof (cases "px_buf_off px < length (px_buf px)")
  case True
  obtain r off e1 where send: "send_loop (hc_fd hc) (px_buf px) (px_buf_off px) e = (r, off, e1)"
    by (cases "send_loop (hc_fd hc) (px_buf px) (px_buf_off px) e")
  let ?moved = "off \<noteq> px_buf_off px"
  obtain b1 h where prog: "progressed ?moved now b hc = (b1, h)" by (cases "progressed ?moved now b hc")
  have "b' = b1 \<and> px' = (mark_sent ?moved (px\<lparr>px_buf_off := off\<rparr>))\<lparr>px_buf_off := 0, px_buf := []\<rparr> \<and> e' = e1"
    using run True send prog by (auto simp: pump_stream_def Let_def split: if_splits)
  moreover have "no_data e e1" if "off = px_buf_off px"
    using send_no_data [of "hc_fd hc" "px_buf px" off e r e1] send that by simp
  ultimately show ?thesis using progressed_spends [OF prog assms(2)] by (intro spendsI) auto
next
  case False
  define cap where "cap = (if PX_RESP_CL \<in> px_flags px \<and> unat (px_resp_left px) < PROXY_BUF_MAX
      then unat (px_resp_left px) else PROXY_BUF_MAX)"
  obtain r buf e1 where read: "sock_read (px_fd px) [] cap e = (r, buf, e1)" by (cases "sock_read (px_fd px) [] cap e")
  have c: "PX_BODY_DONE \<notin> px_flags px" "cap \<noteq> 0"
    using run False by (auto simp: pump_stream_def cap_def [symmetric] Let_def split: if_splits)
  show ?thesis
  proof (cases r)
    case SR_Retry
    then have "b' = b \<and> px' = px\<lparr>px_buf_off := 0, px_buf := []\<rparr> \<and> e' = e1"
      using run False c read by (auto simp: pump_stream_def cap_def [symmetric] Let_def)
    moreover have "buf = []" using sock_read_retry [of "px_fd px" "[]" cap e buf e1] read SR_Retry by simp
    ultimately show ?thesis using read_no_data [OF read] by (intro spendsI) auto
  next
    case SR_Err
    then show ?thesis using run False c read by (simp add: pump_stream_def cap_def [symmetric] Let_def)
  next
    case (SR_Ok again eof)
    then have "b' = b - 1 \<and> note_body (px\<lparr>px_buf_off := 0, px_buf := buf\<rparr>) (length buf) = Some px'"
      using run False c read by (auto simp: pump_stream_def cap_def [symmetric] Let_def split: if_splits option.splits)
    then show ?thesis using assms(2) note_flag_100 [of "px\<lparr>px_buf_off := 0, px_buf := buf\<rparr>" "length buf" px']
      by (intro spendsI) auto
  qed
qed

lemma phase_spends:
  assumes "pump_phase now b (hc, px, e) = Inr (b', hc', px', e')" and "0 < b"
  shows "spends b px e b' px' e'"
  using assms send_req_spends send_body_spends recv_hdr_spends send_resp_spends stream_spends
  by (cases "px_phase px") (simp_all only: pump_phase_def prod.case px_phase.case sum.distinct)

text \<open>The budget, and the one \<open>100 Continue\<close> that is sent without it.\<close>

definition credit :: "nat \<Rightarrow> 'a pump \<Rightarrow> nat" where
  "credit b s = b + (if PX_SEND_100 \<in> px_flags (fst (snd s)) then 1 else 0)"

definition moves_data :: "'a pump \<Rightarrow> 'a pump \<Rightarrow> bool" where
  "moves_data s s' = (\<not> no_data (snd (snd s)) (snd (snd s')))"

lemma round_credit:
  assumes run: "pump_round now b s = Inr (b', s')"
  shows "b' \<le> b" "credit b' s' + (if moves_data s s' then 1 else 0) \<le> credit b s"
proof -
  obtain hc px e where s: "s = (hc, px, e)" by (cases s)
  obtain hc' px' e' where s': "s' = (hc', px', e')" by (cases s')
  obtain r px1 e1 where flush: "flush_100 (hc, px, e) = (r, px1, e1)" by (cases "flush_100 (hc, px, e)")
  have r: "r = Send_All" "0 < b" "pump_phase now b (hc, px1, e1) = Inr (b', hc', px', e')"
    using run flush unfolding s s' by (auto simp: pump_round_def split: send_end.splits if_splits)
  note sp = phase_spends [OF r(3,2), unfolded spends_def]
  then show "b' \<le> b" by simp
  show "credit b' s' + (if moves_data s s' then 1 else 0) \<le> credit b s"
  proof (cases "PX_SEND_100 \<in> px_flags px")
    case False
    then have "px1 = px \<and> e1 = e" using flush by (simp add: flush_100_def)
    then show ?thesis using sp False by (auto simp: s s' credit_def moves_data_def)
  next
    case True
    then have "PX_SEND_100 \<notin> px_flags px1"
      using flush r(1) by (auto simp: flush_100_def split: prod.splits send_end.splits)
    then show ?thesis using sp True by (auto simp: s s' credit_def moves_data_def)
  qed
qed

section \<open>Rounds that move no data\<close>

text \<open>
  A measure of the connection and the budget alone: every round lowers it, unless the read of the round
  was interrupted. A reused connection is given up once, and at most 8192 bytes of informational
  responses of at least 14 bytes each fit the buffer.
\<close>

definition pot :: "nat \<Rightarrow> proxy_conn \<Rightarrow> nat" where
  "pot b px = (if PX_REUSED \<in> px_flags px then 3 else 0) + b * 586 + phase_rank (px_phase px) + length (px_buf px) div 14"

text \<open>The next answer to a read of the upstream is \<open>EINTR\<close>, and it has been consumed.\<close>

definition interrupted :: "proxy_conn \<Rightarrow> 'a kernel_scheme \<Rightarrow> 'a kernel_scheme \<Rightarrow> bool" where
  "interrupted px e e' = (k_reads e (px_fd px) = Rd_Intr # k_reads e' (px_fd px))"

definition sinks :: "nat \<Rightarrow> proxy_conn \<Rightarrow> 'a kernel_scheme \<Rightarrow> nat \<Rightarrow> proxy_conn \<Rightarrow> 'a kernel_scheme \<Rightarrow> bool" where
  "sinks b px e b' px' e' = (length (px_buf px') \<le> PROXY_BUF_MAX
    \<and> pot b' px' < pot b px + (if interrupted px e e' then 1 else 0))"

lemma sinks_reused:
  assumes "PX_REUSED \<in> px_flags px" "PX_REUSED \<notin> px_flags px'" "b' \<le> b" "phase_rank (px_phase px') \<le> phase_rank (px_phase px) + 2"
    and "length (px_buf px') \<le> length (px_buf px)" "length (px_buf px) \<le> PROXY_BUF_MAX"
  shows "sinks b px e b' px' e'"
  using assms div_le_mono [OF assms(5), of 14] by (simp add: sinks_def pot_def)

lemma sinks_phase:
  assumes "PX_REUSED \<in> px_flags px' \<longrightarrow> PX_REUSED \<in> px_flags px" "b' \<le> b" "phase_rank (px_phase px') < phase_rank (px_phase px)"
    and "length (px_buf px') \<le> length (px_buf px)" "length (px_buf px) \<le> PROXY_BUF_MAX"
  shows "sinks b px e b' px' e'"
  using assms div_le_mono [OF assms(4), of 14] by (simp add: sinks_def pot_def)

lemma sinks_budget:
  assumes "PX_REUSED \<in> px_flags px' \<longrightarrow> PX_REUSED \<in> px_flags px" "b' < b" "phase_rank (px_phase px') \<le> phase_rank (px_phase px)"
    and "length (px_buf px') \<le> PROXY_BUF_MAX"
  shows "sinks b px e b' px' e'"
proof -
  have "length (px_buf px') div 14 \<le> 585" using div_le_mono [OF assms(4), of 14] by (simp add: PROXY_BUF_MAX_def)
  moreover have "b' * 586 + 586 \<le> b * 586" using assms(2) by simp
  ultimately have "pot b' px' < pot b px" using assms(1,3) by (simp add: pot_def)
  then show ?thesis using assms(4) by (simp add: sinks_def)
qed

lemma sinks_dropped:
  assumes "PX_REUSED \<in> px_flags px' \<longrightarrow> PX_REUSED \<in> px_flags px" "b' \<le> b" "phase_rank (px_phase px') \<le> phase_rank (px_phase px)"
    and "length (px_buf px') + 14 \<le> length (px_buf px)" "length (px_buf px) \<le> PROXY_BUF_MAX"
  shows "sinks b px e b' px' e'"
proof -
  have "length (px_buf px') div 14 + 1 \<le> length (px_buf px) div 14" using div_le_mono [OF assms(4), of 14] by simp
  moreover have "b' * 586 \<le> b * 586" using assms(2) by simp
  ultimately have "pot b' px' < pot b px" using assms(1,3) by (simp add: pot_def)
  then show ?thesis using assms(4,5) by (simp add: sinks_def)
qed

lemma reopen_keeps:
  "proxy_reopen (px, e) = (ok, px', e') \<Longrightarrow> px_phase px' = px_phase px \<and> px_buf px' = px_buf px"
  by (auto simp: proxy_reopen_def Let_def split: if_splits prod.splits dest!: cork_up_keeps)

lemma start_recv_sinks:
  assumes "start_recv (px1, e1) = (px', e')" "px_flags px1 = px_flags px" "b' \<le> b" "length (px_buf px) \<le> PROXY_BUF_MAX"
    and "px_phase px = PX_SEND_REQ \<or> px_phase px = PX_SEND_BODY"
  shows "sinks b px e b' px' e''"
proof -
  have "px_buf px' = []" using assms(1) by (auto simp: start_recv_def split: prod.splits)
  then show ?thesis using assms start_recv_keeps(1) [OF assms(1), of PX_REUSED] start_recv_keeps(2) [OF assms(1)]
    by (intro sinks_phase) auto
qed

lemma send_req_sinks:
  assumes run: "pump_send_req now b (hc, px, e) = Inr (b', hc', px', e')" and phase: "px_phase px = PX_SEND_REQ"
    and buf: "length (px_buf px) \<le> PROXY_BUF_MAX"
  shows "sinks b px e b' px' e'"
proof -
  obtain r off e1 where send: "send_loop (px_fd px) (px_hdr px) (px_hdr_off px) e = (r, off, e1)"
    by (cases "send_loop (px_fd px) (px_hdr px) (px_hdr_off px) e")
  obtain b1 hc1 where prog: "progressed (off \<noteq> px_hdr_off px) now b hc = (b1, hc1)"
    by (cases "progressed (off \<noteq> px_hdr_off px) now b hc")
  note b1 = progressed_budget [OF prog]
  consider (reopen) e1 where "PX_REUSED \<in> px_flags px" "proxy_reopen (px\<lparr>px_hdr_off := off\<rparr>, e1) = (True, px', e')" "b' = b"
    | (next_phase) px1 e1 where "b' \<le> b" "px_flags px1 = px_flags px" "px_buf px1 = px_buf px"
      "px' = px1\<lparr>px_phase := PX_SEND_BODY\<rparr> \<or> start_recv (px1, e1) = (px', e')"
  proof (cases "px_hdr_off px < length (px_hdr px)")
    case False
    then show thesis using run next_phase [of px e] by (auto simp: pump_send_req_def Let_def split: if_splits)
  next
    case True
    show thesis
    proof (cases "r = Send_Dead")
      case dead: True
      then show thesis using run True send reopen
        by (auto simp: pump_send_req_def Let_def split: if_splits prod.splits bool.splits)
    next
      case False
      then show thesis using run True send prog b1 next_phase [of "px\<lparr>px_hdr_off := off\<rparr>" e1]
        by (auto simp: pump_send_req_def Let_def split: if_splits)
    qed
  qed
  then show ?thesis
  proof cases
    case reopen
    then show ?thesis using reopen_flags [OF reopen(2)] reopen_keeps [OF reopen(2)] buf by (intro sinks_reused) simp_all
  next
    case next_phase
    from next_phase(4) show ?thesis
    proof
      assume "px' = px1\<lparr>px_phase := PX_SEND_BODY\<rparr>"
      then show ?thesis using next_phase(1-3) phase buf by (intro sinks_phase) simp_all
    next
      assume "start_recv (px1, e1) = (px', e')"
      then show ?thesis by (rule start_recv_sinks) (use next_phase(1-3) phase buf in auto)
    qed
  qed
qed

lemma send_body_sinks:
  assumes run: "pump_send_body now b (hc, px, e) = Inr (b', hc', px', e')" and phase: "px_phase px = PX_SEND_BODY" and "0 < b"
    and buf: "length (px_buf px) \<le> PROXY_BUF_MAX"
  shows "sinks b px e b' px' e'"
proof -
  consider (buffered) "px_buf_off px < length (px_buf px)"
    | (body) "\<not> px_buf_off px < length (px_buf px)" "px_body_off px < px_body_end px"
    | (unread) "\<not> px_buf_off px < length (px_buf px)" "\<not> px_body_off px < px_body_end px" "0 < px_body_left px"
    | (over) "\<not> px_buf_off px < length (px_buf px)" "\<not> px_body_off px < px_body_end px" "\<not> 0 < px_body_left px"
    by blast
  then show ?thesis
  proof cases
    case buffered
    obtain r off e1 where send: "send_loop (px_fd px) (px_buf px) (px_buf_off px) e = (r, off, e1)"
      by (cases "send_loop (px_fd px) (px_buf px) (px_buf_off px) e")
    have r: "r = Send_All" using run buffered send
      by (cases r) (auto simp: pump_send_body_def split: if_splits prod.splits)
    with send_loop_exact [OF send] buffered have "off \<noteq> px_buf_off px" by auto
    then show ?thesis using run buffered send r assms(3)
      by (intro sinks_budget) (auto simp: pump_send_body_def progressed_def)
  next
    case body
    obtain r off e1 where send: "send_loop (px_fd px) (take (px_body_end px) (hc_buf hc)) (px_body_off px) e = (r, off, e1)"
      by (cases "send_loop (px_fd px) (take (px_body_end px) (hc_buf hc)) (px_body_off px) e")
    have r: "r \<noteq> Send_Dead" "\<not> off < px_body_end px" using run body send
      by (auto simp: pump_send_body_def split: if_splits prod.splits)
    then show ?thesis using run body send assms(3) buf
      by (intro sinks_budget) (auto simp: pump_send_body_def progressed_def split: if_splits)
  next
    case unread
    obtain r bs e1 where read: "read_retry (hc_fd hc) [] (min PROXY_BUF_MAX (px_body_left px)) e = (r, bs, e1)"
      by (cases "read_retry (hc_fd hc) [] (min PROXY_BUF_MAX (px_body_left px)) e")
    have "length bs \<le> PROXY_BUF_MAX" using read_retry_stream [OF read] by auto
    then show ?thesis using run unread read assms(3)
      by (intro sinks_budget) (auto simp: pump_send_body_def Let_def split: if_splits)
  next
    case over
    then have recv: "start_recv (px, e) = (px', e')" "b' = b" using run by (auto simp: pump_send_body_def)
    from recv(1) show ?thesis by (rule start_recv_sinks) (use recv(2) phase buf in auto)
  qed
qed

text \<open>A response head the server understands has a first line of at least twelve bytes.\<close>

lemma response_head_long:
  assumes "rewrite_response req px (take (at + 4) buf) = Some r" "find_hdr_end buf = Some at"
  shows "14 \<le> at + 4"
proof -
  obtain eol where eol: "px_find_crlf (take (at + 4) buf) = Some eol" "response_code (take (at + 4) buf) eol \<noteq> None"
    using assms(1) by (auto simp: rewrite_response_def split: option.splits)
  then have "12 \<le> eol" by (auto simp: response_code_def split: if_splits)
  moreover have "eol + 2 \<le> at + 4" using px_find_crlf_bounds [OF eol(1)] by simp
  ultimately show ?thesis by simp
qed

lemma note_buf_length: "note_body px n = Some px' \<Longrightarrow> length (px_buf px') \<le> length (px_buf px)"
proof -
  assume "note_body px n = Some px'"
  moreover have "px_buf q = px_buf px" if "chunk_feed px s = (q, r)" for s q r
    by (subst chunk_feed_fields [OF that]) simp
  ultimately show ?thesis by (auto simp: note_body_def Let_def split: if_splits prod.splits)
qed

lemma response_sinks:
  assumes run: "pump_response now at b0 (hc, px, e) = Inr (b', hc', px', e')"
    and phase: "px_phase px = PX_RECV_HDR" and at: "find_hdr_end (px_buf px) = Some at"
    and buf: "length (px_buf px) \<le> PROXY_BUF_MAX" and "b0 \<le> b"
  shows "sinks b px e b' px' e''"
proof -
  obtain info px1 where rw: "rewrite_response (hc_req hc) px (take (at + 4) (px_buf px)) = Some (info, px1)"
    using run by (cases "rewrite_response (hc_req hc) px (take (at + 4) (px_buf px))") (auto simp: pump_response_def)
  note rank = pump_response_rank [OF run phase at]
  show ?thesis
  proof (cases info)
    case True
    then have "px1 = px" using rw by (auto simp: rewrite_response_def split: option.splits if_splits)
    then have "px_buf px' = drop (at + 4) (px_buf px)" using run rw True by (auto simp: pump_response_def Let_def)
    then have "length (px_buf px') + 14 \<le> length (px_buf px)"
      using find_hdr_end_bound [OF at] response_head_long [OF rw at] by simp
    then show ?thesis using rank assms(5) phase buf by (intro sinks_dropped) auto
  next
    case False
    have "px_phase px' = PX_SEND_RESP" using run rw False
      by (auto simp: pump_response_def Let_def split: if_splits option.splits)
    moreover have "length (px_buf px') \<le> length (px_buf px)"
    proof -
      have "px_buf px1 = px_buf px" using rewrite_response_keeps [OF rw] by simp
      then show ?thesis using run rw False
        by (auto simp: pump_response_def Let_def split: if_splits option.splits dest!: note_buf_length)
    qed
    ultimately show ?thesis using rank assms(5) phase buf by (intro sinks_phase) auto
  qed
qed

lemma sock_read_cap:
  "sock_read fd buf cap k = (r, buf', k') \<Longrightarrow> length buf \<le> cap \<Longrightarrow> length buf' \<le> cap"
  using sock_read_stream by fastforce

lemma sock_read_interrupted:
  "sock_read fd buf cap k = (SR_Retry, buf', k') \<Longrightarrow> k_reads k fd = Rd_Intr # k_reads k' fd"
  by (auto simp: sock_read_def sys_read_def split: if_splits prod.splits read_answer.splits list.splits)

lemma retry_sinks:
  assumes run: "retry_or_fail now b (hc, px, e) = Inr (b', hc', px', e')" and phase: "px_phase px = PX_RECV_HDR"
    and buf: "length (px_buf px) \<le> PROXY_BUF_MAX"
  shows "sinks b px e0 b' px' e1"
proof -
  have "\<exists>px1. proxy_reopen (px, e) = (True, px1, e') \<and> b' = b \<and> px' = px1\<lparr>px_buf_off := 0, px_buf := [], px_phase := PX_SEND_REQ\<rparr>"
    using run by (auto simp: retry_or_fail_def proxy_retry_idle_def split: if_splits prod.splits bool.splits)
  then show ?thesis using retry_rank [OF run] phase buf by (intro sinks_reused) auto
qed

lemma recv_hdr_sinks:
  assumes run: "pump_recv_hdr now b (hc, px, e) = Inr (b', hc', px', e')" and phase: "px_phase px = PX_RECV_HDR" and "0 < b"
    and buf: "length (px_buf px) \<le> PROXY_BUF_MAX"
  shows "sinks b px e b' px' e'"
proof (cases "find_hdr_end (px_buf px)")
  case (Some at)
  with run have "pump_response now at b (hc, px, e) = Inr (b', hc', px', e')" by (simp add: pump_recv_hdr_def)
  from this phase Some buf show ?thesis by (rule response_sinks) simp
next
  case None
  obtain r bs e1 where read: "sock_read (px_fd px) (px_buf px) PROXY_BUF_MAX e = (r, bs, e1)"
    by (cases "sock_read (px_fd px) (px_buf px) PROXY_BUF_MAX e")
  have room: "length (px_buf px) < PROXY_BUF_MAX" using run None by (auto simp: pump_recv_hdr_def split: if_splits)
  have cap: "length bs \<le> PROXY_BUF_MAX" using sock_read_cap [OF read buf] .
  have retried: "?thesis" if "retry_or_fail now b (hc, px, e1) = Inr (b', hc', px', e')"
    using retry_sinks [OF that phase buf] .
  show ?thesis
  proof (cases r)
    case SR_Retry
    then show ?thesis using run None room read sock_read_interrupted [of "px_fd px" "px_buf px" PROXY_BUF_MAX e bs e1]
      by (auto simp: pump_recv_hdr_def sinks_def interrupted_def pot_def)
  next
    case SR_Err
    then show ?thesis using run None room read retried by (simp add: pump_recv_hdr_def)
  next
    case (SR_Ok again eof)
    show ?thesis
    proof (cases "length bs = length (px_buf px)")
      case True
      then show ?thesis using run None room read SR_Ok retried by (simp add: pump_recv_hdr_def split: if_splits)
    next
      case False
      show ?thesis
      proof (cases "find_hdr_end bs")
        case None2: None
        then show ?thesis using run None room read SR_Ok False assms(3) cap
          by (intro sinks_budget) (auto simp: pump_recv_hdr_def Let_def split: if_splits)
      next
        case (Some at)
        then have resp: "pump_response now at (b - 1) (touch now hc, px\<lparr>px_buf := bs\<rparr>, e1) = Inr (b', hc', px', e')"
          using run None room read SR_Ok False by (simp add: pump_recv_hdr_def Let_def)
        have "length (px_buf px') \<le> PROXY_BUF_MAX"
          using response_sinks [OF resp, of "b - 1" e1] phase Some cap by (simp add: sinks_def)
        then show ?thesis using pump_response_rank [OF resp] phase Some assms(3) by (intro sinks_budget) auto
      qed
    qed
  qed
qed

lemma send_resp_sinks:
  assumes run: "pump_send_resp now b (hc, px, e) = Inr (b', hc', px', e')" and phase: "px_phase px = PX_SEND_RESP" and "0 < b"
    and buf: "length (px_buf px) \<le> PROXY_BUF_MAX"
  shows "sinks b px e b' px' e'"
proof (cases "PX_BODY_DONE \<in> px_flags px")
  case True
  obtain r px1 e1 where send: "send_gathered (hc, px, e) = (r, px1, e1)" by (cases "send_gathered (hc, px, e)")
  note keeps = send_gathered_keeps [OF send]
  let ?moved = "px_hdr_off px1 \<noteq> px_hdr_off px \<or> px_buf_off px1 \<noteq> px_buf_off px"
  obtain b1 hc1 where prog: "progressed ?moved now b hc = (b1, hc1)" by (cases "progressed ?moved now b hc")
  have out: "px_hdr_off px1 < length (px_hdr px1) \<or> px_buf_off px1 < length (px_buf px1)" "r = Send_All"
    "b' = b1" "px' = mark_sent ?moved px1"
    using run True send prog by (cases r; auto simp: pump_send_resp_def Let_def split: if_splits)+
  have ?moved
  proof (rule ccontr)
    assume "\<not> ?moved"
    then show False using out(1,2) keeps by simp
  qed
  then have "b' < b" using progressed_budget [OF prog] assms(3) out(3) by simp
  then show ?thesis using keeps out(4) buf by (intro sinks_budget) simp_all
next
  case False
  obtain hc0 e0 where cork: "cork_client True (hc, e) = (hc0, e0)" by (cases "cork_client True (hc, e)")
  obtain r off e1 where send: "send_loop (hc_fd hc0) (px_hdr px) (px_hdr_off px) e0 = (r, off, e1)"
    by (cases "send_loop (hc_fd hc0) (px_hdr px) (px_hdr_off px) e0")
  let ?moved = "off \<noteq> px_hdr_off px"
  obtain b1 hc1 where prog: "progressed ?moved now b hc0 = (b1, hc1)" by (cases "progressed ?moved now b hc0")
  have "b' \<le> b \<and> (PX_REUSED \<in> px_flags px' \<longleftrightarrow> PX_REUSED \<in> px_flags px) \<and> px_phase px' = PX_STREAM \<and> px_buf px' = px_buf px"
  proof (cases "px_hdr_off px < length (px_hdr px)")
    case True
    then show ?thesis using run False cork send prog progressed_budget [OF prog]
      by (auto simp: pump_send_resp_def Let_def split: if_splits)
  next
    case no_hdr: False
    then show ?thesis using run False cork by (auto simp: pump_send_resp_def Let_def split: if_splits)
  qed
  then show ?thesis using phase buf by (intro sinks_phase) simp_all
qed

lemma stream_sinks:
  assumes run: "pump_stream now b (hc, px, e) = Inr (b', hc', px', e')" and phase: "px_phase px = PX_STREAM" and "0 < b"
    and buf: "length (px_buf px) \<le> PROXY_BUF_MAX"
  shows "sinks b px e b' px' e'"
proof (cases "px_buf_off px < length (px_buf px)")
  case True
  obtain r off e1 where send: "send_loop (hc_fd hc) (px_buf px) (px_buf_off px) e = (r, off, e1)"
    by (cases "send_loop (hc_fd hc) (px_buf px) (px_buf_off px) e")
  have r: "r \<noteq> Send_Dead" "r \<noteq> Send_Again" using run True send
    by (auto simp: pump_stream_def Let_def split: if_splits prod.splits)
  then have "r = Send_All" by (cases r) auto
  with send_loop_exact [OF send] True have "off \<noteq> px_buf_off px" by auto
  then show ?thesis using run True send r assms(3)
    by (intro sinks_budget) (auto simp: pump_stream_def Let_def progressed_def split: if_splits)
next
  case False
  define cap where "cap = (if PX_RESP_CL \<in> px_flags px \<and> unat (px_resp_left px) < PROXY_BUF_MAX
      then unat (px_resp_left px) else PROXY_BUF_MAX)"
  obtain r bs e1 where read: "sock_read (px_fd px) [] cap e = (r, bs, e1)" by (cases "sock_read (px_fd px) [] cap e")
  have c: "PX_BODY_DONE \<notin> px_flags px" "cap \<noteq> 0"
    using run False by (auto simp: pump_stream_def cap_def [symmetric] Let_def split: if_splits)
  have "cap \<le> PROXY_BUF_MAX" by (simp add: cap_def)
  then have bs: "length bs \<le> PROXY_BUF_MAX" using sock_read_cap [OF read] by simp
  show ?thesis
  proof (cases r)
    case SR_Retry
    then have "b' = b \<and> px' = px\<lparr>px_buf_off := 0, px_buf := []\<rparr> \<and> e' = e1"
      using run False c read by (auto simp: pump_stream_def cap_def [symmetric] Let_def)
    then show ?thesis using sock_read_interrupted [of "px_fd px" "[]" cap e bs e1] read SR_Retry
      by (simp add: sinks_def interrupted_def pot_def)
  next
    case SR_Err
    then show ?thesis using run False c read by (simp add: pump_stream_def cap_def [symmetric] Let_def)
  next
    case (SR_Ok again eof)
    let ?px = "px\<lparr>px_buf_off := 0, px_buf := bs\<rparr>"
    have "b' = b - 1 \<and> note_body ?px (length bs) = Some px'"
      using run False c read SR_Ok by (auto simp: pump_stream_def cap_def [symmetric] Let_def split: if_splits option.splits)
    then have n: "note_body ?px (length bs) = Some px'" "b' = b - 1" by simp_all
    show ?thesis using note_body_reused [OF n(1)] note_buf_length [OF n(1)] note_body_keeps [OF n(1)] n(2) bs assms(3)
      by (intro sinks_budget) simp_all
  qed
qed

lemma phase_sinks:
  assumes "pump_phase now b (hc, px, e) = Inr (b', hc', px', e')" and "0 < b" and "length (px_buf px) \<le> PROXY_BUF_MAX"
  shows "sinks b px e b' px' e'"
  using assms send_req_sinks send_body_sinks recv_hdr_sinks send_resp_sinks stream_sinks
  by (cases "px_phase px") (simp_all only: pump_phase_def prod.case px_phase.case sum.distinct)

section \<open>A call of \<open>proxy_pump\<close>\<close>

lemma round_sinks:
  assumes run: "pump_round now b (hc, px, e) = Inr (b', hc', px', e')" and buf: "length (px_buf px) \<le> PROXY_BUF_MAX"
  shows "sinks b px e b' px' e'"
proof -
  obtain r px1 e1 where flush: "flush_100 (hc, px, e) = (r, px1, e1)" by (cases "flush_100 (hc, px, e)")
  have r: "0 < b" "pump_phase now b (hc, px1, e1) = Inr (b', hc', px', e')"
    using run flush by (auto simp: pump_round_def split: send_end.splits if_splits)
  note keeps = flush_100_keeps [OF flush]
  have "sinks b px1 e1 b' px' e'" using phase_sinks [OF r(2,1)] keeps buf by simp
  then show ?thesis using keeps by (simp add: sinks_def pot_def interrupted_def)
qed

text \<open>
  \<open>rounds now n d k c c'\<close>: the loop has gone from \<open>c\<close> to \<open>c'\<close> in \<open>n\<close> rounds without returning; \<open>d\<close> of
  them moved data, and in \<open>k\<close> of them the read was interrupted.
\<close>

inductive rounds :: "u64 \<Rightarrow> nat \<Rightarrow> nat \<Rightarrow> nat \<Rightarrow> nat \<times> 'a pump \<Rightarrow> nat \<times> 'a pump \<Rightarrow> bool" for now where
  none: "rounds now 0 0 0 c c"
| next_round: "rounds now n d k c (b, s) \<Longrightarrow> pump_round now b s = Inr (b', s') \<Longrightarrow>
    rounds now (Suc n) (d + (if moves_data s s' then 1 else 0))
      (k + (if interrupted (fst (snd s)) (snd (snd s)) (snd (snd s')) then 1 else 0)) c (b', s')"

lemma rounds_pump_loop: "rounds now n d k c c' \<Longrightarrow> pump_loop now (fst c) (snd c) = pump_loop now (fst c') (snd c')"
proof (induction rule: rounds.induct)
  case (next_round n d k c b s b' s')
  then show ?case using pump_loop.simps [of now b s] by simp
qed simp

lemma rounds_credit: "rounds now n d k c c' \<Longrightarrow> fst c' \<le> fst c \<and> credit (fst c') (snd c') + d \<le> credit (fst c) (snd c)"
proof (induction rule: rounds.induct)
  case (next_round n d k c b s b' s')
  then show ?case using round_credit [OF next_round.hyps(2)] by simp
qed simp

lemma rounds_pot:
  assumes "rounds now n d k c c'" and "length (px_buf (fst (snd (snd c)))) \<le> PROXY_BUF_MAX"
  shows "length (px_buf (fst (snd (snd c')))) \<le> PROXY_BUF_MAX
    \<and> pot (fst c') (fst (snd (snd c'))) + n \<le> pot (fst c) (fst (snd (snd c))) + k"
  using assms
proof (induction rule: rounds.induct)
  case (next_round n d k c b s b' s')
  obtain hc px e where s: "s = (hc, px, e)" by (cases s)
  obtain hc' px' e' where s': "s' = (hc', px', e')" by (cases s')
  have "sinks b px e b' px' e'"
    by (rule round_sinks) (use next_round s s' in auto)
  then show ?case using next_round by (auto simp: s s' sinks_def)
qed simp

lemma credit_16: "credit 16 s \<le> 17"
  by (simp add: credit_def)

lemma pot_16: "length (px_buf px) \<le> PROXY_BUF_MAX \<Longrightarrow> pot 16 px \<le> 9969"
proof -
  assume "length (px_buf px) \<le> PROXY_BUF_MAX"
  then have "length (px_buf px) div 14 \<le> 585" using div_le_mono [of "length (px_buf px)" 8192 14] by (simp add: PROXY_BUF_MAX_def)
  moreover have "phase_rank (px_phase px) \<le> 5" by (cases "px_phase px") simp_all
  ultimately show ?thesis by (simp add: pot_def)
qed

text \<open>
  C30. One call of \<open>proxy_pump\<close> takes a bounded number of rounds, signals apart. From its sixteen units of
  budget, and with at most 8192 bytes in the buffer, the loop goes round \<open>n\<close> times without returning only
  if at most 17 of the rounds move data (sixteen, and the one that sends the \<open>100 Continue\<close>), and \<open>n\<close> is
  at most 9969 plus the number of rounds whose read was interrupted by a signal. The buffer stays within
  its size, and the loop goes on from the state reached. The bound does not depend on how many answers
  the sockets still have. What is not bounded is \<open>EINTR\<close>: the loop repeats an interrupted read of the
  upstream without spending budget (\<open>interrupted_rounds_unbounded\<close> below), and within a round an
  interrupted \<open>send\<close>, or read of the client, is repeated at once.
\<close>

theorem proxy_pump_budget:
  assumes "rounds now n d k (16, s) (b', s')" and "length (px_buf (fst (snd s))) \<le> PROXY_BUF_MAX"
  shows "d \<le> 17 \<and> n \<le> 9969 + k \<and> length (px_buf (fst (snd s'))) \<le> PROXY_BUF_MAX
    \<and> pump_loop now 16 s = pump_loop now b' s'"
  using rounds_credit [OF assms(1)] credit_16 [of s] rounds_pot [OF assms(1)] assms(2) pot_16 [of "fst (snd s)"]
    rounds_pump_loop [OF assms(1)] by simp

text \<open>A stream from the upstream on descriptor 9 to the client on descriptor 5.\<close>

definition relaying :: "read_answer list \<Rightarrow> write_answer list \<Rightarrow> byte list \<Rightarrow> byte list \<Rightarrow> unit pump" where
  "relaying reads writes buf sent =
     (http_conn0\<lparr>hc_deadline := 30000\<rparr>,
      px_conn0\<lparr>px_fd := 9, px_phase := PX_STREAM, px_buf := buf,
        px_flags := (if sent = [] then {PX_RESP_EOF} else {PX_RESP_SENT, PX_RESP_EOF})\<rparr>,
      proxy_env0\<lparr>k_reads := (\<lambda>_. [])(9 := reads), k_writes := (\<lambda>_. [])(5 := writes), k_sent := (\<lambda>_. [])(5 := sent)\<rparr>)"

lemma touch_relaying: "touch 0 (http_conn0\<lparr>hc_deadline := 30000\<rparr>) = http_conn0\<lparr>hc_deadline := 30000\<rparr>"
  by (simp add: touch_def http_conn0_def)

lemma relay_fd: "hc_fd http_conn0 = 5"
  by (simp add: http_conn0_def)

lemma relaying_interrupted:
  "0 < b \<Longrightarrow> pump_round 0 b (relaying (Rd_Intr # rs) ws [] sent) = Inr (b, relaying rs ws [] sent)"
  by (simp add: pump_round_def flush_100_def pump_phase_def pump_stream_def relaying_def px_conn0_def proxy_env0_def
      sock_read_def sys_read_def PROXY_BUF_MAX_def Let_def)

lemma relaying_read:
  "0 < b \<Longrightarrow> pump_round 0 b (relaying (Rd [x] # rs) ws [] sent) = Inr (b - 1, relaying rs ws [x] sent)"
  by (simp add: pump_round_def flush_100_def pump_phase_def pump_stream_def relaying_def px_conn0_def proxy_env0_def
      sock_read_def sys_read_def PROXY_BUF_MAX_def Let_def note_body_def touch_relaying)

lemma relaying_sent:
  "0 < b \<Longrightarrow> pump_round 0 b (relaying rs (Wr 1 # ws) [x] sent) = Inr (b - 1, relaying rs ws [] (sent @ [x]))"
  by (simp add: pump_round_def flush_100_def pump_phase_def pump_stream_def relaying_def px_conn0_def proxy_env0_def
      Let_def mark_sent_def progressed_def touch_relaying send_loop.simps sys_send_def relay_fd)

lemma relaying_moves [simp]:
  "moves_data (relaying (Rd [x] # rs) ws b1 sent) (relaying rs ws' b2 sent)"
  "moves_data (relaying rs ws b1 sent) (relaying rs ws' b2 (sent @ [x]))"
  "\<not> moves_data (relaying (Rd_Intr # rs) ws b1 sent) (relaying rs ws' b2 sent)"
  by (auto simp: moves_data_def no_data_def relaying_def stream_def fun_eq_iff intro!: exI [of _ 9])

lemma relaying_interrupted_iff [simp]:
  "interrupted (fst (snd (relaying rs ws b1 s1))) (snd (snd (relaying rs ws b1 s1))) (snd (snd (relaying rs' ws' b2 s2)))
    = (rs = Rd_Intr # rs')"
  by (simp add: interrupted_def relaying_def)

text \<open>One turn: the read is interrupted, a byte is read, and the byte is sent.\<close>

lemma relay_turn:
  assumes "rounds 0 n d k c (b + 2, relaying (Rd_Intr # Rd [x] # rs) (Wr 1 # ws) [] sent)"
  shows "rounds 0 (n + 3) (d + 2) (k + 1) c (b, relaying rs ws [] (sent @ [x]))"
proof -
  have "rounds 0 (Suc n) d (k + 1) c (b + 2, relaying (Rd [x] # rs) (Wr 1 # ws) [] sent)"
    using rounds.next_round [OF assms relaying_interrupted] by simp
  from rounds.next_round [OF this relaying_read]
  have "rounds 0 (Suc (Suc n)) (Suc d) (k + 1) c (b + 1, relaying rs (Wr 1 # ws) [x] sent)" by simp
  from rounds.next_round [OF this relaying_sent] show ?thesis by (simp add: numeral_3_eq_3)
qed

lemma relay_turns:
  "rounds 0 n d k c (b + 2 * m, relaying (concat (replicate m [Rd_Intr, Rd [x]])) (replicate m (Wr 1)) [] sent) \<Longrightarrow>
    rounds 0 (n + 3 * m) (d + 2 * m) (k + m) c (b, relaying [] [] [] (sent @ replicate m x))"
proof (induction m arbitrary: n d k sent)
  case (Suc m)
  then have "rounds 0 n d k c (b + 2 * m + 2, relaying (Rd_Intr # Rd [x] # concat (replicate m [Rd_Intr, Rd [x]]))
      (Wr 1 # replicate m (Wr 1)) [] sent)" by simp
  from Suc.IH [OF relay_turn [OF this]] show ?case by (simp add: algebra_simps)
qed simp

lemma relay_interrupted:
  "rounds 0 n d k c (16, relaying (replicate m Rd_Intr) ws [] []) \<Longrightarrow> rounds 0 (n + m) d (k + m) c (16, relaying [] ws [] [])"
proof (induction m arbitrary: n k)
  case (Suc m)
  have "rounds 0 (Suc n) d (k + 1) c (16, relaying (replicate m Rd_Intr) ws [] [])"
    using rounds.next_round [OF Suc.prems [unfolded replicate_Suc] relaying_interrupted] by simp
  from Suc.IH [OF this] show ?case by simp
qed simp

text \<open>The term for the interrupted reads is needed: they are repeated as often as they are interrupted.\<close>

lemma interrupted_rounds_unbounded: "\<exists>s s' :: unit pump. rounds 0 m 0 m (16, s) (16, s')"
  using relay_interrupted [of 0 0 0 "(16, relaying (replicate m Rd_Intr) [] [] [])" m "[]", OF rounds.none]
  by (intro exI) (simp only: add_0)

lemma proxy_pump_budget_witness:
  "let s = relaying (concat (replicate 8 [Rd_Intr, Rd [104]])) (replicate 8 (Wr 1)) [] [];
       s' = relaying [] [] [] (replicate 8 104)
   in rounds 0 24 16 8 (16, s) (0, s') \<and> (16 :: nat) \<le> 17 \<and> (24 :: nat) \<le> 9969 + 8 \<and> pump_loop 0 16 s = pump_loop 0 0 s'"
proof -
  let ?s = "relaying (concat (replicate 8 [Rd_Intr, Rd [104]])) (replicate 8 (Wr 1)) [] []"
  have run: "rounds 0 24 16 8 (16, ?s) (0, relaying [] [] [] (replicate 8 104))"
    using relay_turns [of 0 0 0 "(16, ?s)" 0 8 104 "[]"] rounds.none [of 0 "(16, ?s)"] by simp
  have "length (px_buf (fst (snd ?s))) \<le> PROXY_BUF_MAX" by (simp add: relaying_def PROXY_BUF_MAX_def)
  from proxy_pump_budget [OF run this] run show ?thesis unfolding Let_def by blast
qed

end
