(* ===== verification/Proxy_Faults.thy ===== *)
theory Proxy_Faults
  imports Proxy_Relay
begin

text \<open>
  Three exchanges, each a concrete run of \<open>proxy_begin\<close>, in which \<^verbatim>\<open>src/proxy.c\<close> does not do what it
  should.
\<close>

section \<open>An upload that ends with the budget\<close>

text \<open>
  A body of nine bytes: two came with the head, and seven more reads find one byte each.
\<close>

definition budget_conn :: http_conn where
  "budget_conn = post_conn\<lparr>hc_req := (hc_req post_conn)\<lparr>req_content_length := 9\<rparr>\<rparr>"

definition budget_env :: proxy_env where
  "budget_env = proxy_env0\<lparr>k_sockets := [9],
     k_reads := (\<lambda>_. [])(5 := [Rd [97], Rd [98], Rd [99], Rd [100], Rd [101], Rd [102], Rd [103]]),
     k_writes := (\<lambda>_. [])(9 := [Wr 100, Wr 100, Wr 100, Wr 100, Wr 100, Wr 100, Wr 100, Wr 100, Wr 100])\<rparr>"

lemma budget_conn_fields:
  "hc_fd budget_conn = 5" "hc_buf budget_conn = post_bytes" "req_method (hc_req budget_conn) = METHOD_POST"
  "req_flags (hc_req budget_conn) = 8" "req_header_bytes (hc_req budget_conn) = 19"
  "req_content_length (hc_req budget_conn) = 9" "\<not> expects_continue post_bytes (hc_req budget_conn)"
  "hc_send_timeout budget_conn = 30000"
  using post_conn_fields by (simp_all add: budget_conn_def expects_continue_def)

text \<open>
  C31. The last byte of an upload may use up the budget of \<open>proxy_pump\<close>. The request is then in
  \<open>PX_SEND_BODY\<close> with nothing left to send, a state the budget branch does not know: the upstream has
  the complete request, and the client gets \<open>502 Bad Gateway\<close>.
\<close>

theorem complete_upload_gets_502:
  "\<exists>hc' px' e'. proxy_begin [1] 0 (budget_conn, px_conn0, budget_env) = (IO_WANT_WRITE, hc', px', e')
    \<and> k_sent e' 9 = post_head @ bytes ''heabcdefg'' \<and> body_need budget_conn = length (bytes ''heabcdefg'')
    \<and> hc_fixed hc' = RESP_502 \<and> k_closed e' = [9]"
proof -
  let ?px = "px_conn0\<lparr>px_fd := 9, px_up_addr := [1], px_hdr := post_head, px_body_off := 19, px_body_end := 21, px_body_left := 7,
    px_phase := PX_SEND_REQ, px_flags := {PX_CORK}\<rparr>"
  have "proxy_begin [1] 0 (budget_conn, px_conn0, budget_env) =
      proxy_pump 0 (budget_conn\<lparr>hc_keep := False, hc_deadline := 30000\<rparr>, ?px, budget_env\<lparr>k_sockets := []\<rparr>)"
    by (simp add: proxy_begin_def budget_conn_fields post_conn_fields(9) body_have_def body_need_def Let_def post_rewrite take_or_socket_def
       budget_env_def proxy_env0_def body_pending_def cork_up_def evals proxy_conn_reset_def px_conn0_def)
  moreover have "drop 19 post_bytes = [104, 101]" by (simp add: post_bytes_def bytes_def)
  ultimately show ?thesis
    by (simp add: proxy_pump_def pump_evals evals length_post_head budget_conn_fields post_conn_fields(9) px_conn0_def budget_env_def
        proxy_env0_def proxy_fail_def proxy_close_def uncork_fd_def proxy_conn_reset_def arm_fixed_def body_need_def bytes_def)
qed

section \<open>A retried request without its body\<close>

text \<open>A \<open>GET\<close> with a body of two bytes; the idle connection 8 is at its end when the response is awaited.\<close>

definition retry_bytes :: "byte list" where
  "retry_bytes = bytes ''GET / HTTP/1.1'' @ [CR, LF] @ bytes ''Content-Length: 2'' @ [CR, LF, CR, LF] @ bytes ''he''"

definition retry_conn :: http_conn where
  "retry_conn = http_conn0\<lparr>hc_buf := retry_bytes,
     hc_req := http_request0\<lparr>req_method := METHOD_GET, req_minor_version := 1, req_header_bytes := 37,
       req_content_length := 2, req_flags := HTTP_FLAG_CONTENT_LENGTH\<rparr>\<rparr>"

definition retry_head :: "byte list" where
  "retry_head = bytes ''GET / HTTP/1.1'' @ [CR, LF] @ bytes ''Content-Length: 2'' @ [CR, LF] @ CONNECTION_KEEP"

definition retry_env :: proxy_env where
  "retry_env = proxy_env0\<lparr>pe_pool := [\<lparr>pi_fd = 8, pi_addr = [1]\<rparr>], k_sockets := [9], k_reads := (\<lambda>_. [])(8 := [Rd []]),
     k_writes := (\<lambda>_. [])(8 := [Wr 100, Wr 100], 9 := [Wr 100, Wr 100])\<rparr>"

lemma retry_rewrite: "rewrite_request retry_bytes 37 = Some retry_head"
  by (simp add: rewrite_request_def retry_bytes_def bytes_def append_bytes_def retry_head_def request_lines.simps
      request_line_out_def memchr.simps hop_by_hop_def named_def CONNECTION_KEEP_def PROXY_HDR_MAX_def)

lemma retry_conn_fields:
  "hc_fd retry_conn = 5" "hc_buf retry_conn = retry_bytes" "req_method (hc_req retry_conn) = METHOD_GET"
  "req_flags (hc_req retry_conn) = 8" "req_header_bytes (hc_req retry_conn) = 37"
  "req_content_length (hc_req retry_conn) = 2" "\<not> expects_continue retry_bytes (hc_req retry_conn)"
  "hc_send_timeout retry_conn = 30000" "length retry_bytes = 39" "length retry_head = 61" "drop 37 retry_bytes = bytes ''he''"
  by (simp_all add: retry_conn_def http_conn0_def http_flag_defs expects_continue_def http_request0_def slice0_def
      slice_of_def expect_loop.simps retry_bytes_def retry_head_def CONNECTION_KEEP_def bytes_def bslice_def)

text \<open>
  C32. \<open>proxy_retry_idle\<close> sends a \<open>GET\<close> or \<open>HEAD\<close> again when an idle connection turns out dead, but
  not its body: \<open>body_off\<close> and \<open>body_left\<close> stay where the first attempt left them. The new upstream
  connection gets a head that announces two bytes, and the exchange waits for the response.
\<close>

theorem retry_drops_the_body:
  "\<exists>hc' px' e'. proxy_begin [1] 0 (retry_conn, px_conn0, retry_env) = (IO_IDLE, hc', px', e')
    \<and> k_sent e' 8 = retry_head @ bytes ''he'' \<and> k_closed e' = [8]
    \<and> px_fd px' = 9 \<and> px_phase px' = PX_RECV_HDR \<and> k_sent e' 9 = retry_head"
proof -
  let ?px = "px_conn0\<lparr>px_fd := 8, px_up_addr := [1], px_hdr := retry_head, px_body_off := 37, px_body_end := 39, px_body_left := 0,
    px_phase := PX_SEND_REQ, px_flags := {PX_CORK, PX_REUSED}\<rparr>"
  have "proxy_begin [1] 0 (retry_conn, px_conn0, retry_env) =
      proxy_pump 0 (retry_conn\<lparr>hc_keep := False, hc_deadline := 30000\<rparr>, ?px, retry_env\<lparr>pe_pool := []\<rparr>)"
    by (simp add: proxy_begin_def retry_conn_fields body_have_def body_need_def Let_def retry_rewrite take_or_socket_def
       retry_env_def proxy_env0_def body_pending_def cork_up_def evals proxy_conn_reset_def px_conn0_def)
  then show ?thesis
    by (simp add: proxy_pump_def pump_evals evals retry_conn_fields px_conn0_def retry_env_def
        proxy_env0_def retry_or_fail_def proxy_retry_idle_def proxy_reopen_def uncork_fd_def)
qed

section \<open>A response that ends with its connection, kept alive\<close>

definition eof_bytes :: "byte list" where
  "eof_bytes = bytes ''GET / HTTP/1.1'' @ [CR, LF, CR, LF]"

definition eof_conn :: http_conn where
  "eof_conn = http_conn0\<lparr>hc_buf := eof_bytes,
     hc_req := http_request0\<lparr>req_method := METHOD_GET, req_minor_version := 1, req_header_bytes := 18\<rparr>\<rparr>"

definition eof_head :: "byte list" where
  "eof_head = bytes ''GET / HTTP/1.1'' @ [CR, LF] @ CONNECTION_KEEP"

definition eof_response :: "byte list" where
  "eof_response = bytes ''HTTP/1.0 200 OK'' @ [CR, LF, CR, LF] @ bytes ''hi''"

definition eof_env :: proxy_env where
  "eof_env = proxy_env0\<lparr>k_sockets := [9], k_reads := (\<lambda>_. [])(9 := [Rd eof_response, Rd []]),
     k_writes := (\<lambda>_. [])(5 := [Wr 100, Wr 100], 9 := [Wr 100])\<rparr>"

definition eof_resp_head :: "byte list" where
  "eof_resp_head = bytes ''HTTP/1.0 200 OK'' @ [CR, LF] @ CONNECTION_KEEP"

lemma eof_rewrite: "rewrite_request eof_bytes 18 = Some eof_head"
  by (simp add: rewrite_request_def eof_bytes_def bytes_def append_bytes_def eof_head_def request_lines.simps
      CONNECTION_KEEP_def PROXY_HDR_MAX_def)

lemma eof_conn_fields:
  "hc_fd eof_conn = 5" "hc_buf eof_conn = eof_bytes" "req_method (hc_req eof_conn) = METHOD_GET"
  "req_flags (hc_req eof_conn) = 0" "req_header_bytes (hc_req eof_conn) = 18"
  "\<not> expects_continue eof_bytes (hc_req eof_conn)" "http_should_keepalive (hc_req eof_conn)"
  "hc_send_timeout eof_conn = 30000" "length eof_bytes = 18" "length eof_head = 42" "length eof_resp_head = 43"
  "hc_cork_on eof_conn = False" "length eof_response = 21"
  by (simp_all add: eof_conn_def http_conn0_def http_flag_defs expects_continue_def http_request0_def slice0_def
      slice_of_def expect_loop.simps eof_bytes_def eof_head_def eof_resp_head_def CONNECTION_KEEP_def bytes_def bslice_def
      http_should_keepalive_def has_flag_def eof_response_def)

lemma eof_response_split: "find_hdr_end eof_response = Some 15" "drop 19 eof_response = bytes ''hi''"
  by (simp_all add: find_hdr_end_def eof_response_def bytes_def upt_rec)

lemma length_CONNECTION_KEEP: "length CONNECTION_KEEP = 26"
  by (simp add: CONNECTION_KEEP_def bytes_def)

lemma eof_rewrite_response:
  "px_flags px = {} \<Longrightarrow> rewrite_response (hc_req eof_conn) px (take 19 eof_response) =
    Some (False, (response_reset 200 px)\<lparr>px_flags := {PX_RESP_EOF, PX_UP_CLOSE, PX_CLIENT_KEEP},
      px_hdr := eof_resp_head, px_hdr_off := 0\<rparr>)"
  by (simp add: rewrite_response_def eof_response_def bytes_def append_bytes_def PROXY_HDR_MAX_def response_code_def
      response_lines.simps response_connection_def response_framing_def response_reset_def eof_conn_fields Let_def
      eof_resp_head_def memchr.simps is_digit_def length_CONNECTION_KEEP insert_commute)

text \<open>
  C33. A response without framing ends where its connection ends, which only closing the client's
  connection can pass on. Instead the client is told \<open>Connection: keep-alive\<close>, and after the end of
  the upstream the connection is kept: the client cannot know that the response is complete.
\<close>

theorem unframed_response_kept_alive:
  "\<exists>hc' px' e'. proxy_begin [1] 0 (eof_conn, px_conn0, eof_env) = (IO_DONE, hc', px', e')
    \<and> k_sent e' 5 = bytes ''HTTP/1.0 200 OK'' @ [CR, LF] @ bytes ''Connection: keep-alive'' @ [CR, LF, CR, LF] @ bytes ''hi''
    \<and> hc_keep hc' \<and> k_closed e' = [9]"
proof -
  let ?px = "px_conn0\<lparr>px_fd := 9, px_up_addr := [1], px_hdr := eof_head, px_body_off := 18, px_body_end := 18, px_body_left := 0,
    px_phase := PX_SEND_REQ\<rparr>"
  have "proxy_begin [1] 0 (eof_conn, px_conn0, eof_env) =
      proxy_pump 0 (eof_conn\<lparr>hc_keep := False, hc_deadline := 30000\<rparr>, ?px, eof_env\<lparr>k_sockets := []\<rparr>)"
    by (simp add: proxy_begin_def eof_conn_fields body_have_def body_need_def Let_def eof_rewrite take_or_socket_def
       eof_env_def proxy_env0_def body_pending_def cork_up_def evals proxy_conn_reset_def px_conn0_def)
  moreover have "eof_response \<noteq> []" "eof_resp_head = bytes ''HTTP/1.0 200 OK'' @ [CR, LF] @ bytes ''Connection: keep-alive'' @ [CR, LF, CR, LF]"
    by (simp_all add: eof_response_def eof_resp_head_def CONNECTION_KEEP_def bytes_def)
  ultimately show ?thesis
    by (simp add: proxy_pump_def pump_evals evals eof_conn_fields px_conn0_def eof_env_def
        proxy_env0_def pump_response_def eof_rewrite_response eof_response_split response_reset_def note_body_def
        cork_client_def mark_sent_def proxy_done_def proxy_can_pool_def proxy_close_def uncork_fd_def proxy_conn_reset_def)
qed

end
