(* ===== verification/Proxy_Response.thy ===== *)
theory Proxy_Response
  imports Proxy_Faults
begin

text \<open>
  The response on its way through the proxy: from the moment its head is complete, the client gets the
  rewritten head and exactly the bytes of the body, as its framing delimits it.
\<close>

section \<open>The body by its framing\<close>

text \<open>The bytes of the stream \<open>S\<close> of the upstream that still belong to the body.\<close>

definition body_rest :: "proxy_conn \<Rightarrow> byte list \<Rightarrow> byte list" where
  "body_rest px S =
     (if PX_BODY_DONE \<in> px_flags px then []
      else if PX_RESP_CHUNKED \<in> px_flags px then take (fst (snd (chunk_feed px S))) S
      else if PX_RESP_CL \<in> px_flags px then take (unat (px_resp_left px)) S
      else S)"

text \<open>Whether \<open>S\<close> has all of the body: its last chunk, or its declared length, or there is no framing.\<close>

definition body_whole :: "proxy_conn \<Rightarrow> byte list \<Rightarrow> bool" where
  "body_whole px S =
     (PX_BODY_DONE \<in> px_flags px
      \<or> (if PX_RESP_CHUNKED \<in> px_flags px then fst (snd (snd (chunk_feed px S)))
         else if PX_RESP_CL \<in> px_flags px then unat (px_resp_left px) \<le> length S
         else PX_RESP_EOF \<in> px_flags px))"

text \<open>Both depend on a few fields of the connection only.\<close>

definition frame_state :: "proxy_conn \<Rightarrow> px_flag set \<times> u64 \<times> ch_state \<times> bool \<times> u64" where
  "frame_state px = (px_flags px \<inter> {PX_BODY_DONE, PX_RESP_CHUNKED, PX_RESP_CL, PX_RESP_EOF}, px_resp_left px,
     chunk_state px, saw_digit px, chunk_size px)"

definition same_chunk :: "'a chunk_conn_scheme \<Rightarrow> 'a chunk_conn_scheme \<Rightarrow> bool" where
  "same_chunk p q = (chunk_state p = chunk_state q \<and> saw_digit p = saw_digit q \<and> chunk_size p = chunk_size q)"

lemma chunk_byte_same:
  "same_chunk p q \<Longrightarrow> (case chunk_byte p c of Inl d \<Rightarrow> chunk_byte q c = Inl d
     | Inr p' \<Rightarrow> \<exists>q'. chunk_byte q c = Inr q' \<and> same_chunk p' q')"
  by (auto simp: chunk_byte_def same_chunk_def Let_def split: ch_state.split)

lemma chunk_loop_same:
  "chunk_feed_loop p s i = (p', r) \<Longrightarrow> same_chunk p q \<Longrightarrow> snd (chunk_feed_loop q s i) = r"
proof (induction "(length s, if chunk_state p = CH_DATA then 1 else 0 :: nat)" arbitrary: p q s i
    rule: wf_induct_rule [OF wf_lex_prod [OF wf_less_than wf_less_than]])
  case 1
  show ?case
  proof (cases s)
    case (Cons c cs)
    show ?thesis
    proof (cases "chunk_state p = CH_DATA")
      case True
      then have q: "chunk_state q = CH_DATA" "chunk_size q = chunk_size p" using "1.prems"(2) by (simp_all add: same_chunk_def)
      define n where "n = min (length s) (unat (chunk_size p))"
      have run: "chunk_feed_loop (chunk_data p n) (drop n s) (i + n) = (p', r)"
        using "1.prems" chunk_loop_data [OF True] Cons by (simp add: n_def Let_def)
      have same: "same_chunk (chunk_data p n) (chunk_data q n)"
        using "1.prems"(2) by (simp add: same_chunk_def chunk_data_def Let_def)
      have "n = 0 \<Longrightarrow> chunk_state (chunk_data p n) \<noteq> CH_DATA"
        using Cons by (auto simp: n_def chunk_data_def Let_def min_def unat_eq_0 split: if_splits)
      then have "snd (chunk_feed_loop (chunk_data q n) (drop n s) (i + n)) = r"
        using 1(1) [OF _ run same] Cons True by (cases "n = 0") auto
      then show ?thesis using chunk_loop_data [OF q(1), of s i] q(2) Cons by (simp add: n_def Let_def)
    next
      case False
      then have q: "chunk_state q \<noteq> CH_DATA" using "1.prems"(2) by (simp add: same_chunk_def)
      note byte = chunk_byte_same [OF "1.prems"(2), of c]
      show ?thesis
      proof (cases "chunk_byte p c")
        case (Inl x)
        then show ?thesis using "1.prems" Cons False q byte by (auto simp: chunk_loop_byte)
      next
        case (Inr p1)
        then obtain q1 where q1: "chunk_byte q c = Inr q1" "same_chunk p1 q1" using byte by auto
        have "chunk_feed_loop p1 cs (i + 1) = (p', r)" using "1.prems" Cons False Inr by (simp add: chunk_loop_byte)
        from 1(1) [OF _ this q1(2)] Cons q q1(1) show ?thesis by (simp add: chunk_loop_byte)
      qed
    qed
  qed (use "1.prems" in auto)
qed

lemma body_same:
  assumes "frame_state p = frame_state q"
  shows "body_rest p = body_rest q" "body_whole p = body_whole q"
proof -
  have "same_chunk q p" using assms by (simp add: frame_state_def same_chunk_def)
  then have feed: "snd (chunk_feed p S) = snd (chunk_feed q S)" for S
    by (cases "chunk_feed_loop q S 0") (auto simp: chunk_feed_def dest: chunk_loop_same)
  have "px_flags p \<inter> {PX_BODY_DONE, PX_RESP_CHUNKED, PX_RESP_CL, PX_RESP_EOF}
      = px_flags q \<inter> {PX_BODY_DONE, PX_RESP_CHUNKED, PX_RESP_CL, PX_RESP_EOF}" "px_resp_left p = px_resp_left q"
    using assms by (simp_all add: frame_state_def)
  then have "f \<in> px_flags p \<longleftrightarrow> f \<in> px_flags q" if "f \<in> {PX_BODY_DONE, PX_RESP_CHUNKED, PX_RESP_CL, PX_RESP_EOF}" for f
    using that by blast
  then show "body_rest p = body_rest q" "body_whole p = body_whole q"
    using feed \<open>px_resp_left p = px_resp_left q\<close> by (simp_all add: fun_eq_iff body_rest_def body_whole_def)
qed

lemma chunk_loop_count: "chunk_feed_loop px s i = (px', j, d, bad) \<Longrightarrow> i \<le> j \<and> j \<le> i + length s"
proof (induction "(length s, if chunk_state px = CH_DATA then 1 else 0 :: nat)" arbitrary: px s i
    rule: wf_induct_rule [OF wf_lex_prod [OF wf_less_than wf_less_than]])
  case 1
  show ?case
  proof (cases s)
    case (Cons c cs)
    show ?thesis
    proof (cases "chunk_state px = CH_DATA")
      case True
      define n where "n = min (length s) (unat (chunk_size px))"
      have run: "chunk_feed_loop (chunk_data px n) (drop n s) (i + n) = (px', j, d, bad)"
        using "1.prems" chunk_loop_data [OF True] Cons by (simp add: n_def Let_def)
      have "n = 0 \<Longrightarrow> chunk_state (chunk_data px n) \<noteq> CH_DATA"
        using Cons by (auto simp: n_def chunk_data_def Let_def min_def unat_eq_0 split: if_splits)
      moreover have "n \<le> length s" by (simp add: n_def)
      ultimately show ?thesis using 1(1) [OF _ run] Cons True by (cases "n = 0") auto
    next
      case False
      show ?thesis
      proof (cases "chunk_byte px c")
        case (Inl x)
        then show ?thesis using "1.prems" Cons False by (auto simp: chunk_loop_byte)
      next
        case (Inr q)
        then have "chunk_feed_loop q cs (i + 1) = (px', j, d, bad)" using "1.prems" Cons False by (simp add: chunk_loop_byte)
        from 1(1) [OF _ this] Cons show ?thesis by simp
      qed
    qed
  qed (use "1.prems" in simp)
qed

lemma chunk_feed_parts:
  assumes "chunk_feed px a = (px', n, d, bad)"
  shows "n \<le> length a" "\<not> d \<Longrightarrow> \<not> bad \<Longrightarrow> n = length a"
    "\<not> bad \<Longrightarrow> fst (snd (chunk_feed px (a @ b))) = (if d then n else n + fst (snd (chunk_feed px' b)))"
    "\<not> bad \<Longrightarrow> fst (snd (snd (chunk_feed px (a @ b)))) = (d \<or> fst (snd (snd (chunk_feed px' b))))"
proof -
  from assms have run: "chunk_feed_loop px a 0 = (px', n, d, bad)" by (simp add: chunk_feed_def)
  show "n \<le> length a" using chunk_loop_count [OF run] by simp
  show "\<not> d \<Longrightarrow> \<not> bad \<Longrightarrow> n = length a" using chunk_loop_append [OF run, of b] by simp
  show "\<not> bad \<Longrightarrow> fst (snd (chunk_feed px (a @ b))) = (if d then n else n + fst (snd (chunk_feed px' b)))"
    using chunk_loop_append [OF run, of b] chunk_loop_shift [of px' b 0 n]
    by (auto simp: chunk_feed_def add.commute split: prod.splits)
  show "\<not> bad \<Longrightarrow> fst (snd (snd (chunk_feed px (a @ b)))) = (d \<or> fst (snd (snd (chunk_feed px' b))))"
    using chunk_loop_append [OF run, of b] chunk_loop_shift [of px' b 0 n]
    by (auto simp: chunk_feed_def add.commute split: prod.splits)
qed

lemma note_body_flags:
  assumes "note_body px n = Some px'" and "f \<notin> {PX_BODY_DONE, PX_OVERREAD}"
  shows "f \<in> px_flags px' \<longleftrightarrow> f \<in> px_flags px"
  using assms by (auto simp: note_body_def Let_def split: if_splits prod.splits dest: chunk_feed_more)

lemma note_body_rest:
  assumes run: "note_body px (length (px_buf px)) = Some px'" and open_body: "PX_BODY_DONE \<notin> px_flags px"
  shows "px_buf px' @ body_rest px' S = body_rest px (px_buf px @ S)
    \<and> body_whole px' S = body_whole px (px_buf px @ S)"
proof (cases "px_buf px = []")
  case True
  then show ?thesis using run by (simp add: note_body_def)
next
  case ne: False
  show ?thesis
  proof (cases "PX_RESP_CHUNKED \<in> px_flags px")
    case True
    obtain q n d bad where feed: "chunk_feed px (px_buf px) = (q, n, d, bad)" by (cases "chunk_feed px (px_buf px)")
    have q: "px_flags q = px_flags px" "px_buf q = px_buf px"
      using chunk_feed_more [OF feed] by simp (subst chunk_feed_fields [OF feed], simp)
    have bad: "\<not> bad" using run ne open_body True feed by (auto simp: note_body_def Let_def)
    note parts = chunk_feed_parts [OF feed]
    define p where "p = (if n < length (px_buf px)
      then q\<lparr>px_buf := take n (px_buf q), px_flags := insert PX_OVERREAD (px_flags q)\<rparr> else q)"
    have px': "px' = (if d then p\<lparr>px_flags := insert PX_BODY_DONE (px_flags p)\<rparr> else p)"
      using run ne open_body True feed bad by (simp add: note_body_def Let_def p_def) (auto split: if_splits)
    show ?thesis
    proof (cases d)
      case True
      have "px_buf px' = take n (px_buf px)" using parts(1) True by (simp add: px' p_def q)
      then show ?thesis using True parts(1) parts(3,4) [OF bad, of S] open_body \<open>PX_RESP_CHUNKED \<in> px_flags px\<close>
        by (simp add: body_rest_def body_whole_def px')
    next
      case False
      then have n: "n = length (px_buf px)" using parts(2) bad by simp
      then have "px' = q" by (simp add: px' p_def False)
      then show ?thesis using n False parts(3,4) [OF bad, of S] open_body \<open>PX_RESP_CHUNKED \<in> px_flags px\<close> q
        by (simp add: body_rest_def body_whole_def)
    qed
  next
    case no_chunk: False
    show ?thesis
    proof (cases "PX_RESP_CL \<in> px_flags px")
      case True
      let ?left = "unat (px_resp_left px)" and ?n = "length (px_buf px)"
      have sub: "unat (px_resp_left px - word_of_nat (min ?n ?left)) = ?left - min ?n ?left"
      proof -
        have "min ?n ?left < 2 ^ 64" using unsigned_less [of "px_resp_left px", where ?'a = nat] by simp
        then have "unat (word_of_nat (min ?n ?left) :: u64) = min ?n ?left" by (simp add: unat_of_nat take_bit_nat_eq_self)
        then show ?thesis by (subst unat_sub) (simp_all add: word_le_nat_alt)
      qed
      define p where "p = (if ?n > ?left then px\<lparr>px_flags := insert PX_OVERREAD (px_flags px),
          px_buf := take (?n - (?n - ?left)) (px_buf px)\<rparr> else px)"
      define r where "r = px_resp_left px - word_of_nat (min ?n ?left)"
      have px': "px' = (let p = p\<lparr>px_resp_left := r\<rparr> in if px_resp_left p = 0 then p\<lparr>px_flags := insert PX_BODY_DONE (px_flags p)\<rparr> else p)"
        using run ne open_body True no_chunk by (simp add: note_body_def Let_def p_def r_def)
      have r0: "r = 0 \<longleftrightarrow> ?left \<le> ?n" using sub by (metis r_def unat_eq_zero diff_is_0_eq min.commute min.cobounded1 min_absorb1 nle_le diff_self_eq_0)
      have flags: "PX_RESP_CHUNKED \<notin> px_flags p" "PX_RESP_CL \<in> px_flags p" "PX_BODY_DONE \<notin> px_flags p"
        "px_buf p = take ?left (px_buf px)"
        using True no_chunk open_body by (auto simp: p_def)
      have "body_rest px (px_buf px @ S) = take ?left (px_buf px) @ take (?left - ?n) S"
        using True no_chunk open_body by (simp add: body_rest_def body_whole_def)
      moreover have "body_whole px (px_buf px @ S) = (?left \<le> ?n + length S)"
        using True no_chunk open_body by (simp add: body_whole_def)
      moreover have "body_rest (p\<lparr>px_resp_left := r\<rparr>) S = take (unat r) S"
        "body_whole (p\<lparr>px_resp_left := r\<rparr>) S = (unat r \<le> length S)"
        "body_rest (p\<lparr>px_resp_left := r, px_flags := insert PX_BODY_DONE (px_flags p)\<rparr>) S = []"
        "body_whole (p\<lparr>px_resp_left := r, px_flags := insert PX_BODY_DONE (px_flags p)\<rparr>) S"
        using flags by (simp_all add: body_rest_def body_whole_def)
      moreover have "unat r = ?left - ?n" if "r \<noteq> 0" using sub that r0 by (simp add: r_def min_def)
      ultimately show ?thesis using flags(4) r0 by (cases "r = 0") (simp_all add: px' Let_def le_diff_conv add.commute)
    next
      case False
      then have "px' = px" using run ne open_body no_chunk by (simp add: note_body_def)
      then show ?thesis using False no_chunk open_body by (simp add: body_rest_def body_whole_def)
    qed
  qed
qed


section \<open>What the client still has to get\<close>

text \<open>What a descriptor delivers before the end of its stream.\<close>

definition incoming :: "'a kernel_scheme \<Rightarrow> int \<Rightarrow> byte list" where
  "incoming k fd = concat (map (\<lambda>a. case a of Rd bs \<Rightarrow> bs | _ \<Rightarrow> [])
     (takeWhile (\<lambda>a. a \<noteq> Rd [] \<and> a \<noteq> Rd_Eof) (k_reads k fd)))"

lemma incoming_same: "k_reads k' fd = k_reads k fd \<Longrightarrow> incoming k' fd = incoming k fd"
  by (simp add: incoming_def)

lemma sock_read_incoming:
  assumes "sock_read fd [] cap k = (r, buf, k')" and "0 < cap"
  shows "k_sent k' = k_sent k"
    "case r of SR_Ok again eof \<Rightarrow> if eof then incoming k fd = [] \<and> buf = [] else incoming k fd = buf @ incoming k' fd
     | SR_Retry \<Rightarrow> buf = [] \<and> incoming k' fd = incoming k fd | SR_Err \<Rightarrow> True"
  using assms by (auto simp: sock_read_def sys_read_def incoming_def split: if_splits list.splits read_answer.splits)

text \<open>The rest of the head, what is buffered, and the part of the stream \<open>S\<close> that belongs to the body.\<close>

definition resp_rest :: "proxy_conn \<Rightarrow> byte list \<Rightarrow> byte list" where
  "resp_rest px S = drop (px_hdr_off px) (px_hdr px) @ drop (px_buf_off px) (px_buf px) @ body_rest px S"

text \<open>
  A response on its way from the upstream \<open>U\<close>: what the client had before (\<open>A\<close>) and the response
  \<open>T\<close> are what it has been sent and what is still to come; once a byte of \<open>T\<close> is out, the flag that
  forbids an error response says so; and \<open>w\<close> is whether all of the body arrives.
\<close>

definition on_way :: "int \<Rightarrow> http_conn \<Rightarrow> byte list \<Rightarrow> byte list \<Rightarrow> bool \<Rightarrow> 'a pump \<Rightarrow> bool" where
  "on_way U hc0 A T w = (\<lambda>(hc, px, e).
     px_fd px = U \<and> hc_conn hc = hc_conn hc0 \<and> PX_SEND_100 \<notin> px_flags px
     \<and> (px_phase px = PX_SEND_RESP \<or> px_phase px = PX_STREAM \<and> length (px_hdr px) \<le> px_hdr_off px)
     \<and> px_hdr_off px \<le> length (px_hdr px) \<and> px_buf_off px \<le> length (px_buf px)
     \<and> (PX_RESP_EOF \<in> px_flags px \<longrightarrow> PX_RESP_CHUNKED \<notin> px_flags px \<and> PX_RESP_CL \<notin> px_flags px)
     \<and> (PX_RESP_CL \<in> px_flags px \<longrightarrow> PX_RESP_CHUNKED \<notin> px_flags px)
     \<and> k_sent e (hc_fd hc0) @ resp_rest px (incoming e U) = A @ T
     \<and> (k_sent e (hc_fd hc0) \<noteq> A \<longrightarrow> PX_RESP_SENT \<in> px_flags px)
     \<and> body_whole px (incoming e U) = w)"

text \<open>After the end of the exchange the client has been sent a part of it.\<close>

definition relaying :: "int \<Rightarrow> http_conn \<Rightarrow> byte list \<Rightarrow> byte list \<Rightarrow> bool \<Rightarrow> 'a pump \<Rightarrow> bool" where
  "relaying U hc0 A T w = (\<lambda>(hc, px, e).
     if px_fd px < 0 then hc_conn hc = hc_conn hc0 \<and> (\<exists>t. k_sent e (hc_fd hc0) @ t = A @ T) else on_way U hc0 A T w (hc, px, e))"

text \<open>What a call returns: \<open>IO_DONE\<close> only with all of \<open>T\<close>, and an error response only before it.\<close>

definition relayed :: "int \<Rightarrow> http_conn \<Rightarrow> byte list \<Rightarrow> byte list \<Rightarrow> bool \<Rightarrow> http_io \<times> 'a pump \<Rightarrow> bool" where
  "relayed U hc0 A T w = (\<lambda>(io, hc, px, e).
     relaying U hc0 A T w (hc, px, e)
     \<and> (io = IO_DONE \<longrightarrow> k_sent e (hc_fd hc0) = A @ T \<and> w)
     \<and> (px_fd px < 0 \<longrightarrow> io \<noteq> IO_DONE \<longrightarrow> io \<noteq> IO_CLOSE \<longrightarrow> k_sent e (hc_fd hc0) = A))"

definition relay_ok :: "int \<Rightarrow> http_conn \<Rightarrow> byte list \<Rightarrow> byte list \<Rightarrow> bool \<Rightarrow> 'a round \<Rightarrow> bool" where
  "relay_ok U hc0 A T w r =
     (case r of Inl x \<Rightarrow> relayed U hc0 A T w x
      | Inr (b, s) \<Rightarrow> 0 \<le> px_fd (fst (snd s)) \<and> on_way U hc0 A T w s)"

lemma relay_ok_Inr: "0 \<le> U \<Longrightarrow> on_way U hc0 A T w s \<Longrightarrow> relay_ok U hc0 A T w (Inr (b, s))"
  by (cases s) (simp add: relay_ok_def on_way_def)

lemma relay_ok_leave:
  "0 \<le> U \<Longrightarrow> on_way U hc0 A T w s \<Longrightarrow> io \<noteq> IO_DONE \<Longrightarrow> relay_ok U hc0 A T w (Inl (io, s))"
  by (cases s) (simp add: relay_ok_def relayed_def relaying_def, simp add: on_way_def)

lemma on_way_prefix: "on_way U hc0 A T w (hc, px, e) \<Longrightarrow> same_io e e' \<Longrightarrow> \<exists>t. k_sent e' (hc_fd hc0) @ t = A @ T"
  by (auto simp: on_way_def same_io_def)

lemma relay_closing:
  assumes "\<exists>t. k_sent e (hc_fd hc0) @ t = A @ T" and "0 \<le> px_fd px" and "hc_conn hc = hc_conn hc0"
  shows "relay_ok U hc0 A T w (Inl (proxy_close_all (hc, px, e)))"
proof -
  obtain px' e' where close: "proxy_close (px, e) = (px', e')" by (cases "proxy_close (px, e)")
  from assms proxy_close_io [OF close] close show ?thesis
    by (simp add: relay_ok_def relayed_def relaying_def proxy_close_all_def same_io_def)
qed

lemma relay_close_all:
  assumes "on_way U hc0 A T w (hc, px, e)" and "0 \<le> U"
  shows "relay_ok U hc0 A T w (Inl (proxy_close_all (hc, px, e)))"
  by (rule relay_closing) (use assms in \<open>auto simp: on_way_def\<close>)

lemma relay_fail:
  assumes "on_way U hc0 A T w (hc, px, e)" and "0 \<le> U"
  shows "relay_ok U hc0 A T w (Inl (proxy_fail now (hc, px, e)))"
proof -
  obtain px' e' where close: "proxy_close (px, e) = (px', e')" by (cases "proxy_close (px, e)")
  note io = proxy_close_io [OF close]
  have "k_sent e' (hc_fd hc0) = A" if "PX_RESP_SENT \<notin> px_flags px"
    using assms(1) that io by (auto simp: same_io_def on_way_def)
  moreover have "hc_conn hc = hc_conn hc0" using assms(1) by (simp add: on_way_def)
  ultimately show ?thesis using on_way_prefix [OF assms(1), of e'] io close
    by (simp add: relay_ok_def relayed_def relaying_def proxy_fail_def arm_fixed_def)
qed

lemma relay_finish:
  assumes "k_sent e (hc_fd hc0) = A @ T" and w and "hc_conn hc = hc_conn hc0"
  shows "relay_ok U hc0 A T w (Inl (proxy_done (hc, px, e)))"
proof -
  obtain hc1 e1 where cork: "cork_client False (hc, e) = (hc1, e1)" by (cases "cork_client False (hc, e)")
  obtain px' e' where close: "(if proxy_can_pool px then proxy_release (px, e1) else proxy_close (px, e1)) = (px', e')"
    by (cases "if proxy_can_pool px then proxy_release (px, e1) else proxy_close (px, e1)")
  have "same_io e1 e' \<and> px_fd px' < 0"
    using close proxy_close_io [of px e1 px' e']
    by (auto simp: proxy_release_def proxy_conn_reset_def proxy_pool_put_def same_io_def uncork_fd_def
        split: if_splits prod.splits)
  then have "same_io e e'" "px_fd px' < 0" "hc_conn hc1 = hc_conn hc" using cork_client_io [OF cork] by (auto intro: same_io_trans)
  then show ?thesis using assms cork close by (simp add: proxy_done_def relay_ok_def relayed_def relaying_def same_io_def)
qed

lemma relay_done:
  assumes "on_way U hc0 A T w (hc, px, e)" and "resp_rest px (incoming e U) = []" and "body_whole px (incoming e U)"
  shows "relay_ok U hc0 A T w (Inl (proxy_done (hc, px, e)))"
  by (rule relay_finish) (use assms in \<open>simp_all add: on_way_def\<close>)

text \<open>A step of the slot that moves bytes from the offsets \<open>h\<close>, \<open>b\<close> on to the client.\<close>

lemma on_way_same:
  assumes "on_way U hc0 A T w (hc, px, e)" and "same_io e e'" and "hc_conn hc' = hc_conn hc"
    and "px_fd px' = px_fd px" and "px_phase px' = px_phase px" and "px_hdr px' = px_hdr px" and "px_hdr_off px' = px_hdr_off px"
    and "px_buf px' = px_buf px" and "px_buf_off px' = px_buf_off px" and "px_flags px' = px_flags px" and "frame_state px' = frame_state px"
  shows "on_way U hc0 A T w (hc', px', e')"
  using assms body_same [OF assms(11)] incoming_same [of e' U e]
  by (simp add: on_way_def resp_rest_def same_io_def)

lemma relay_dead_client:
  assumes "on_way U hc0 A T w (hc, px, e)" and "0 \<le> U"
  shows "relay_ok U hc0 A T w (Inl (dead_client now (hc, px, e)))"
  using relay_close_all [OF assms] relay_fail [OF assms, of now] by (simp add: dead_client_def)

lemma relay_yield:
  assumes way: "on_way U hc0 A T w (hc, px, e)" and "0 \<le> U" and "b \<noteq> IO_DONE"
  shows "relay_ok U hc0 A T w (Inl (yield_or_fail a b now (hc, px, e)))"
proof -
  obtain ok px1 e1 where arm: "arm_up a (px, e) = (ok, px1, e1)" by (cases "arm_up a (px, e)")
  have io: "same_io e e1" and same: "px1 = px\<lparr>px_in_epoll := px_in_epoll px1, px_armed := px_armed px1\<rparr>"
    using arm_up_io [OF arm] by simp_all
  have "on_way U hc0 A T w (hc, px1, e1)"
    by (rule on_way_same [OF way io refl]) (subst same, simp add: frame_state_def)+
  then show ?thesis using arm relay_fail [of U hc0 A T w hc px1 e1 now] relay_ok_leave [of U hc0 A T w "(hc, px1, e1)"] assms(2,3)
    by (cases ok) (simp_all add: yield_or_fail_def yield_up_def)
qed

lemma frame_keeps [simp]:
  "frame_state (mark_sent m px) = frame_state px" "frame_state (px\<lparr>px_hdr_off := h\<rparr>) = frame_state px"
  "frame_state (px\<lparr>px_buf_off := b\<rparr>) = frame_state px" "frame_state (px\<lparr>px_buf := bs\<rparr>) = frame_state px"
  "frame_state (px\<lparr>px_phase := ph\<rparr>) = frame_state px"
  by (auto simp: frame_state_def mark_sent_def)

lemma mark_sent_flags:
  "f \<noteq> PX_RESP_SENT \<Longrightarrow> f \<in> px_flags (mark_sent m px) \<longleftrightarrow> f \<in> px_flags px"
  "PX_RESP_SENT \<in> px_flags (mark_sent m px) \<longleftrightarrow> m \<or> PX_RESP_SENT \<in> px_flags px"
  by (auto simp: mark_sent_def)

lemma on_way_send:
  assumes way: "on_way U hc0 A T w (hc, px, e)" and U: "U \<noteq> hc_fd hc0"
    and only: "only_sends (hc_fd hc0) e e'" and conn: "hc_conn hc' = hc_conn hc"
    and sent: "k_sent e' (hc_fd hc0) @ drop h (px_hdr px) @ drop b (px_buf px)
      = k_sent e (hc_fd hc0) @ drop (px_hdr_off px) (px_hdr px) @ drop (px_buf_off px) (px_buf px)"
    and le: "px_hdr_off px \<le> h" "h \<le> length (px_hdr px)" "b \<le> length (px_buf px)"
    and px': "frame_state px' = frame_state px" "px_fd px' = px_fd px" "px_phase px' = px_phase px" "px_hdr px' = px_hdr px"
      "px_buf px' = px_buf px" "px_hdr_off px' = h" "px_buf_off px' = b" "px_flags px' = px_flags px"
    and moved: "h \<noteq> px_hdr_off px \<or> b \<noteq> px_buf_off px \<Longrightarrow> m"
  shows "on_way U hc0 A T w (hc', mark_sent m px', e')"
proof -
  have frame: "frame_state (mark_sent m px') = frame_state px" using px'(1) by simp
  have inc: "incoming e' U = incoming e U" using only by (auto simp: only_sends_def incoming_def)
  have still: "k_sent e' (hc_fd hc0) = k_sent e (hc_fd hc0)" if "h = px_hdr_off px" "b = px_buf_off px"
    using sent that by simp
  have "k_sent e' (hc_fd hc0) @ resp_rest (mark_sent m px') (incoming e' U)
      = k_sent e (hc_fd hc0) @ resp_rest px (incoming e U)"
    using arg_cong [OF sent, of "\<lambda>x. x @ body_rest px (incoming e U)"] by (simp add: resp_rest_def body_same [OF frame] inc px')
  moreover have "k_sent e' (hc_fd hc0) \<noteq> A \<longrightarrow> m \<or> PX_RESP_SENT \<in> px_flags px"
  proof (cases "h = px_hdr_off px \<and> b = px_buf_off px")
    case True
    then show ?thesis using still way by (simp add: on_way_def)
  qed (use moved in simp)
  moreover have way': "px_fd px = U" "hc_conn hc = hc_conn hc0" "PX_SEND_100 \<notin> px_flags px"
    "px_phase px = PX_SEND_RESP \<or> px_phase px = PX_STREAM \<and> length (px_hdr px) \<le> px_hdr_off px"
    "PX_RESP_EOF \<in> px_flags px \<longrightarrow> PX_RESP_CHUNKED \<notin> px_flags px \<and> PX_RESP_CL \<notin> px_flags px"
    "PX_RESP_CL \<in> px_flags px \<longrightarrow> PX_RESP_CHUNKED \<notin> px_flags px"
    "body_whole px (incoming e U) = w" "k_sent e (hc_fd hc0) @ resp_rest px (incoming e U) = A @ T"
    using way by (simp_all add: on_way_def)
  moreover have "px_phase px = PX_STREAM \<Longrightarrow> length (px_hdr px) \<le> px_hdr_off px \<Longrightarrow> length (px_hdr px) \<le> h"
    using le(1) by simp
  moreover have "body_whole (mark_sent m px') (incoming e' U) = w" using way'(7) inc body_same [OF frame] by simp
  ultimately show ?thesis using le(2,3) conn
    by (simp only: on_way_def prod.case mark_sent_flags mark_sent_keeps px' px_flag.distinct simp_thms) blast
qed

lemma send_gathered_grows:
  "send_gathered (hc, px, e) = (r, px', e') \<Longrightarrow> px_hdr_off px \<le> px_hdr_off px'"
  by (auto simp: send_gathered_def Let_def split: if_splits prod.splits write_answer.splits)

lemma relay_next:
  assumes way: "on_way U hc0 A T w (h, q, e)" and U: "0 \<le> U" and hdr: "length (px_hdr q) \<le> px_hdr_off q"
  shows "relay_ok U hc0 A T w (if PX_BODY_DONE \<in> px_flags q \<and> length (px_buf q) \<le> px_buf_off q
      then Inl (proxy_done (h, q, e)) else Inr (b, h, q\<lparr>px_phase := PX_STREAM\<rparr>, e))"
proof (cases "PX_BODY_DONE \<in> px_flags q \<and> length (px_buf q) \<le> px_buf_off q")
  case True
  then have "relay_ok U hc0 A T w (Inl (proxy_done (h, q, e)))"
    using hdr by (intro relay_done [OF way]) (simp_all add: resp_rest_def body_rest_def body_whole_def)
  then show ?thesis using True by simp
next
  case False
  have "on_way U hc0 A T w (h, q\<lparr>px_phase := PX_STREAM\<rparr>, e)"
    using way hdr body_same [OF frame_keeps(5) [of PX_STREAM q]] by (simp add: on_way_def resp_rest_def)
  then show ?thesis unfolding if_not_P [OF False] by (rule relay_ok_Inr [OF U])
qed

lemma relay_send_resp:
  assumes way: "on_way U hc0 A T w (hc, px, e)" and phase: "px_phase px = PX_SEND_RESP" and U: "U \<noteq> hc_fd hc0" "0 \<le> U"
  shows "relay_ok U hc0 A T w (pump_send_resp now b (hc, px, e))"
proof (cases "PX_BODY_DONE \<in> px_flags px")
  case True
  obtain r px1 e1 where send: "send_gathered (hc, px, e) = (r, px1, e1)" by (cases "send_gathered (hc, px, e)")
  note on = send_gathered_on [OF send] and keeps = send_gathered_keeps [OF send]
  let ?m = "px_hdr_off px1 \<noteq> px_hdr_off px \<or> px_buf_off px1 \<noteq> px_buf_off px"
  obtain b1 h where prog: "progressed ?m now b hc = (b1, h)" by (cases "progressed ?m now b hc")
  have fd: "hc_fd hc = hc_fd hc0" using way by (simp add: on_way_def)
  have frame: "frame_state px1 = frame_state px" by (subst on [THEN conjunct2, THEN conjunct1]) simp
  have moved: "on_way U hc0 A T w (h', mark_sent ?m px1, e1)" if "hc_conn h' = hc_conn hc" for h'
    by (rule on_way_send [OF way U(1) _ that, where h = "px_hdr_off px1" and b = "px_buf_off px1"])
      (use on keeps send_gathered_grows [OF send] send_gathered_fd [OF send] way fd frame in \<open>auto simp: on_way_def\<close>)
  have sent: "relay_ok U hc0 A T w (Inl (proxy_done (h, mark_sent ?m px1, e1)))"
    if "length (px_hdr px1) \<le> px_hdr_off px1" "length (px_buf px1) \<le> px_buf_off px1"
    using that True keeps progressed_keeps [OF prog]
    by (intro relay_done [OF moved]) (simp_all add: resp_rest_def body_rest_def body_whole_def)
  show ?thesis
    using True send prog sent relay_dead_client [OF moved [OF refl] U(2)] relay_ok_Inr [OF U(2) moved [of h], of b1]
      relay_ok_leave [OF U(2) moved [of h]] progressed_keeps [OF prog]
    by (auto simp: pump_send_resp_def Let_def)
next
  case False
  obtain hc1 e1 where cork: "cork_client True (hc, e) = (hc1, e1)" by (cases "cork_client True (hc, e)")
  have keep: "hc_conn hc1 = hc_conn hc" "same_io e e1" using cork_client_io [OF cork] by auto
  have way1: "on_way U hc0 A T w (hc1, px, e1)" by (rule on_way_same [OF way keep(2,1)]) simp_all
  show ?thesis
  proof (cases "px_hdr_off px < length (px_hdr px)")
    case no_hdr: False
    then show ?thesis using False cork relay_next [OF way1 U(2)] by (simp add: pump_send_resp_def Let_def)
  next
    case True
    obtain r off e2 where send: "send_loop (hc_fd hc1) (px_hdr px) (px_hdr_off px) e1 = (r, off, e2)"
      by (cases "send_loop (hc_fd hc1) (px_hdr px) (px_hdr_off px) e1")
    note on = sent_on [OF send less_imp_le [OF True]]
    let ?m = "off \<noteq> px_hdr_off px" and ?q = "px\<lparr>px_hdr_off := off\<rparr>"
    obtain b1 h where prog: "progressed ?m now b hc1 = (b1, h)" by (cases "progressed ?m now b hc1")
    have fd: "hc_fd hc1 = hc_fd hc0" using way1 by (simp add: on_way_def)
    have moved: "on_way U hc0 A T w (h', mark_sent ?m ?q, e2)" if "hc_conn h' = hc_conn hc1" for h'
      by (rule on_way_send [OF way1 U(1) _ that, where h = off and b = "px_buf_off px"])
        (use on(2,3) on(1) [of "drop (px_buf_off px) (px_buf px)", OF refl] send_loop_only [OF send] way1 fd in \<open>auto simp: on_way_def\<close>)
    have hdr: "off = length (px_hdr px)" if "\<not> off < length (px_hdr px)" using that on(3) by simp
    show ?thesis
      using False True cork send prog hdr relay_dead_client [OF moved [OF refl] U(2)] relay_yield [OF moved [of h] U(2)]
        relay_next [OF moved [of h] U(2)] progressed_keeps [OF prog]
      by (auto simp: pump_send_resp_def Let_def)
  qed
qed

lemma on_way_empty:
  assumes "on_way U hc0 A T w (hc, q, e)" and "px_buf_off q = length (px_buf q)"
  shows "on_way U hc0 A T w (hc, q\<lparr>px_buf_off := 0, px_buf := []\<rparr>, e)"
proof -
  have frame: "frame_state (q\<lparr>px_buf_off := 0, px_buf := []\<rparr>) = frame_state q" by (simp only: frame_keeps)
  show ?thesis using assms by (simp add: on_way_def resp_rest_def body_same [OF frame])
qed

lemma relay_stream_send:
  assumes way: "on_way U hc0 A T w (hc, px, e)" and phase: "px_phase px = PX_STREAM" and U: "U \<noteq> hc_fd hc0" "0 \<le> U"
    and buf: "px_buf_off px < length (px_buf px)"
  shows "relay_ok U hc0 A T w (pump_stream now b (hc, px, e))"
proof -
  obtain r off e1 where send: "send_loop (hc_fd hc) (px_buf px) (px_buf_off px) e = (r, off, e1)"
    by (cases "send_loop (hc_fd hc) (px_buf px) (px_buf_off px) e")
  note on = sent_on [OF send less_imp_le [OF buf]]
  let ?m = "off \<noteq> px_buf_off px" and ?q = "px\<lparr>px_buf_off := off\<rparr>"
  obtain b1 h where prog: "progressed ?m now b hc = (b1, h)" by (cases "progressed ?m now b hc")
  note conn = progressed_keeps [OF prog, THEN conjunct1]
  have fd: "hc_fd hc = hc_fd hc0" and hdr: "px_hdr_off px = length (px_hdr px)" using way phase by (simp_all add: on_way_def)
  have moved: "on_way U hc0 A T w (h', mark_sent ?m ?q, e1)" if "hc_conn h' = hc_conn hc" for h'
    by (rule on_way_send [OF way U(1) _ that, where h = "px_hdr_off px" and b = off])
      (use on(2,3) on(1) [of "[]", OF refl] send_loop_only [OF send] hdr fd in simp_all)
  have dead: "relay_ok U hc0 A T w (Inl (proxy_close_all (hc, ?q, e1)))"
    by (rule relay_closing) (use on_way_prefix [OF moved [OF refl] same_io_refl] way U(2) in \<open>auto simp: on_way_def\<close>)
  let ?z = "(mark_sent ?m ?q)\<lparr>px_buf_off := 0, px_buf := []\<rparr>"
  have empty: "on_way U hc0 A T w (h, ?z, e1)" if "off = length (px_buf px)"
    by (rule on_way_empty [OF moved [OF conn]]) (use that in simp)
  have over: "relay_ok U hc0 A T w (Inl (proxy_done (h, ?z, e1)))" if "off = length (px_buf px)" "PX_BODY_DONE \<in> px_flags ?z"
    using that hdr by (intro relay_done [OF empty]) (simp_all add: resp_rest_def body_rest_def body_whole_def)
  have all: "off = length (px_buf px)" if "\<not> off < length (px_buf px)" using that on(3) by simp
  show ?thesis
    using buf send prog dead all over relay_yield [OF moved [OF conn] U(2)] relay_ok_Inr [OF U(2) empty]
    by (auto simp: pump_stream_def Let_def)
qed

lemma relay_stream_read:
  assumes way: "on_way U hc0 A T w (hc, px, e)" and phase: "px_phase px = PX_STREAM" and U: "U \<noteq> hc_fd hc0" "0 \<le> U"
    and buf: "\<not> px_buf_off px < length (px_buf px)"
  shows "relay_ok U hc0 A T w (pump_stream now b (hc, px, e))"
proof -
  have px: "px_fd px = U" "px_hdr_off px = length (px_hdr px)" "px_buf_off px = length (px_buf px)"
    "resp_rest px S = body_rest px S" for S
    using way phase buf by (auto simp: on_way_def resp_rest_def)
  show ?thesis
  proof (cases "PX_BODY_DONE \<in> px_flags px")
    case True
    then have "relay_ok U hc0 A T w (Inl (proxy_done (hc, px, e)))"
      by (intro relay_done [OF way]) (simp_all add: px body_rest_def body_whole_def)
    then show ?thesis using True buf by (simp add: pump_stream_def)
  next
    case False
    define cap where "cap = (if PX_RESP_CL \<in> px_flags px \<and> unat (px_resp_left px) < PROXY_BUF_MAX
        then unat (px_resp_left px) else PROXY_BUF_MAX)"
    show ?thesis
    proof (cases "cap = 0")
      case True
      then have left: "PX_RESP_CL \<in> px_flags px" "px_resp_left px = 0"
        by (auto simp: cap_def PROXY_BUF_MAX_def unat_eq_0 split: if_splits)
      then have none: "body_rest px S = []" "body_whole px S" for S
        using way False by (auto simp: on_way_def body_rest_def body_whole_def)
      let ?q = "px\<lparr>px_flags := insert PX_BODY_DONE (px_flags px)\<rparr>"
      have q: "body_rest ?q S = []" "body_whole ?q S" for S by (simp_all add: body_rest_def body_whole_def)
      have "on_way U hc0 A T w (hc, ?q, e)" using way none q by (auto simp: on_way_def resp_rest_def)
      then have "relay_ok U hc0 A T w (Inl (proxy_done (hc, ?q, e)))"
        by (rule relay_done) (use px q in \<open>simp_all add: resp_rest_def\<close>)
      then show ?thesis using True False buf by (simp add: pump_stream_def cap_def Let_def)
    next
      case cap: False
      obtain r bs e1 where read: "sock_read (px_fd px) [] cap e = (r, bs, e1)" by (cases "sock_read (px_fd px) [] cap e")
      have pos: "0 < cap" using cap by simp
      have sent: "k_sent e1 = k_sent e" by (rule sock_read_incoming(1) [OF read pos])
      note inc = sock_read_incoming(2) [OF read pos, unfolded px(1)]
      let ?q = "\<lambda>bs. px\<lparr>px_buf_off := 0, px_buf := bs\<rparr>"
      have frame: "frame_state (?q bs) = frame_state px" for bs by (simp only: frame_keeps)
      have same: "on_way U hc0 A T w (hc, ?q [], e1)" "on_way U hc0 A T w (hc, px, e1)" if "incoming e1 U = incoming e U"
        using way px sent that body_same [OF frame] by (simp_all add: on_way_def resp_rest_def)
      have closing: "relay_ok U hc0 A T w (Inl (proxy_close_all (hc, q, e1)))" if "px_fd q = px_fd px" for q
        by (rule relay_closing) (use that way sent px(1) U(2) in \<open>auto simp: on_way_def\<close>)
      have over: "relay_ok U hc0 A T w (Inl (proxy_done (hc, ?q [], e1)))"
        if "incoming e U = []" "PX_RESP_EOF \<in> px_flags px"
      proof -
        have "body_rest px [] = []" "body_whole px []"
          using that(2) way False by (auto simp: on_way_def body_rest_def body_whole_def)
        then show ?thesis using that(1) way sent px by (intro relay_finish) (auto simp: on_way_def)
      qed
      have noted: "on_way U hc0 A T w (touch now hc, q, e1)"
        if "incoming e U = bs @ incoming e1 U" "note_body (?q bs) (length bs) = Some q" for q
      proof -
        have "note_body (?q bs) (length (px_buf (?q bs))) = Some q" using that(2) by simp
        note rest = note_body_rest [OF this, of "incoming e1 U"]
        have "resp_rest q (incoming e1 U) = body_rest px (incoming e U)" "body_whole q (incoming e1 U) = body_whole px (incoming e U)"
          using rest False px(2) note_body_keeps [OF that(2)] that(1) by (simp_all add: resp_rest_def body_same [OF frame])
        then show ?thesis using way sent px note_body_keeps [OF that(2)] note_body_flags [OF that(2)]
          by (simp add: on_way_def touch_def)
      qed
      have waits: "relay_ok U hc0 A T w (Inl (yield_or_fail IO_WANT_READ IO_IDLE now (hc, ?q [], e1)))"
        if "incoming e1 U = incoming e U"
        by (rule relay_yield [OF same(1) [OF that] U(2)]) simp
      show ?thesis
      proof (cases r)
        case SR_Retry
        then show ?thesis using buf False cap read inc relay_ok_Inr [OF U(2) same(1)]
          by (simp add: pump_stream_def Let_def cap_def [symmetric])
      next
        case SR_Err
        then show ?thesis using buf False cap read closing [of px]
          by (simp add: pump_stream_def Let_def cap_def [symmetric])
      next
        case (SR_Ok again eof)
        then show ?thesis using buf False cap read inc closing over waits relay_ok_Inr [OF U(2) noted]
          by (simp add: pump_stream_def Let_def cap_def [symmetric] split: option.split if_splits)
      qed
    qed
  qed
qed

lemma relay_budget_out:
  assumes way: "on_way U hc0 A T w (hc, px, e)" and "0 \<le> U"
  shows "relay_ok U hc0 A T w (Inl (pump_budget_out now (hc, px, e)))"
  using relay_yield [OF assms, of IO_IDLE] relay_yield [OF assms, of IO_WANT_READ] relay_yield [OF assms, of IO_WANT_WRITE]
    relay_fail [OF assms]
  by (simp add: pump_budget_out_def Let_def)

lemma relay_round:
  assumes way: "on_way U hc0 A T w (hc, px, e)" and U: "U \<noteq> hc_fd hc0" "0 \<le> U"
  shows "relay_ok U hc0 A T w (pump_round now b (hc, px, e))"
proof -
  have "flush_100 (hc, px, e) = (Send_All, px, e)" using way by (simp add: on_way_def flush_100_def)
  then have round: "pump_round now b (hc, px, e)
      = (if b = 0 then Inl (pump_budget_out now (hc, px, e)) else pump_phase now b (hc, px, e))"
    by (simp add: pump_round_def)
  have "px_phase px = PX_SEND_RESP \<or> px_phase px = PX_STREAM" using way by (auto simp: on_way_def)
  then show ?thesis
    using relay_budget_out [OF way U(2)] relay_send_resp [OF way _ U] relay_stream_send [OF way _ U] relay_stream_read [OF way _ U]
    by (cases "px_buf_off px < length (px_buf px)") (auto simp: round pump_phase_def)
qed

lemma relay_loop:
  "pump_loop now b (hc, px, e) = r \<Longrightarrow> on_way U hc0 A T w (hc, px, e) \<Longrightarrow> U \<noteq> hc_fd hc0 \<Longrightarrow> 0 \<le> U \<Longrightarrow>
    relayed U hc0 A T w r"
proof (induction now b "(hc, px, e)" arbitrary: hc px e rule: pump_loop.induct)
  case (1 now b hc px e)
  note ok = relay_round [OF "1.prems"(2-4), of now b]
  show ?case
  proof (cases "pump_round now b (hc, px, e)")
    case (Inl x)
    then show ?thesis using ok "1.prems"(1) by (simp add: pump_loop.simps relay_ok_def)
  next
    case (Inr y)
    obtain b1 hc1 px1 e1 where y: "y = (b1, hc1, px1, e1)" by (cases y)
    have "pump_loop now b1 (hc1, px1, e1) = r" using Inr y "1.prems"(1) by (simp add: pump_loop.simps [of now b])
    moreover have "on_way U hc0 A T w (hc1, px1, e1)" using ok Inr y by (simp add: relay_ok_def)
    ultimately show ?thesis using "1.hyps" [OF Inr y [symmetric]] "1.prems"(3,4) by blast
  qed
qed

lemma relay_pump:
  assumes way: "relaying U hc0 A T w (hc, px, e)" and U: "U \<noteq> hc_fd hc0" "0 \<le> U" and px: "0 \<le> px_fd px"
  shows "relayed U hc0 A T w (proxy_pump now (hc, px, e))"
proof -
  have way: "on_way U hc0 A T w (hc, px, e)" using assms by (simp add: relaying_def)
  show ?thesis using px relay_close_all [OF way U(2)] relay_loop [OF refl way U]
    by (simp add: proxy_pump_def relay_ok_def)
qed

lemma relaying_step:
  assumes "pump_step s s'" and "relaying U hc0 A T w s" and U: "U \<noteq> hc_fd hc0" "0 \<le> U"
  shows "relaying U hc0 A T w s'"
  using assms(1,2)
proof (induction rule: pump_step.induct)
  case (round px now b hc e b' s')
  have way: "on_way U hc0 A T w (hc, px, e)" using round.prems round.hyps(1) by (simp add: relaying_def)
  from relay_round [OF way U, of now b] round.hyps(2) show ?case
    by (cases s') (auto simp: relay_ok_def relaying_def on_way_def)
next
  case (yield px now b hc e io s')
  have way: "on_way U hc0 A T w (hc, px, e)" using yield.prems yield.hyps(1) by (simp add: relaying_def)
  from relay_round [OF way U, of now b] yield.hyps(2) show ?case
    by (cases s') (simp add: relay_ok_def relayed_def)
next
  case (others hc px e e')
  show ?case
  proof (cases "px_fd px < 0")
    case False
    then show ?thesis using others incoming_same [of e' U e] by (simp add: relaying_def on_way_def quiet_def)
  qed (use others in \<open>simp add: relaying_def quiet_def\<close>)
qed

lemma relaying_steps:
  "pump_step\<^sup>*\<^sup>* s s' \<Longrightarrow> relaying U hc0 A T w s \<Longrightarrow> U \<noteq> hc_fd hc0 \<Longrightarrow> 0 \<le> U \<Longrightarrow> relaying U hc0 A T w s'"
  by (induction rule: rtranclp_induct) (auto intro: relaying_step)

section \<open>The head of the response\<close>

lemma rewritten_head:
  assumes rw: "rewrite_response req px src = Some (False, px')"
  shows "px_hdr_off px' = 0" "PX_SEND_100 \<in> px_flags px' \<longleftrightarrow> PX_SEND_100 \<in> px_flags px"
    "PX_RESP_EOF \<in> px_flags px' \<Longrightarrow> PX_RESP_CHUNKED \<notin> px_flags px' \<and> PX_RESP_CL \<notin> px_flags px'"
    "PX_RESP_CL \<in> px_flags px' \<Longrightarrow> PX_RESP_CHUNKED \<notin> px_flags px'"
proof -
  from rw obtain rest code sc px1 sc' where lines: "response_lines rest (response_reset code px) sc = Some (px1, sc')"
    and one: "PX_RESP_CL \<notin> px_flags px1 \<or> PX_RESP_CHUNKED \<notin> px_flags px1"
    and conn: "response_connection req (src ! 7 = 48) (response_framing code px1) sc' = Some px'"
    by (rule rewrite_response_cases) auto
  note keeps = response_connection_keeps [OF conn]
  show "px_hdr_off px' = 0" using keeps by simp
  have flag: "f \<in> px_flags px' \<longleftrightarrow> f \<in> px_flags (response_framing code px1)" if "f \<notin> {PX_UP_CLOSE, PX_CLIENT_KEEP}" for f
    using keeps that by blast
  have head: "f \<in> px_flags px1 \<longleftrightarrow> f \<in> px_flags (response_reset code px)" if "f \<notin> {PX_RESP_CL, PX_RESP_CHUNKED}" for f
    using response_lines_flags [OF lines that] .
  show "PX_SEND_100 \<in> px_flags px' \<longleftrightarrow> PX_SEND_100 \<in> px_flags px"
    by (simp add: flag response_framing_def head response_reset_def)
  have "PX_RESP_EOF \<notin> px_flags px1" by (simp add: head response_reset_def)
  then show "PX_RESP_EOF \<in> px_flags px' \<Longrightarrow> PX_RESP_CHUNKED \<notin> px_flags px' \<and> PX_RESP_CL \<notin> px_flags px'"
    "PX_RESP_CL \<in> px_flags px' \<Longrightarrow> PX_RESP_CHUNKED \<notin> px_flags px'"
    using one by (auto simp: flag response_framing_def split: if_splits)
qed

text \<open>The round that finds the head complete starts the response on its way.\<close>

lemma relay_start:
  assumes run: "pump_response now at b (hc, px, e) = Inr (b1, s1)"
    and rw: "rewrite_response (hc_req hc) px (take (at + 4) (px_buf px)) = Some (False, px1)"
    and px: "PX_SEND_100 \<notin> px_flags px"
    and S: "S = drop (at + 4) (px_buf px) @ incoming e (px_fd px)"
  shows "on_way (px_fd px) hc (k_sent e (hc_fd hc))
      (px_hdr px1 @ (if req_method (hc_req hc) = METHOD_HEAD then [] else body_rest px1 S))
      (req_method (hc_req hc) = METHOD_HEAD \<or> body_whole px1 S) s1"
proof -
  note head = rewritten_head [OF rw] and keep = rewrite_response_keeps [OF rw]
  let ?q = "px1\<lparr>px_buf := drop (at + 4) (px_buf px1), px_buf_off := 0\<rparr>"
  have frame: "frame_state ?q = frame_state px1" by (simp only: frame_keeps)
  show ?thesis
  proof (cases "req_method (hc_req hc) = METHOD_HEAD \<or> PX_BODY_DONE \<in> px_flags px1")
    case True
    obtain fl where s1: "s1 = (hc, ?q\<lparr>px_flags := fl, px_buf := [], px_phase := PX_SEND_RESP\<rparr>, e)"
      and fl: "PX_BODY_DONE \<in> fl" "f \<notin> {PX_BODY_DONE, PX_OVERREAD} \<Longrightarrow> f \<in> fl \<longleftrightarrow> f \<in> px_flags px1" for f
      using run rw True by (auto simp: pump_response_def Let_def split: if_splits)
    let ?p = "?q\<lparr>px_flags := fl, px_buf := [], px_phase := PX_SEND_RESP\<rparr>"
    have none: "(if req_method (hc_req hc) = METHOD_HEAD then [] else body_rest px1 S) = []"
      "(req_method (hc_req hc) = METHOD_HEAD \<or> body_whole px1 S) = True"
      using True by (auto simp: body_rest_def body_whole_def)
    have p: "body_rest ?p S = []" "body_whole ?p S" for S using fl(1) by (simp_all add: body_rest_def body_whole_def)
    have flags: "PX_SEND_100 \<notin> fl" "PX_RESP_EOF \<in> fl \<longrightarrow> PX_RESP_CHUNKED \<notin> fl \<and> PX_RESP_CL \<notin> fl"
      "PX_RESP_CL \<in> fl \<longrightarrow> PX_RESP_CHUNKED \<notin> fl"
      using head(2-4) px fl(2) by simp_all
    show ?thesis unfolding none s1 on_way_def prod.case resp_rest_def p using flags p head(1) keep by simp
  next
    case False
    let ?n = "length (px_buf px1) - (at + 4)"
    have "(if 0 < ?n then note_body ?q ?n else Some ?q) = note_body ?q ?n" by (simp add: note_body_def)
    then have "pump_response now at b (hc, px, e) = (case note_body ?q ?n of None \<Rightarrow> Inl (proxy_fail now (hc, ?q, e))
        | Some q \<Rightarrow> Inr (b, hc, q\<lparr>px_phase := PX_SEND_RESP\<rparr>, e))"
      using rw False by (simp add: pump_response_def Let_def)
    then obtain q where nb: "note_body ?q (length (px_buf ?q)) = Some q" and s1: "s1 = (hc, q\<lparr>px_phase := PX_SEND_RESP\<rparr>, e)"
      using run by (cases "note_body ?q ?n") auto
    have frame': "frame_state (q\<lparr>px_phase := PX_SEND_RESP\<rparr>) = frame_state q" by (simp only: frame_keeps)
    have "px_buf q @ body_rest q (incoming e (px_fd px)) = body_rest px1 S" "body_whole q (incoming e (px_fd px)) = body_whole px1 S"
      using note_body_rest [OF nb, of "incoming e (px_fd px)", unfolded body_same [OF frame]] False S keep by simp_all
    then show ?thesis using False head keep px note_body_keeps [OF nb] note_body_flags [OF nb]
      by (simp add: s1 on_way_def resp_rest_def body_same [OF frame'])
  qed
qed

text \<open>
  C29. The client gets the response exactly, whatever the sizes of the reads and writes. Take the
  moment at which the head of the response is complete, and any later call of \<open>proxy_pump\<close> on the
  open exchange, whatever the other slots do in between. What the client has been sent since then is
  a prefix of the rewritten head and the body, where the body is the part of the upstream's bytes
  that its frame_state (chunks, \<open>Content-Length\<close> or the end of the stream) delimits. \<open>IO_DONE\<close> is
  returned only with all of it sent, and only if the upstream has delivered the body whole. An error
  page is armed only while not a byte of the response has gone out.
\<close>

theorem response_exact:
  fixes e e' e'' :: "'a proxy_env_scheme"
  assumes "pump_response now at b (hc, px, e) = Inr (b1, s1)"
    and "rewrite_response (hc_req hc) px (take (at + 4) (px_buf px)) = Some (False, px1)"
    and "PX_SEND_100 \<notin> px_flags px" and "0 \<le> px_fd px" and "px_fd px \<noteq> hc_fd hc"
    and "pump_step\<^sup>*\<^sup>* s1 (hc', px', e')" and "0 \<le> px_fd px'"
    and "proxy_pump now' (hc', px', e') = (io, hc'', px'', e'')"
  shows "let from_upstream = drop (at + 4) (px_buf px) @ incoming e (px_fd px);
             no_body = (req_method (hc_req hc) = METHOD_HEAD);
             response = px_hdr px1 @ (if no_body then [] else body_rest px1 from_upstream)
         in (\<exists>rest. k_sent e'' (hc_fd hc) @ rest = k_sent e (hc_fd hc) @ response)
          \<and> (io = IO_DONE \<longrightarrow> k_sent e'' (hc_fd hc) = k_sent e (hc_fd hc) @ response
              \<and> (no_body \<or> body_whole px1 from_upstream))
          \<and> (px_fd px'' < 0 \<and> io \<noteq> IO_DONE \<and> io \<noteq> IO_CLOSE \<longrightarrow> k_sent e'' (hc_fd hc) = k_sent e (hc_fd hc))"
proof -
  define S where "S = drop (at + 4) (px_buf px) @ incoming e (px_fd px)"
  note way = relay_start [OF assms(1-3) S_def]
  have "relaying (px_fd px) hc (k_sent e (hc_fd hc))
      (px_hdr px1 @ (if req_method (hc_req hc) = METHOD_HEAD then [] else body_rest px1 S))
      (req_method (hc_req hc) = METHOD_HEAD \<or> body_whole px1 S) (hc', px', e')"
    by (rule relaying_steps [OF assms(6) _ assms(5,4)])
      (use way assms(4) in \<open>cases s1; simp add: relaying_def; simp add: on_way_def\<close>)
  from relay_pump [OF this assms(5,4,7), of now'] assms(8)
  have "relayed (px_fd px) hc (k_sent e (hc_fd hc))
      (px_hdr px1 @ (if req_method (hc_req hc) = METHOD_HEAD then [] else body_rest px1 S))
      (req_method (hc_req hc) = METHOD_HEAD \<or> body_whole px1 S) (io, hc'', px'', e'')" by simp
  then show ?thesis
    by (cases "px_fd px'' < 0") (auto simp: Let_def S_def relayed_def relaying_def on_way_def)
qed

text \<open>Five body bytes, two of which came with the head; the next response on the connection is left alone.\<close>

definition five_response :: "byte list" where
  "five_response = bytes ''HTTP/1.1 200 OK'' @ [CR, LF] @ bytes ''Content-Length: 5'' @ [CR, LF, CR, LF] @ bytes ''he''"

definition five_head :: "byte list" where
  "five_head = bytes ''HTTP/1.1 200 OK'' @ [CR, LF] @ bytes ''Content-Length: 5'' @ [CR, LF] @ CONNECTION_KEEP"

definition five_px :: proxy_conn where
  "five_px = px_conn0\<lparr>px_fd := 9, px_up_addr := [1], px_phase := PX_RECV_HDR, px_buf := five_response\<rparr>"

definition five_env :: proxy_env where
  "five_env = proxy_env0\<lparr>k_reads := (\<lambda>_. [])(9 := [Rd (bytes ''l''), Rd_Intr, Rd (bytes ''loHTTP'')]),
     k_writes := (\<lambda>_. [])(5 := [Wr 10, Wr_Intr, Wr 100, Wr 1, Wr 1, Wr 1, Wr 1, Wr 1])\<rparr>"

lemma five_rewrite:
  "rewrite_response (hc_req eof_conn) five_px (take 38 five_response) =
    Some (False, (response_reset 200 five_px)\<lparr>px_resp_left := 5, px_flags := {PX_RESP_CL, PX_CLIENT_KEEP},
      px_hdr := five_head, px_hdr_off := 0\<rparr>)"
  by (simp add: rewrite_response_def five_response_def bytes_def append_bytes_def PROXY_HDR_MAX_def response_code_def five_px_def
      response_lines.simps response_line_def response_field_def named_def ieq_def lower_byte_def hop_by_hop_def parse_u64_def
      trim_ows_def is_ows_def response_connection_def response_framing_def response_reset_def eof_conn_fields Let_def
      five_head_def memchr.simps is_digit_def length_CONNECTION_KEEP insert_commute px_conn0_def)

definition five_conn :: http_conn where
  "five_conn = eof_conn\<lparr>hc_deadline := 30000\<rparr>"

lemma five_fields:
  "hc_fd five_conn = 5" "hc_req five_conn = hc_req eof_conn" "hc_deadline five_conn = 30000"
  "hc_cork_on five_conn = False" "hc_send_timeout five_conn = 30000" "length five_head = 62" "length five_response = 40"
  "drop 38 five_response = bytes ''he''"
  by (simp_all add: five_conn_def eof_conn_fields five_head_def length_CONNECTION_KEEP five_response_def bytes_def)

lemma response_exact_witness:
  "\<exists>hc' px' e'. proxy_pump 0 (five_conn, (response_reset 200 five_px)\<lparr>px_resp_left := 3, px_flags := {PX_RESP_CL, PX_CLIENT_KEEP},
      px_hdr := five_head, px_hdr_off := 0, px_buf := bytes ''he'', px_buf_off := 0, px_phase := PX_SEND_RESP\<rparr>, five_env) =
      (IO_DONE, hc', px', e')
    \<and> k_sent e' 5 = five_head @ bytes ''hello''"
proof -
  let ?px1 = "(response_reset 200 five_px)\<lparr>px_resp_left := 5, px_flags := {PX_RESP_CL, PX_CLIENT_KEEP},
      px_hdr := five_head, px_hdr_off := 0\<rparr>"
  let ?s = "(five_conn, (response_reset 200 five_px)\<lparr>px_resp_left := 3, px_flags := {PX_RESP_CL, PX_CLIENT_KEEP},
      px_hdr := five_head, px_hdr_off := 0, px_buf := bytes ''he'', px_buf_off := 0, px_phase := PX_SEND_RESP\<rparr>, five_env)"
  have buf: "px_buf five_px = five_response" by (simp add: five_px_def)
  have rw: "rewrite_response (hc_req five_conn) five_px (take (34 + 4) (px_buf five_px)) = Some (False, ?px1)"
    using five_rewrite by (simp add: five_fields buf)
  have start: "pump_response 0 34 16 (five_conn, five_px, five_env) = Inr (16, ?s)"
    using rw by (simp add: pump_response_def Let_def note_body_def five_fields buf eof_conn_fields response_reset_def bytes_def)
  have "\<exists>hc' px' e'. proxy_pump 0 ?s = (IO_DONE, hc', px', e')"
    by (simp add: proxy_pump_def pump_evals evals five_fields five_px_def px_conn0_def five_env_def response_reset_def note_body_def
        proxy_env0_def cork_client_def mark_sent_def proxy_done_def bytes_def Let_def split: prod.split)
  then obtain hc' px' e' where run: "proxy_pump 0 ?s = (IO_DONE, hc', px', e')" by blast
  have "incoming five_env 9 = bytes ''lloHTTP''" "k_sent five_env 5 = []"
    by (simp_all add: incoming_def five_env_def proxy_env0_def bytes_def)
  then have "k_sent e' 5 = five_head @ bytes ''hello''"
    using response_exact [OF start rw _ _ _ rtranclp.rtrancl_refl _ run]
    by (simp add: five_fields eof_conn_fields buf five_px_def px_conn0_def response_reset_def body_rest_def bytes_def Let_def)
  with run show ?thesis by blast
qed

end
