(* ===== verification/Conn_Keeps.thy ===== *)
theory Conn_Keeps
  imports Proxy_Pump Static_Serve
begin

text \<open>
  What no handler of \<^verbatim>\<open>src/static.c\<close> or \<^verbatim>\<open>src/proxy.c\<close> touches: the client socket, the bytes that
  were read from it, and the parsed request. The loops of \<^verbatim>\<open>src/http.c\<close> and \<^verbatim>\<open>src/worker.c\<close> end
  because of this.
\<close>

definition keeps_input :: "http_conn \<Rightarrow> http_conn \<Rightarrow> bool" where
  "keeps_input hc hc' = (hc_conn hc' = hc_conn hc \<and> hc_buf hc' = hc_buf hc \<and> hc_header_cap hc' = hc_header_cap hc
     \<and> hc_req hc' = hc_req hc)"

lemma keeps_input_refl [simp]: "keeps_input hc hc"
  by (simp add: keeps_input_def)

lemma keeps_input_trans: "keeps_input hc hc' \<Longrightarrow> keeps_input hc' hc'' \<Longrightarrow> keeps_input hc hc''"
  by (simp add: keeps_input_def)

section \<open>Static responses\<close>

lemma static_arm_fixed_keeps [unfolded keeps_input_def, simp]: "keeps_input hc (fst (Static_Serve.arm_fixed cl kp ak st now (hc, e)))"
  by (auto simp: Static_Serve.arm_fixed_def keeps_input_def Let_def split: bool.splits option.splits)

lemma hc_alloc_keeps: "hc_alloc n hc = (ok, hc') \<Longrightarrow> keeps_input hc hc'"
  by (auto simp: hc_alloc_def keeps_input_def split: prod.splits)

lemma cork_keeps [unfolded keeps_input_def, simp]: "keeps_input hc (fst (cork on (hc, e)))"
  by (simp add: cork_def keeps_input_def)

lemma arm_open_error_keeps [unfolded keeps_input_def, simp]: "keeps_input hc (fst (arm_open_error err now (hc, e)))"
  by (simp add: arm_open_error_def keeps_input_def)

lemma arm_dir_redirect_keeps [unfolded keeps_input_def, simp]: "keeps_input hc (fst (arm_dir_redirect path now (hc, e)))"
  unfolding keeps_input_def
  by (auto simp: arm_dir_redirect_def Let_def split: prod.split bool.split dest!: hc_alloc_keeps [unfolded keeps_input_def])

lemma arm_regular_keeps [unfolded keeps_input_def, simp]: "keeps_input hc (fst (arm_regular fd sz mime owned now (hc, e)))"
  unfolding keeps_input_def
  by (auto simp: arm_regular_def Let_def split: prod.split bool.split dest!: hc_alloc_keeps [unfolded keeps_input_def])

lemma serve_hit_keeps: "serve_hit uc rel now (hc, e) = Inl r \<Longrightarrow> keeps_input hc (fst r)"
  by (auto simp: serve_hit_def keeps_input_def Let_def split: if_splits prod.splits option.splits bool.splits)

lemma serve_file_keeps [unfolded keeps_input_def, simp]: "keeps_input hc (fst (serve_file uc rel fd st now (hc, e)))"
  by (simp add: serve_file_def keeps_input_def Let_def split: prod.split option.split)

lemma serve_index_keeps [unfolded keeps_input_def, simp]: "keeps_input hc (fst (serve_index d uc rel now (hc, e)))"
  by (auto simp: serve_index_def keeps_input_def Let_def split: prod.split option.split sum.split dest: serve_hit_keeps [unfolded keeps_input_def])

lemma serve_path_keeps [unfolded keeps_input_def, simp]: "keeps_input hc (fst (serve_path d uc dec rel redir now (hc, e)))"
  by (auto simp: serve_path_def keeps_input_def Let_def split: prod.split option.split sum.split dest: serve_hit_keeps [unfolded keeps_input_def])

lemma static_serve_keeps [unfolded keeps_input_def, simp]: "keeps_input hc (fst (static_serve d uc url redir now (hc, e)))"
  unfolding keeps_input_def
  by (auto simp: static_serve_def Let_def split: prod.split dest!: hc_alloc_keeps [unfolded keeps_input_def])

lemma static_begin_keeps [unfolded keeps_input_def, simp]:
  "keeps_input hc (fst (static_begin now (hc, e)))" "keeps_input hc (fst (static_begin_at d url redir now (hc, e)))"
  by (simp_all add: static_begin_def static_begin_at_def keeps_input_def)

lemma static_begin_file_keeps [unfolded keeps_input_def, simp]: "keeps_input hc (fst (static_begin_file path now (hc, e)))"
  by (simp add: static_begin_file_def keeps_input_def split: prod.split option.split sum.split)

lemma static_done_keeps [unfolded keeps_input_def, simp]: "keeps_input hc (fst (snd (static_done (hc, e))))"
  by (simp add: static_done_def cork_def keeps_input_def)

lemma static_send_body_keeps [unfolded keeps_input_def, simp]: "keeps_input hc (fst (snd (static_send_body (hc, e))))"
  by (auto simp: static_send_body_def static_done_def cork_def keeps_input_def split: prod.split send_end.split)

lemma static_on_write_keeps [unfolded keeps_input_def, simp]: "keeps_input hc (fst (snd (static_on_write (hc, e))))"
  by (auto simp: static_on_write_def static_send_body_def static_done_def cork_def keeps_input_def Let_def
      split: prod.split send_end.split)

section \<open>Proxied exchanges\<close>

lemma touch_keeps_input [unfolded keeps_input_def, simp]: "keeps_input hc (touch now hc)"
  by (simp add: touch_def keeps_input_def)

lemma progressed_keeps_input: "progressed m now b hc = (b', hc') \<Longrightarrow> keeps_input hc hc'"
  by (auto simp: progressed_def keeps_input_def split: if_splits)

lemma progressed_snd [unfolded keeps_input_def, simp]: "keeps_input hc (snd (progressed m now b hc))"
  by (simp add: progressed_def keeps_input_def)

lemma proxy_fail_keeps [unfolded keeps_input_def, simp]: "keeps_input hc (fst (snd (proxy_fail now (hc, px, e))))"
  by (auto simp: proxy_fail_def Proxy_Pump.arm_fixed_def keeps_input_def split: prod.split)

lemma proxy_close_all_keeps [unfolded keeps_input_def, simp]: "keeps_input hc (fst (snd (proxy_close_all (hc, px, e))))"
  by (simp add: proxy_close_all_def keeps_input_def)

lemma cork_client_keeps: "cork_client on (hc, e) = (hc', e') \<Longrightarrow> keeps_input hc hc'"
  by (auto simp: cork_client_def keeps_input_def split: if_splits prod.splits bool.splits)

lemma cork_client_fst [unfolded keeps_input_def, simp]: "keeps_input hc (fst (cork_client on (hc, e)))"
  by (cases "cork_client on (hc, e)") (simp add: cork_client_keeps)

lemma proxy_done_keeps [unfolded keeps_input_def, simp]: "keeps_input hc (fst (snd (proxy_done (hc, px, e))))"
proof -
  obtain hc1 e1 where c: "cork_client False (hc, e) = (hc1, e1)" by (cases "cork_client False (hc, e)")
  from cork_client_keeps [OF c] show ?thesis using c by (auto simp: proxy_done_def keeps_input_def split: prod.split)
qed

lemma yield_keeps [unfolded keeps_input_def, simp]: "keeps_input hc (fst (snd (yield_or_fail a b now (hc, px, e))))"
  by (auto simp: yield_or_fail_def keeps_input_def split: prod.split option.split)

lemma proxy_retry_keeps: "proxy_retry_idle (hc, px, e) = (r, hc', px', e') \<Longrightarrow> hc' = hc"
  by (auto simp: proxy_retry_idle_def split: if_splits prod.splits bool.splits)

lemma dead_client_keeps [unfolded keeps_input_def, simp]: "keeps_input hc (fst (snd (dead_client now (hc, px, e))))"
  by (simp add: dead_client_def keeps_input_def)

text \<open>The client connection a round leaves.\<close>

fun round_conn :: "'a round \<Rightarrow> http_conn" where
  "round_conn (Inl (io, hc, s)) = hc"
| "round_conn (Inr (b, hc, s)) = hc"

lemma round_conn_Inl [simp]: "round_conn (Inl r) = fst (snd r)"
  by (cases r) auto

lemma send_req_keeps [unfolded keeps_input_def, simp]: "keeps_input hc (round_conn (pump_send_req now b (hc, px, e)))"
  unfolding keeps_input_def
  by (auto simp: pump_send_req_def Let_def start_recv_def split: prod.split bool.split
      dest!: progressed_keeps_input [unfolded keeps_input_def])

lemma send_body_keeps [unfolded keeps_input_def, simp]: "keeps_input hc (round_conn (pump_send_body now b (hc, px, e)))"
  unfolding keeps_input_def
  by (simp add: pump_send_body_def Let_def case_prod_beta)

lemma pump_response_keeps [unfolded keeps_input_def, simp]: "keeps_input hc (round_conn (pump_response now at b (hc, px, e)))"
  unfolding keeps_input_def
  by (auto simp: pump_response_def Let_def split: prod.split option.split)

lemma retry_or_fail_keeps [unfolded keeps_input_def, simp]: "keeps_input hc (round_conn (retry_or_fail now b (hc, px, e)))"
  unfolding keeps_input_def
  by (auto simp: retry_or_fail_def split: prod.split dest!: proxy_retry_keeps)

lemma recv_hdr_keeps [unfolded keeps_input_def, simp]: "keeps_input hc (round_conn (pump_recv_hdr now b (hc, px, e)))"
  unfolding keeps_input_def
  by (auto simp: pump_recv_hdr_def Let_def split: prod.split option.split sock_result.split)

lemma send_resp_keeps [unfolded keeps_input_def, simp]: "keeps_input hc (round_conn (pump_send_resp now b (hc, px, e)))"
proof (cases "PX_BODY_DONE \<in> px_flags px")
  case True
  obtain r px1 e1 where send: "send_gathered (hc, px, e) = (r, px1, e1)" by (cases "send_gathered (hc, px, e)")
  let ?moved = "px_hdr_off px1 \<noteq> px_hdr_off px \<or> px_buf_off px1 \<noteq> px_buf_off px"
  obtain b1 h where prog: "progressed ?moved now b hc = (b1, h)" by (cases "progressed ?moved now b hc")
  show ?thesis using True send prog progressed_keeps_input [OF prog]
    by (simp add: pump_send_resp_def Let_def keeps_input_def)
next
  case False
  obtain hc1 e1 where cork: "cork_client True (hc, e) = (hc1, e1)" by (cases "cork_client True (hc, e)")
  obtain r off e2 where send: "send_loop (hc_fd hc1) (px_hdr px) (px_hdr_off px) e1 = (r, off, e2)"
    by (cases "send_loop (hc_fd hc1) (px_hdr px) (px_hdr_off px) e1")
  obtain b1 h where prog: "progressed (off \<noteq> px_hdr_off px) now b hc1 = (b1, h)"
    by (cases "progressed (off \<noteq> px_hdr_off px) now b hc1")
  show ?thesis using False cork send prog progressed_keeps_input [OF prog] cork_client_keeps [OF cork]
    by (simp add: pump_send_resp_def Let_def keeps_input_def)
qed

lemma stream_keeps [unfolded keeps_input_def, simp]: "keeps_input hc (round_conn (pump_stream now b (hc, px, e)))"
proof (cases "px_buf_off px < length (px_buf px)")
  case True
  obtain r off e1 where send: "send_loop (hc_fd hc) (px_buf px) (px_buf_off px) e = (r, off, e1)"
    by (cases "send_loop (hc_fd hc) (px_buf px) (px_buf_off px) e")
  obtain b1 h where prog: "progressed (off \<noteq> px_buf_off px) now b hc = (b1, h)"
    by (cases "progressed (off \<noteq> px_buf_off px) now b hc")
  show ?thesis using True send prog progressed_keeps_input [OF prog]
    by (simp add: pump_stream_def Let_def keeps_input_def)
next
  case False
  define cap where "cap = (if PX_RESP_CL \<in> px_flags px \<and> unat (px_resp_left px) < PROXY_BUF_MAX
      then unat (px_resp_left px) else PROXY_BUF_MAX)"
  obtain r buf e1 where read: "sock_read (px_fd px) [] cap e = (r, buf, e1)" by (cases "sock_read (px_fd px) [] cap e")
  show ?thesis using False read
    by (simp add: pump_stream_def Let_def cap_def [symmetric] keeps_input_def split: sock_result.split option.split)
qed

lemma pump_round_keeps: "keeps_input hc (round_conn (pump_round now b (hc, px, e)))"
proof -
  obtain r px1 e1 where flush: "flush_100 (hc, px, e) = (r, px1, e1)" by (cases "flush_100 (hc, px, e)")
  have "keeps_input hc (round_conn (pump_phase now b (hc, px1, e1)))"
    by (simp add: pump_phase_def keeps_input_def split: px_phase.split)
  moreover have "keeps_input hc (fst (snd (pump_budget_out now (hc, px1, e1))))"
    by (simp add: pump_budget_out_def keeps_input_def Let_def)
  ultimately show ?thesis using flush
    by (cases r) (simp_all add: pump_round_def keeps_input_def)
qed

lemma pump_loop_keeps: "pump_loop now b (hc, px, e) = (io, hc', s') \<Longrightarrow> keeps_input hc hc'"
proof (induction now b "(hc, px, e)" arbitrary: hc px e rule: pump_loop.induct)
  case (1 now b hc px e)
  note keep = pump_round_keeps [of hc now b px e]
  show ?case
  proof (cases "pump_round now b (hc, px, e)")
    case (Inl r)
    then show ?thesis using "1.prems" keep by (simp add: pump_loop.simps)
  next
    case (Inr r)
    obtain b1 hc1 px1 e1 where r: "r = (b1, hc1, px1, e1)" by (cases r)
    then have "pump_loop now b1 (hc1, px1, e1) = (io, hc', s')"
      using "1.prems" Inr by (subst (asm) pump_loop.simps) simp
    with "1.hyps" [OF Inr r [symmetric]] have "keeps_input hc1 hc'" .
    then show ?thesis using keep Inr r by (auto intro: keeps_input_trans)
  qed
qed

lemma proxy_pump_keeps: "proxy_pump now (hc, px, e) = (io, hc', s') \<Longrightarrow> keeps_input hc hc'"
  by (auto simp: proxy_pump_def proxy_close_all_def split: if_splits dest: pump_loop_keeps)

lemma proxy_begin_keeps:
  assumes "proxy_begin upstream now (hc, px, e) = (io, hc', s')"
  shows "keeps_input hc hc'"
proof -
  have fail: "keeps_input hc hc'" if "proxy_fail now (hc, q, e1) = (io, hc', s')" for q :: proxy_conn and e1 :: "'a proxy_env_scheme"
    using that by (auto simp: proxy_fail_def Proxy_Pump.arm_fixed_def keeps_input_def split: prod.splits if_splits)
  have pump: "keeps_input hc hc'"
    if "proxy_pump now (hc\<lparr>hc_keep := False, hc_deadline := d\<rparr>, q, e1) = (io, hc', s')" for d and q :: proxy_conn and e1 :: "'a proxy_env_scheme"
    using proxy_pump_keeps [OF that] by (simp add: keeps_input_def)
  have fixed: "keeps_input hc (Proxy_Pump.arm_fixed resp st now hc)" for resp st
    by (simp add: Proxy_Pump.arm_fixed_def keeps_input_def)
  show ?thesis
    using assms fixed unfolding proxy_begin_def Let_def prod.case
    by (auto split: if_splits option.splits prod.splits bool.splits dest: fail pump)
qed

end
