(* ===== verification/Http_Conn.thy ===== *)
theory Http_Conn
  imports Conn_Keeps Routes
begin

text \<open>
  One slot between its client and a handler: \<^verbatim>\<open>src/http.c\<close>, and \<open>route_begin\<close> with what it calls in
  \<^verbatim>\<open>src/routes.c\<close>. The handlers work on the slot that \<open>route_bind\<close> has set, which is always the one
  the worker is dealing with; it is passed along here. The routes are the installed table \<open>g_site\<close>.
\<close>

text \<open>\<open>tiny_slot\<close>; the arena is the one of its connection. \<open>armed_io\<close> 0 is \<open>IO_DONE\<close>.\<close>

record tiny_slot =
  sl_active :: bool
  sl_armed_io :: http_io
  sl_proxying :: bool
  sl_hc :: http_conn
  sl_px :: proxy_conn

type_synonym 'a slot_state = "tiny_slot \<times> 'a proxy_env_scheme"

definition RESPONSE_431 :: "byte list" where
  "RESPONSE_431 = head_text (map bytes
     [''HTTP/1.1 431 Request Header Fields Too Large'', ''Content-Length: 0'', ''Connection: close''])"
definition RESPONSE_501 :: "byte list" where
  "RESPONSE_501 = head_text (map bytes [''HTTP/1.1 501 Not Implemented'', ''Content-Length: 0'', ''Connection: close''])"

definition RESP_404 :: "byte list" where
  "RESP_404 = head_text (map bytes [''HTTP/1.1 404 Not Found'', ''Content-Length: 0'', ''Connection: close''])"
definition RESP_500 :: "byte list" where
  "RESP_500 = head_text (map bytes [''HTTP/1.1 500 Internal Server Error'', ''Content-Length: 0'', ''Connection: close''])"
definition RESP_501 :: "byte list" where
  "RESP_501 = head_text (map bytes [''HTTP/1.1 501 Not Implemented'', ''Content-Length: 0'', ''Connection: close''])"

section \<open>Choosing a handler\<close>

definition arm_close :: "byte list \<Rightarrow> u16 \<Rightarrow> u64 \<Rightarrow> 'a slot_state \<Rightarrow> http_io \<times> 'a slot_state" where
  "arm_close resp status now_ms = (\<lambda>(sl, e).
     (let hc = sl_hc sl in
      (IO_WANT_WRITE, sl\<lparr>sl_hc := hc\<lparr>hc_fixed := resp, hc_fixed_off := 0, hc_phase := PHASE_WRITE_FIXED,
         hc_deadline := now_ms + hc_send_timeout hc, hc_keep := False, hc_status := status\<rparr>\<rparr>, e)))"

text \<open>The static handlers all return \<open>HTTP_IO_WANT_WRITE\<close>.\<close>

definition begin_static ::
  "(http_conn \<times> 'a proxy_env_scheme \<Rightarrow> http_conn \<times> 'a proxy_env_scheme) \<Rightarrow> 'a slot_state \<Rightarrow> http_io \<times> 'a slot_state" where
  "begin_static f = (\<lambda>(sl, e). (case f (sl_hc sl, e) of (hc, e) \<Rightarrow> (IO_WANT_WRITE, sl\<lparr>sl_hc := hc\<rparr>, e)))"

definition serve_mount :: "tiny_route \<Rightarrow> byte list \<Rightarrow> u64 \<Rightarrow> 'a slot_state \<Rightarrow> http_io \<times> 'a slot_state" where
  "serve_mount r path now_ms s =
     (let n = length (r_prefix r);
          cut = (if n > 0 \<and> r_prefix r ! (n - 1) = 47 then n - 1 else n)
      in if length path \<le> cut then begin_static (static_begin_at (r_dir_fd r) [47] path now_ms) s
         else
           (let url = drop cut path
            in if url ! 0 \<noteq> 47 then arm_close RESP_500 500 now_ms s
               else begin_static (static_begin_at (r_dir_fd r) url path now_ms) s))"

definition app_begin :: "tiny_route \<Rightarrow> u64 \<Rightarrow> 'a slot_state \<Rightarrow> http_io \<times> 'a slot_state" where
  "app_begin r now_ms = arm_close RESP_501 501 now_ms"

definition route_begin :: "tiny_route list \<Rightarrow> u64 \<Rightarrow> 'a slot_state \<Rightarrow> http_io \<times> 'a slot_state" where
  "route_begin routes now_ms = (\<lambda>(sl, e).
     (if length routes = 1 \<and> r_primary (routes ! 0) then begin_static (static_begin now_ms) (sl, e)
      else
        (let path = request_path (sl_hc sl)
         in case route_match routes path of
              None \<Rightarrow> arm_close RESP_404 404 now_ms (sl, e)
            | Some r \<Rightarrow>
                (case r_type r of
                   ROUTE_STATIC \<Rightarrow>
                     (if r_exact r then begin_static (static_begin_file (r_target r) now_ms) (sl, e)
                      else if r_primary r then begin_static (static_begin now_ms) (sl, e)
                      else serve_mount r path now_ms (sl, e))
                 | ROUTE_PROXY \<Rightarrow>
                     (case proxy_begin (r_upstream r) now_ms (sl_hc sl, sl_px sl, e) of
                        (io, hc, px, e) \<Rightarrow> (io, sl\<lparr>sl_proxying := (px_fd px \<ge> 0), sl_hc := hc, sl_px := px\<rparr>, e))
                 | ROUTE_APP \<Rightarrow> app_begin r now_ms (sl, e)
                 | ROUTE_NONE \<Rightarrow> arm_close RESP_500 500 now_ms (sl, e)))))"

section \<open>Writing\<close>

definition arm_fixed_close :: "byte list \<Rightarrow> u16 \<Rightarrow> u64 \<Rightarrow> http_conn \<Rightarrow> http_conn" where
  "arm_fixed_close resp status now_ms hc = hc\<lparr>hc_fixed := resp, hc_fixed_off := 0, hc_phase := PHASE_WRITE_FIXED,
     hc_deadline := now_ms + hc_send_timeout hc, hc_keep := False, hc_status := status\<rparr>"

definition write_fixed :: "http_conn \<times> 'a proxy_env_scheme \<Rightarrow> http_io \<times> http_conn \<times> 'a proxy_env_scheme" where
  "write_fixed = (\<lambda>(hc, e).
     (case send_loop (hc_fd hc) (hc_fixed hc) (hc_fixed_off hc) e of
        (r, off, e) \<Rightarrow>
          ((case r of Send_All \<Rightarrow> IO_DONE | Send_Again \<Rightarrow> IO_WANT_WRITE | Send_Dead \<Rightarrow> IO_CLOSE),
           hc\<lparr>hc_fixed_off := off\<rparr>, e)))"

definition http_conn_on_write :: "u64 \<Rightarrow> 'a slot_state \<Rightarrow> http_io \<times> 'a slot_state" where
  "http_conn_on_write now_ms = (\<lambda>(sl, e).
     (if now_ms \<ge> hc_deadline (sl_hc sl) then (IO_CLOSE, sl, e)
      else
        (let hc = (sl_hc sl)\<lparr>hc_last_active := now_ms\<rparr>
         in case (case hc_phase hc of
                PHASE_WRITE_FIXED \<Rightarrow> write_fixed (hc, e)
              | PHASE_WRITE_HDR \<Rightarrow> static_on_write (hc, e)
              | PHASE_SENDFILE \<Rightarrow> static_on_write (hc, e)
              | PHASE_READ \<Rightarrow> (IO_WANT_READ, hc, e)) of
              (io, hc, e) \<Rightarrow> (io, sl\<lparr>sl_hc := hc\<rparr>, e))))"

section \<open>Parsing what is there\<close>

definition answer_close :: "byte list \<Rightarrow> u16 \<Rightarrow> u64 \<Rightarrow> 'a slot_state \<Rightarrow> http_io \<times> 'a slot_state" where
  "answer_close resp status now_ms = (\<lambda>(sl, e).
     http_conn_on_write now_ms (sl\<lparr>sl_hc := arm_fixed_close resp status now_ms (sl_hc sl)\<rparr>, e))"

text \<open>\<open>result\<close> is the verdict of the parser, which has stored the request.\<close>

definition dispatch_parsed ::
  "tiny_route list \<Rightarrow> parse_error + nat \<Rightarrow> u64 \<Rightarrow> 'a slot_state \<Rightarrow> http_io \<times> 'a slot_state" where
  "dispatch_parsed routes result now_ms = (\<lambda>(sl, e).
     (if result = Inl PARSE_BAD then answer_close RESPONSE_400 400 now_ms (sl, e)
      else if result = Inl PARSE_UNSUPPORTED then answer_close RESPONSE_501 501 now_ms (sl, e)
      else if req_method (hc_req (sl_hc sl)) = METHOD_UNKNOWN then answer_close RESPONSE_501 501 now_ms (sl, e)
      else
        (case route_begin routes now_ms (sl, e) of
           (rc, sl, e) \<Rightarrow>
             (if rc = IO_WANT_WRITE \<and> hc_phase (sl_hc sl) \<noteq> PHASE_READ then http_conn_on_write now_ms (sl, e)
              else (rc, sl, e)))))"

text \<open>
  After a verdict other than success the request is not looked at any more (the connection is closed,
  or parsed anew), so what the parser has stored by then is left out.
\<close>

definition try_parse_buffer :: "tiny_route list \<Rightarrow> u64 \<Rightarrow> 'a slot_state \<Rightarrow> http_io \<times> 'a slot_state" where
  "try_parse_buffer routes now_ms = (\<lambda>(sl, e).
     (let hc = sl_hc sl in
      if hc_buf hc = [] then (IO_WANT_READ, sl, e)
      else
        (case http_parse_request (hc_buf hc) (length (hc_buf hc)) of
           Inl PARSE_INCOMPLETE \<Rightarrow>
             (if length (hc_buf hc) \<ge> hc_header_cap hc then answer_close RESPONSE_431 431 now_ms (sl, e)
              else (IO_WANT_READ, sl, e))
         | Inl err \<Rightarrow> dispatch_parsed routes (Inl err) now_ms (sl, e)
         | Inr (n, req) \<Rightarrow> dispatch_parsed routes (Inr n) now_ms (sl\<lparr>sl_hc := hc\<lparr>hc_req := req\<rparr>\<rparr>, e))))"

section \<open>Life of a connection\<close>

definition reset_request_state :: "u64 \<Rightarrow> u64 \<Rightarrow> http_conn \<Rightarrow> http_conn" where
  "reset_request_state now_ms idle_ms hc = hc\<lparr>hc_req := http_request0, hc_phase := PHASE_READ,
     hc_deadline := now_ms + idle_ms, hc_last_active := now_ms, hc_fixed := [], hc_fixed_off := 0,
     hc_out_hdr := [], hc_out_hdr_off := 0, hc_file_fd := - 1, hc_file_size := 0, hc_file_off := 0,
     hc_file_owned := True, hc_send_body := False, hc_cork_on := False, hc_keep := False, hc_status := 0\<rparr>"

definition http_conn_prepare :: "u64 \<Rightarrow> http_conn \<Rightarrow> http_conn" where
  "http_conn_prepare now_ms hc =
     (let hc = hc\<lparr>hc_buf := [], hc_header_cap := TINY_HEADER_SIZE, hc_read_timeout := TINY_READ_TIMEOUT_MS,
            hc_send_timeout := TINY_SEND_TIMEOUT_MS, hc_keepalive := TINY_KEEPALIVE_MS\<rparr>
      in reset_request_state now_ms (hc_read_timeout hc) hc)"

definition http_conn_cleanup :: "http_conn \<times> 'a proxy_env_scheme \<Rightarrow> http_conn \<times> 'a proxy_env_scheme" where
  "http_conn_cleanup = (\<lambda>(hc, e).
     (let e = release_file hc e; hc = hc\<lparr>hc_file_fd := - 1, hc_file_owned := True\<rparr>
      in if hc_cork_on hc \<and> hc_fd hc \<ge> 0 then (hc\<lparr>hc_cork_on := False\<rparr>, snd (sys_sockopt e)) else (hc, e)))"

definition http_conn_check_deadline :: "http_conn \<Rightarrow> u64 \<Rightarrow> http_io" where
  "http_conn_check_deadline hc now_ms = (if now_ms \<ge> hc_deadline hc then IO_CLOSE else IO_WANT_READ)"

definition http_conn_reuse :: "tiny_route list \<Rightarrow> u64 \<Rightarrow> 'a slot_state \<Rightarrow> http_io \<times> 'a slot_state" where
  "http_conn_reuse routes now_ms = (\<lambda>(sl, e).
     (let hc = sl_hc sl in
      if \<not> hc_keep hc then (IO_CLOSE, sl, e)
      else
        (let consumed = unat (req_header_bytes (hc_req hc)) in
         if consumed > length (hc_buf hc) then (IO_CLOSE, sl, e)
         else if length (hc_buf hc) - consumed > hc_header_cap hc then (IO_CLOSE, sl, e)
         else
           (case http_conn_cleanup (hc, e) of
              (hc, e) \<Rightarrow>
                (let hc = hc\<lparr>hc_buf := drop consumed (hc_buf hc), hc_arena := bump_reset (hc_arena hc)\<rparr>
                 in try_parse_buffer routes now_ms
                      (sl\<lparr>sl_hc := reset_request_state now_ms (hc_keepalive hc) hc\<rparr>, e))))))"

section \<open>What the handlers keep\<close>

abbreviation slot_keeps :: "tiny_slot \<Rightarrow> 'a slot_state \<Rightarrow> bool" where
  "slot_keeps sl s \<equiv> keeps_input (sl_hc sl) (sl_hc (fst s)) \<and> sl_active (fst s) = sl_active sl
     \<and> sl_armed_io (fst s) = sl_armed_io sl"

lemma begin_static_keeps:
  "(\<And>e. keeps_input (sl_hc sl) (fst (f (sl_hc sl, e)))) \<Longrightarrow> begin_static f (sl, e) = (io, s) \<Longrightarrow> slot_keeps sl s"
  by (auto simp: begin_static_def keeps_input_def split: prod.splits) (metis fst_conv)+

lemma arm_close_keeps: "arm_close resp st now (sl, e) = (io, s) \<Longrightarrow> slot_keeps sl s"
  by (auto simp: arm_close_def keeps_input_def Let_def)

lemma serve_mount_keeps: "serve_mount r path now (sl, e) = (io, s) \<Longrightarrow> slot_keeps sl s"
  by (auto simp: serve_mount_def Let_def keeps_input_def split: if_splits
      dest!: begin_static_keeps [rotated] arm_close_keeps)

lemma route_begin_keeps:
  assumes "route_begin routes now (sl, e) = (io, s)"
  shows "slot_keeps sl s"
proof (cases "length routes = 1 \<and> r_primary (routes ! 0)")
  case True
  then have "begin_static (static_begin now) (sl, e) = (io, s)" using assms by (simp add: route_begin_def)
  then show ?thesis by (rule begin_static_keeps [rotated]) (simp add: keeps_input_def)
next
  case False
  show ?thesis
  proof (cases "route_match routes (request_path (sl_hc sl))")
    case None
    with False assms have "arm_close RESP_404 404 now (sl, e) = (io, s)" by (auto simp: route_begin_def Let_def)
    then show ?thesis by (rule arm_close_keeps)
  next
    case (Some r)
    show ?thesis
    proof (cases "r_type r")
      case ROUTE_STATIC
      with False Some assms consider
        "begin_static (static_begin_file (r_target r) now) (sl, e) = (io, s)"
        | "begin_static (static_begin now) (sl, e) = (io, s)"
        | "serve_mount r (request_path (sl_hc sl)) now (sl, e) = (io, s)"
        by (auto simp: route_begin_def Let_def split: if_splits)
      then show ?thesis
        by cases (erule begin_static_keeps [rotated], simp add: keeps_input_def,
          erule begin_static_keeps [rotated], simp add: keeps_input_def, erule serve_mount_keeps)
    next
      case ROUTE_PROXY
      then show ?thesis using False Some assms
        by (auto simp: route_begin_def Let_def split: prod.splits dest!: proxy_begin_keeps)
    next
      case ROUTE_APP
      then have "arm_close RESP_501 501 now (sl, e) = (io, s)"
        using False Some assms by (auto simp: route_begin_def app_begin_def Let_def)
      then show ?thesis by (rule arm_close_keeps)
    next
      case ROUTE_NONE
      then have "arm_close RESP_500 500 now (sl, e) = (io, s)"
        using False Some assms by (auto simp: route_begin_def Let_def)
      then show ?thesis by (rule arm_close_keeps)
    qed
  qed
qed

lemma write_fixed_keeps [unfolded keeps_input_def, simp]: "keeps_input hc (fst (snd (write_fixed (hc, e))))"
  by (simp add: write_fixed_def keeps_input_def split: prod.split)

lemma on_write_keeps: "http_conn_on_write now (sl, e) = (io, s) \<Longrightarrow> slot_keeps sl s"
proof -
  assume run: "http_conn_on_write now (sl, e) = (io, s)"
  let ?hc = "(sl_hc sl)\<lparr>hc_last_active := now\<rparr>"
  define r where "r = (case hc_phase ?hc of PHASE_WRITE_FIXED \<Rightarrow> write_fixed (?hc, e)
    | PHASE_WRITE_HDR \<Rightarrow> static_on_write (?hc, e) | PHASE_SENDFILE \<Rightarrow> static_on_write (?hc, e) | PHASE_READ \<Rightarrow> (IO_WANT_READ, ?hc, e))"
  have "keeps_input (sl_hc sl) (fst (snd r))" by (simp add: r_def keeps_input_def split: http_phase.split)
  moreover have "http_conn_on_write now (sl, e) = (if now \<ge> hc_deadline (sl_hc sl) then (IO_CLOSE, sl, e)
      else (fst r, sl\<lparr>sl_hc := fst (snd r)\<rparr>, snd (snd r)))"
    by (simp add: http_conn_on_write_def r_def Let_def case_prod_beta)
  ultimately show ?thesis using run by (auto split: if_splits)
qed

lemma answer_close_keeps: "answer_close resp st now (sl, e) = (io, s) \<Longrightarrow> slot_keeps sl s"
  by (auto simp: answer_close_def keeps_input_def arm_fixed_close_def dest!: on_write_keeps)

lemma dispatch_keeps:
  assumes "dispatch_parsed routes result now (sl, e) = (io, s)"
  shows "slot_keeps sl s"
proof -
  obtain rc sl1 e1 where route: "route_begin routes now (sl, e) = (rc, sl1, e1)" by (cases "route_begin routes now (sl, e)")
  have "slot_keeps sl (sl1, e1)" using route_begin_keeps [OF route] .
  moreover have "slot_keeps sl1 s" if "http_conn_on_write now (sl1, e1) = (io, s)" using on_write_keeps [OF that] .
  moreover have "slot_keeps sl s" if "answer_close r st now (sl, e) = (io, s)" for r st using answer_close_keeps [OF that] .
  ultimately show ?thesis using assms route
    by (auto simp: dispatch_parsed_def keeps_input_def split: if_splits)
qed

text \<open>Parsing stores the request, and reads no byte.\<close>

lemma try_parse_keeps:
  assumes "try_parse_buffer routes now (sl, e) = (io, sl', e')"
  shows "hc_buf (sl_hc sl') = hc_buf (sl_hc sl) \<and> hc_header_cap (sl_hc sl') = hc_header_cap (sl_hc sl)
    \<and> hc_conn (sl_hc sl') = hc_conn (sl_hc sl) \<and> sl_active sl' = sl_active sl \<and> sl_armed_io sl' = sl_armed_io sl"
proof -
  have disp: ?thesis
    if "dispatch_parsed routes result now (sl\<lparr>sl_hc := hc\<rparr>, e) = (io, sl', e')"
      "hc_buf hc = hc_buf (sl_hc sl)" "hc_header_cap hc = hc_header_cap (sl_hc sl)" "hc_conn hc = hc_conn (sl_hc sl)"
    for result hc using dispatch_keeps [OF that(1)] that(2-4) by (simp add: keeps_input_def)
  have disp0: ?thesis if "dispatch_parsed routes result now (sl, e) = (io, sl', e')" for result
    using dispatch_keeps [OF that] by (simp add: keeps_input_def)
  have close: ?thesis if "answer_close r st now (sl, e) = (io, sl', e')" for r st
    using answer_close_keeps [OF that] by (simp add: keeps_input_def)
  show ?thesis
    using assms disp [of _ "(sl_hc sl)\<lparr>hc_req := r\<rparr>" for r] disp0 close
    by (auto simp: try_parse_buffer_def Let_def split: if_splits sum.splits parse_error.splits prod.splits)
qed

section \<open>Reading\<close>

text \<open>
  The loop of \<open>http_conn_on_read\<close>. It goes on when \<open>try_parse_buffer\<close> wants more; that is the case
  of an incomplete head, but also of a proxied request that waits for its body.
\<close>

lemma sys_read_bytes:
  "sys_read fd cap k = (Rd bs, k') \<Longrightarrow> 0 < cap \<Longrightarrow> bs \<noteq> []"
  by (auto simp: sys_read_def split: list.splits read_answer.splits if_splits)

lemma room_shrinks: "l < c \<Longrightarrow> bs \<noteq> [] \<Longrightarrow> c - (l + length bs) < (c - l :: nat)"
  by (cases bs) auto

function on_read_loop :: "tiny_route list \<Rightarrow> u64 \<Rightarrow> 'a slot_state \<Rightarrow> http_io \<times> 'a slot_state" where
  "on_read_loop routes now_ms (sl, e) =
     (let hc = sl_hc sl in
      if length (hc_buf hc) < hc_header_cap hc then
        (case sys_read (hc_fd hc) (hc_header_cap hc - length (hc_buf hc)) e of
           (Rd_Intr, e) \<Rightarrow> on_read_loop routes now_ms (sl, e)
         | (Rd_Again, e) \<Rightarrow> (IO_WANT_READ, sl, e)
         | (Rd_Err, e) \<Rightarrow> (IO_CLOSE, sl, e)
         | (Rd_Eof, e) \<Rightarrow> (IO_CLOSE, sl, e)
         | (Rd bs, e) \<Rightarrow>
             (case try_parse_buffer routes now_ms
                 (sl\<lparr>sl_hc := hc\<lparr>hc_buf := hc_buf hc @ bs, hc_last_active := now_ms\<rparr>\<rparr>, e) of
                (rc, s) \<Rightarrow> if rc \<noteq> IO_WANT_READ then (rc, s) else on_read_loop routes now_ms s))
      else answer_close RESPONSE_431 431 now_ms (sl, e))"
  by pat_completeness auto
termination
  by (relation "measures [\<lambda>(_, _, sl, _). hc_header_cap (sl_hc sl) - length (hc_buf (sl_hc sl)),
      \<lambda>(_, _, sl, e). length (k_reads e (hc_fd (sl_hc sl)))]")
    (auto simp: room_shrinks dest!: try_parse_keeps [OF sym] sys_read_progress [OF sym] sys_read_bytes [OF sym])

declare on_read_loop.simps [simp del]

definition http_conn_on_read :: "tiny_route list \<Rightarrow> u64 \<Rightarrow> 'a slot_state \<Rightarrow> http_io \<times> 'a slot_state" where
  "http_conn_on_read routes now_ms = (\<lambda>(sl, e).
     (if hc_phase (sl_hc sl) \<noteq> PHASE_READ then (IO_WANT_WRITE, sl, e)
      else if now_ms \<ge> hc_deadline (sl_hc sl) then (IO_CLOSE, sl, e)
      else
        (case (if hc_buf (sl_hc sl) \<noteq> [] then try_parse_buffer routes now_ms (sl, e) else (IO_WANT_READ, sl, e)) of
           (rc, s) \<Rightarrow> if rc \<noteq> IO_WANT_READ then (rc, s) else on_read_loop routes now_ms s)))"

section \<open>Pipelined requests\<close>

lemma answer_close_not_kept: "answer_close resp st now (sl, e) = (io, sl', e') \<Longrightarrow> \<not> hc_keep (sl_hc sl')"
  by (auto simp: answer_close_def http_conn_on_write_def arm_fixed_close_def write_fixed_def Let_def
      split: if_splits prod.splits)

lemma parsed_head: "http_parse_request b len = Inr (n, r) \<Longrightarrow> 0 < unat (req_header_bytes r)"
proof -
  assume "http_parse_request b len = Inr (n, r)"
  then obtain eol eol' req req' seen where
    f: "parse_finish (eol + 2) eol' req' seen = Inr (n, r)" "n = eol' + 2" "n \<le> min len 65535"
    by (rule http_parse_request_offsets)
  then have "eol' + 2 < 65536" by simp
  from parse_finish_Inr(1,2) [OF f(1) this] show ?thesis by simp
qed

text \<open>A response that is complete and keeps the connection answers a request with a head.\<close>

lemma try_parse_done:
  assumes "try_parse_buffer routes now (sl, e) = (IO_DONE, sl', e')"
  shows "hc_keep (sl_hc sl') \<Longrightarrow> 0 < unat (req_header_bytes (hc_req (sl_hc sl')))"
proof -
  assume keep: "hc_keep (sl_hc sl')"
  let ?hc = "sl_hc sl"
  obtain n req where parsed: "http_parse_request (hc_buf ?hc) (length (hc_buf ?hc)) = Inr (n, req)"
    and run: "dispatch_parsed routes (Inr n) now (sl\<lparr>sl_hc := ?hc\<lparr>hc_req := req\<rparr>\<rparr>, e) = (IO_DONE, sl', e')"
    using assms keep
    by (auto simp: try_parse_buffer_def dispatch_parsed_def Let_def dest: answer_close_not_kept
        split: if_splits sum.splits parse_error.splits)
  from dispatch_keeps [OF run] have "hc_req (sl_hc sl') = req" by (simp add: keeps_input_def)
  with parsed_head [OF parsed] show ?thesis by simp
qed

definition reuse_rank :: "tiny_slot \<Rightarrow> nat" where
  "reuse_rank sl =
     (let hc = sl_hc sl; consumed = unat (req_header_bytes (hc_req hc)) in
      if \<not> hc_keep hc \<or> consumed > length (hc_buf hc) then 0
      else 2 * length (hc_buf hc) + (if consumed = 0 then 2 else 1))"

lemma cleanup_keeps: "http_conn_cleanup (hc, e) = (hc', e') \<Longrightarrow> keeps_input hc hc' \<and> hc_keep hc' = hc_keep hc"
  by (auto simp: http_conn_cleanup_def keeps_input_def Let_def split: if_splits)

lemma reuse_buf:
  assumes "http_conn_reuse routes now (sl, e) = (io, sl', e')" and "io \<noteq> IO_CLOSE"
  shows "hc_keep (sl_hc sl) \<and> unat (req_header_bytes (hc_req (sl_hc sl))) \<le> length (hc_buf (sl_hc sl))
    \<and> hc_buf (sl_hc sl') = drop (unat (req_header_bytes (hc_req (sl_hc sl)))) (hc_buf (sl_hc sl))
    \<and> hc_conn (sl_hc sl') = hc_conn (sl_hc sl) \<and> hc_header_cap (sl_hc sl') = hc_header_cap (sl_hc sl)"
proof -
  obtain hc1 e1 where clean: "http_conn_cleanup (sl_hc sl, e) = (hc1, e1)" by (cases "http_conn_cleanup (sl_hc sl, e)")
  show ?thesis using assms clean cleanup_keeps [OF clean]
    by (auto simp: http_conn_reuse_def Let_def keeps_input_def reset_request_state_def split: if_splits dest!: try_parse_keeps)
qed

lemma reuse_rank_less:
  assumes run: "http_conn_reuse routes now (sl, e) = (IO_DONE, sl', e')"
  shows "reuse_rank sl' < reuse_rank sl"
proof -
  note buf = reuse_buf [OF run]
  have "hc_keep (sl_hc sl') \<Longrightarrow> 0 < unat (req_header_bytes (hc_req (sl_hc sl')))"
    using run by (auto simp: http_conn_reuse_def Let_def split: if_splits prod.splits dest: try_parse_done)
  then show ?thesis using buf by (auto simp: reuse_rank_def Let_def)
qed

end
