(* ===== verification/Http_Faults.thy ===== *)
theory Http_Faults
  imports Http_Conn Proxy_Relay
begin

text \<open>
  A run of \<open>http_conn_on_read\<close> in \<^verbatim>\<open>src/http.c\<close> in which one request is proxied twice. The client
  sends a request head, and its five body bytes arrive a moment later: after \<open>proxy_pump\<close> has looked
  for them, and before the loop of \<open>http_conn_on_read\<close> reads again.
\<close>

definition two_bytes :: "byte list" where
  "two_bytes = bytes ''POST / HTTP/1.0'' @ [CR, LF] @ bytes ''Content-Length: 5'' @ [CR, LF, CR, LF]"

definition two_body :: "byte list" where
  "two_body = bytes ''hello''"

definition two_head :: "byte list" where
  "two_head = bytes ''POST / HTTP/1.0'' @ [CR, LF] @ bytes ''Content-Length: 5'' @ [CR, LF] @ CONNECTION_KEEP"

definition two_req :: http_request where
  "two_req = \<lparr>req_target = \<lparr>s_off = 5, s_len = 1\<rparr>, req_path = \<lparr>s_off = 5, s_len = 1\<rparr>,
     req_query = \<lparr>s_off = 0, s_len = 0\<rparr>, req_host = \<lparr>s_off = 0, s_len = 0\<rparr>,
     req_header_block = \<lparr>s_off = 17, s_len = 19\<rparr>, req_content_length = 5, req_header_bytes = 38,
     req_method = METHOD_POST, req_minor_version = 0, req_flags = 8\<rparr>"

definition proxy_routes :: "tiny_route list" where
  "proxy_routes = [tiny_route0\<lparr>r_type := ROUTE_PROXY, r_prefix := [47], r_upstream := [1]\<rparr>]"

definition two_env :: proxy_env where
  "two_env = proxy_env0\<lparr>k_sockets := [9, 10],
     k_reads := (\<lambda>_. [])(5 := [Rd two_bytes, Rd_Again, Rd (two_body)]),
     k_writes := (\<lambda>_. [])(9 := [Wr 100], 10 := [Wr 100, Wr 100])\<rparr>"

definition slot0 :: tiny_slot where
  "slot0 = \<lparr>sl_active = True, sl_armed_io = IO_WANT_READ, sl_proxying = False, sl_hc = http_conn0, sl_px = px_conn0\<rparr>"

lemma two_parse:
  "http_parse_request two_bytes 38 = Inr (38, two_req)"
  "http_parse_request (two_bytes @ two_body) 43 = Inr (38, two_req)"
  by (simp_all add: two_bytes_def two_body_def two_req_def evals)

lemma two_rewrite: "rewrite_request two_bytes 38 = Some two_head"
  "rewrite_request (two_bytes @ two_body) 38 = Some two_head"
  by (simp_all add: rewrite_request_def two_bytes_def two_body_def bytes_def append_bytes_def two_head_def request_lines.simps
      request_line_out_def memchr.simps hop_by_hop_def named_def CONNECTION_KEEP_def PROXY_HDR_MAX_def)

lemma two_lengths: "length two_bytes = 38" "length two_head = 62" "length (two_body) = 5"
  by (simp_all add: two_bytes_def two_head_def two_body_def bytes_def CONNECTION_KEEP_def)

lemma two_fields:
  "req_method two_req = METHOD_POST" "req_flags two_req = 8" "req_header_bytes two_req = 38" "req_content_length two_req = 5"
  "s_len (req_path two_req) = 1" "slice_of (two_bytes @ x) (req_path two_req) = [47]" "slice_of two_bytes (req_path two_req) = [47]"
  by (simp_all add: two_req_def slice_of_def two_bytes_def bytes_def)

lemma two_expect: "\<not> expects_continue (two_bytes @ x) two_req"
proof -
  have "slice_of (two_bytes @ x) (req_header_block two_req) = bytes ''Content-Length: 5'' @ [CR, LF]"
    by (simp add: two_req_def slice_of_def two_bytes_def bytes_def)
  then show ?thesis
    by (simp add: expects_continue_def expect_loop.simps is_expect_line_def memchr.simps named_def bytes_def)
qed

lemma two_route: "route_match proxy_routes [47] = Some (proxy_routes ! 0)"
  by (simp add: proxy_routes_def route_match_def route_matches_def tiny_route0_def)

text \<open>The first dispatch: the head goes to descriptor 9, and the body is awaited from the client.\<close>

definition two_px :: "int \<Rightarrow> proxy_conn" where
  "two_px fd = px_conn0\<lparr>px_fd := fd, px_up_addr := [1], px_hdr := two_head, px_hdr_off := 62, px_body_off := 38, px_body_end := 38,
     px_body_left := 5, px_phase := PX_SEND_BODY, px_flags := {PX_CORK}, px_in_epoll := True, px_armed := IO_IDLE\<rparr>"

lemma first_begin:
  assumes "hc_buf hc = two_bytes" and "hc_req hc = two_req" and "hc_fd hc = 5" and "hc_send_timeout hc = 30000"
    and "k_sockets e = [9, 10]" and "k_reads e 5 = [Rd_Again, Rd (two_body)]" and "k_writes e 9 = [Wr 100]"
    and "k_sockopts e = []" "k_connects e = []" "k_epolls e = []" "pe_pool e = []"
  shows "proxy_begin [1] 0 (hc, px_conn0, e) = (IO_WANT_READ,
    hc\<lparr>hc_keep := False, hc_deadline := 30000, hc_last_active := 0\<rparr>, two_px 9,
    e\<lparr>k_sockets := [10], k_reads := (k_reads e)(5 := [Rd (two_body)]),
      k_writes := (k_writes e)(9 := []), k_sent := (k_sent e)(9 := k_sent e 9 @ two_head)\<rparr>)"
proof -
  let ?px = "px_conn0\<lparr>px_fd := 9, px_up_addr := [1], px_hdr := two_head, px_body_off := 38, px_body_end := 38, px_body_left := 5,
    px_phase := PX_SEND_REQ, px_flags := {PX_CORK}\<rparr>"
  have "proxy_begin [1] 0 (hc, px_conn0, e) =
      proxy_pump 0 (hc\<lparr>hc_keep := False, hc_deadline := 30000\<rparr>, ?px, e\<lparr>k_sockets := [10]\<rparr>)"
    using assms two_expect [of "[]"]
    by (simp add: proxy_begin_def two_fields two_lengths body_have_def body_need_def Let_def two_rewrite take_or_socket_def
       body_pending_def cork_up_def evals proxy_conn_reset_def px_conn0_def)
  also have "\<dots> = (IO_WANT_READ, hc\<lparr>hc_keep := False, hc_deadline := 30000, hc_last_active := 0\<rparr>, two_px 9,
    e\<lparr>k_sockets := [10], k_reads := (k_reads e)(5 := [Rd (two_body)]),
      k_writes := (k_writes e)(9 := []), k_sent := (k_sent e)(9 := k_sent e 9 @ two_head)\<rparr>)"
    using assms by (simp add: proxy_pump_def pump_evals evals two_lengths two_fields px_conn0_def two_px_def)
  finally show ?thesis .
qed

text \<open>The second: a new connection, descriptor 10, and no trace of descriptor 9.\<close>

definition two_px2 :: proxy_conn where
  "two_px2 = px_conn0\<lparr>px_fd := 10, px_up_addr := [1], px_hdr := two_head, px_hdr_off := 62, px_body_off := 43, px_body_end := 43,
     px_body_left := 0, px_phase := PX_RECV_HDR, px_flags := {}, px_in_epoll := True, px_armed := IO_WANT_READ\<rparr>"

lemma second_begin:
  assumes "hc_buf hc = two_bytes @ two_body" and "hc_req hc = two_req" and "hc_fd hc = 5" and "hc_send_timeout hc = 30000"
    and "k_sockets e = [10]" and "k_writes e 10 = [Wr 100, Wr 100]" and "k_reads e 10 = []"
    and "k_sockopts e = []" "k_connects e = []" "k_epolls e = []" "pe_pool e = []"
  shows "proxy_begin [1] 0 (hc, two_px 9, e) = (IO_IDLE,
    hc\<lparr>hc_keep := False, hc_deadline := 30000, hc_last_active := 0\<rparr>, two_px2,
    e\<lparr>k_sockets := [], k_writes := (k_writes e)(10 := []), k_sent := (k_sent e)(10 := k_sent e 10 @ two_head @ two_body)\<rparr>)"
proof -
  let ?px = "px_conn0\<lparr>px_fd := 10, px_up_addr := [1], px_hdr := two_head, px_body_off := 38, px_body_end := 43, px_body_left := 0,
    px_phase := PX_SEND_REQ, px_flags := {PX_CORK}\<rparr>"
  have "proxy_begin [1] 0 (hc, two_px 9, e) =
      proxy_pump 0 (hc\<lparr>hc_keep := False, hc_deadline := 30000\<rparr>, ?px, e\<lparr>k_sockets := []\<rparr>)"
    using assms two_expect [of "two_body"]
    by (simp add: proxy_begin_def two_fields two_lengths body_have_def body_need_def Let_def two_rewrite take_or_socket_def
       body_pending_def cork_up_def evals proxy_conn_reset_def px_conn0_def two_px_def)
  also have "\<dots> = (IO_IDLE, hc\<lparr>hc_keep := False, hc_deadline := 30000, hc_last_active := 0\<rparr>, two_px2,
    e\<lparr>k_sockets := [], k_writes := (k_writes e)(10 := []), k_sent := (k_sent e)(10 := k_sent e 10 @ two_head @ two_body)\<rparr>)"
    using assms by (simp add: proxy_pump_def pump_evals evals two_lengths two_fields px_conn0_def two_px2_def)
  finally show ?thesis .
qed

text \<open>
  C34. \<open>http_conn_on_read\<close> takes the \<open>HTTP_IO_WANT_READ\<close> of a proxied request that waits for its body
  for an incomplete head: it reads on, and parses and dispatches the request again. The upstream gets
  a second request on descriptor 10, after the head of the first on descriptor 9; the slot forgets
  descriptor 9 without closing it, and no one else has it.
\<close>

theorem request_proxied_twice:
  "\<exists>sl e. http_conn_on_read proxy_routes 0 (slot0, two_env) = (IO_IDLE, sl, e)
    \<and> k_sent e 9 = two_head \<and> k_sent e 10 = two_head @ bytes ''hello''
    \<and> px_fd (sl_px sl) = 10 \<and> k_closed e = [] \<and> pe_pool e = []"
proof -
  have routes: "r_type (proxy_routes ! 0) = ROUTE_PROXY" "r_upstream (proxy_routes ! 0) = [1]" "length proxy_routes = 1"
    "\<not> r_primary (proxy_routes ! 0)"
    by (simp_all add: proxy_routes_def tiny_route0_def)
  have ne: "two_bytes \<noteq> []" "two_body \<noteq> []" "two_bytes @ two_body \<noteq> []"
    using two_lengths by auto
  let ?hc1 = "http_conn0\<lparr>hc_buf := two_bytes, hc_last_active := 0, hc_req := two_req, hc_keep := False, hc_deadline := 30000\<rparr>"
  let ?s1 = "slot0\<lparr>sl_proxying := True, sl_hc := ?hc1, sl_px := two_px 9\<rparr>"
  let ?e1 = "two_env\<lparr>k_reads := (\<lambda>_. [])(5 := [Rd two_body]), k_sockets := [10],
      k_writes := (\<lambda>_. [])(9 := [], 10 := [Wr 100, Wr 100]), k_sent := (\<lambda>_. [])(9 := two_head)\<rparr>"
  have "on_read_loop proxy_routes 0 (slot0, two_env) = on_read_loop proxy_routes 0 (?s1, ?e1)"
    by (subst on_read_loop.simps)
      (simp add: slot0_def http_conn0_def two_env_def proxy_env0_def sys_read_def Let_def two_lengths ne
        try_parse_buffer_def dispatch_parsed_def route_begin_def request_path_def two_parse two_fields two_route routes
        first_begin two_px_def fun_upd_twist)
  moreover have "\<exists>sl e. on_read_loop proxy_routes 0 (?s1, ?e1) = (IO_IDLE, sl, e)
    \<and> k_sent e 9 = two_head \<and> k_sent e 10 = two_head @ two_body \<and> px_fd (sl_px sl) = 10 \<and> k_closed e = [] \<and> pe_pool e = []"
    by (subst on_read_loop.simps)
      (simp add: slot0_def http_conn0_def two_env_def proxy_env0_def sys_read_def Let_def two_lengths ne
        try_parse_buffer_def dispatch_parsed_def route_begin_def request_path_def two_parse two_fields two_route routes
        second_begin two_px2_def)
  ultimately show ?thesis by (simp add: http_conn_on_read_def slot0_def http_conn0_def two_body_def)
qed

end
