(* ===== verification/Worker.thy ===== *)
theory Worker
  imports Http_Conn Conn_Queue
begin

text \<open>
  One worker of \<^verbatim>\<open>src/worker.c\<close>: its slots, the stack of free ones, accepting from the queue,
  dispatching of epoll events, deadlines and shutdown. The clock, the events and the answers of the
  kernel are inputs; the log and the counters are left out.
\<close>

text \<open>
  \<open>free_stack[0 .. free_top)\<close> is the list \<open>w_free\<close>, its last element on top. \<open>nactive\<close>, a local of
  \<open>tiny_worker_main\<close> that is passed to every function, is kept with the worker.
\<close>

record tiny_worker =
  w_slots :: "tiny_slot list"
  w_free :: "nat list"
  w_nactive :: nat

type_synonym 'a worker_state = "tiny_worker \<times> 'a proxy_env_scheme"

abbreviation put_slot :: "nat \<Rightarrow> tiny_slot \<Rightarrow> tiny_worker \<Rightarrow> tiny_worker" where
  "put_slot idx sl w \<equiv> w\<lparr>w_slots := (w_slots w)[idx := sl]\<rparr>"

section \<open>The free stack\<close>

definition free_push :: "nat \<Rightarrow> tiny_worker \<Rightarrow> tiny_worker" where
  "free_push idx w = w\<lparr>w_free := w_free w @ [idx]\<rparr>"

definition free_pop :: "tiny_worker \<Rightarrow> nat option \<times> tiny_worker" where
  "free_pop w = (if w_free w = [] then (None, w) else (Some (last (w_free w)), w\<lparr>w_free := butlast (w_free w)\<rparr>))"

section \<open>Slots\<close>

text \<open>The connection of a slot, closed; \<open>EPOLL_CTL_DEL\<close> has no answer the code looks at.\<close>

definition close_client :: "http_conn \<times> 'a proxy_env_scheme \<Rightarrow> http_conn \<times> 'a proxy_env_scheme" where
  "close_client = (\<lambda>(hc, e).
     (if hc_fd hc \<ge> 0 then (hc\<lparr>hc_conn := (hc_conn hc)\<lparr>c_fd := - 1\<rparr>\<rparr>, sys_close (hc_fd hc) e) else (hc, e)))"

definition slot_close :: "nat \<Rightarrow> 'a worker_state \<Rightarrow> 'a worker_state" where
  "slot_close idx = (\<lambda>(w, e).
     (let slot = w_slots w ! idx in
      if \<not> sl_active slot then (w, e)
      else
        (case proxy_close (sl_px slot, e) of
           (px, e) \<Rightarrow>
             (case http_conn_cleanup (sl_hc slot, e) of
                (hc, e) \<Rightarrow>
                  (case close_client (hc, e) of
                     (hc, e) \<Rightarrow>
                       (let slot = slot\<lparr>sl_px := px, sl_proxying := False, sl_hc := hc, sl_active := False, sl_armed_io := IO_DONE\<rparr>;
                            w = free_push idx (put_slot idx slot w)
                        in (w\<lparr>w_nactive := w_nactive w - 1\<rparr>, e)))))))"

definition arm_events :: "nat \<Rightarrow> http_io \<Rightarrow> 'a worker_state \<Rightarrow> 'a worker_state" where
  "arm_events idx io = (\<lambda>(w, e).
     (let slot = w_slots w ! idx in
      if sl_armed_io slot = io then (w, e)
      else if io \<noteq> IO_WANT_READ \<and> io \<noteq> IO_WANT_WRITE \<and> io \<noteq> IO_IDLE then slot_close idx (w, e)
      else
        (case sys_epoll e of
           (False, e) \<Rightarrow> slot_close idx (w, e)
         | (True, e) \<Rightarrow> (put_slot idx (slot\<lparr>sl_armed_io := io\<rparr>) w, e))))"

text \<open>\<open>while (io == HTTP_IO_DONE) io = http_conn_reuse(...)\<close>: the pipelined requests.\<close>

function reuse_loop :: "tiny_route list \<Rightarrow> u64 \<Rightarrow> http_io \<Rightarrow> 'a slot_state \<Rightarrow> http_io \<times> 'a slot_state" where
  "reuse_loop routes now_ms io (sl, e) =
     (if io = IO_DONE then (case http_conn_reuse routes now_ms (sl, e) of (io, sl, e) \<Rightarrow> reuse_loop routes now_ms io (sl, e))
      else (io, sl, e))"
  by pat_completeness auto
termination
  by (relation "measures [\<lambda>(_, _, io, sl, _). if io = IO_DONE then Suc (reuse_rank sl) else 0]")
    (auto split: prod.split dest: reuse_rank_less)

declare reuse_loop.simps [simp del]

definition apply_io :: "tiny_route list \<Rightarrow> nat \<Rightarrow> http_io \<Rightarrow> u64 \<Rightarrow> 'a worker_state \<Rightarrow> 'a worker_state" where
  "apply_io routes idx io now_ms = (\<lambda>(w, e).
     (case reuse_loop routes now_ms io (w_slots w ! idx, e) of
        (io, sl, e) \<Rightarrow>
          (let w = put_slot idx sl w in
           if io = IO_CLOSE then slot_close idx (w, e)
           else if \<not> sl_active sl then (w, e)
           else arm_events idx io (w, e))))"

definition sweep_slot :: "u64 \<Rightarrow> nat \<Rightarrow> 'a worker_state \<Rightarrow> 'a worker_state" where
  "sweep_slot now_ms i = (\<lambda>(w, e).
     (let slot = w_slots w ! i in
      if \<not> sl_active slot then (w, e)
      else if http_conn_check_deadline (sl_hc slot) now_ms = IO_CLOSE then slot_close i (w, e)
      else (w, e)))"

definition sweep_deadlines :: "u64 \<Rightarrow> 'a worker_state \<Rightarrow> 'a worker_state" where
  "sweep_deadlines now_ms = (\<lambda>(w, e).
     (if w_nactive w = 0 then (w, e) else fold (sweep_slot now_ms) [0..<length (w_slots w)] (w, e)))"

section \<open>Accepting\<close>

text \<open>The slot for a connection, up to its registration with epoll.\<close>

definition accept_slot :: "u64 \<Rightarrow> connection \<Rightarrow> tiny_slot \<Rightarrow> tiny_slot" where
  "accept_slot now_ms c slot =
     (let hc = sl_hc slot;
          hc = hc\<lparr>hc_arena := bump_reset (hc_arena hc), hc_file_fd := - 1, hc_buf := [],
            hc_conn := connection_copy_payload (hc_conn hc) c\<rparr>
      in slot\<lparr>sl_proxying := False, sl_px := (sl_px slot)\<lparr>px_fd := - 1\<rparr>, sl_hc := http_conn_prepare now_ms hc\<rparr>)"

text \<open>The connection \<open>c\<close> in slot \<open>i\<close>, which is off the stack.\<close>

definition accept_into :: "tiny_route list \<Rightarrow> u64 \<Rightarrow> connection \<Rightarrow> nat \<Rightarrow> 'a worker_state \<Rightarrow> 'a worker_state" where
  "accept_into routes now_ms c i = (\<lambda>(w, e).
     (let slot = accept_slot now_ms c (w_slots w ! i) in
      case sys_epoll e of
        (False, e) \<Rightarrow>
          (case http_conn_cleanup (sl_hc slot, e) of
             (hc, e) \<Rightarrow> (free_push i (put_slot i (slot\<lparr>sl_hc := hc\<rparr>) w), sys_close (c_fd c) e))
      | (True, e) \<Rightarrow>
          (let slot = slot\<lparr>sl_active := True, sl_armed_io := IO_WANT_READ\<rparr>
           in case http_conn_on_read routes now_ms (slot, e) of
                (io, slot, e) \<Rightarrow>
                  apply_io routes i io now_ms ((put_slot i slot w)\<lparr>w_nactive := w_nactive w + 1\<rparr>, e))))"

text \<open>The queue is the one all workers share; here no other worker interferes (see \<open>Conn_Queue_Steps\<close>).\<close>

definition try_accept_one ::
  "tiny_route list \<Rightarrow> u64 \<Rightarrow> connection_queue \<times> 'a worker_state \<Rightarrow> bool \<times> connection_queue \<times> 'a worker_state" where
  "try_accept_one routes now_ms = (\<lambda>(q, w, e).
     (if w_free w = [] then (False, q, w, e)
      else
        (case dequeue_connection q connection0 of
           (False, q, c) \<Rightarrow> (False, q, w, e)
         | (True, q, c) \<Rightarrow>
             (if c_fd c < 0 then (True, q, w, e)
              else if now_ms > c_accept_time c \<and> now_ms - c_accept_time c > TINY_QUEUE_TIMEOUT_MS
              then (True, q, w, sys_close (c_fd c) e)
              else
                (case free_pop w of
                   (None, w) \<Rightarrow> (True, q, w, sys_close (c_fd c) e)
                 | (Some i, w) \<Rightarrow> (True, q, accept_into routes now_ms c i (w, e)))))))"

partial_function (option) accept_loop ::
  "tiny_route list \<Rightarrow> u64 \<Rightarrow> connection_queue \<times> 'a worker_state \<Rightarrow> (connection_queue \<times> 'a worker_state) option" where
  "accept_loop routes now_ms s =
     (case try_accept_one routes now_ms s of
        (again, s) \<Rightarrow> if again then accept_loop routes now_ms s else Some s)"

section \<open>Events\<close>

datatype epoll_bit = EPOLLIN | EPOLLOUT | EPOLLERR | EPOLLHUP | EPOLLRDHUP

definition TINY_WORKER_WAKE_IDX :: u32 where "TINY_WORKER_WAKE_IDX = 0xffffffff"
definition EP_UPSTREAM :: u32 where "EP_UPSTREAM = 0x80000000"

definition broken :: "epoll_bit set \<Rightarrow> bool" where
  "broken ev = (ev \<inter> {EPOLLERR, EPOLLHUP, EPOLLRDHUP} \<noteq> {} \<and> EPOLLIN \<notin> ev \<and> EPOLLOUT \<notin> ev)"

function drain_wake :: "int \<Rightarrow> 'a kernel_scheme \<Rightarrow> 'a kernel_scheme" where
  "drain_wake wake_fd k =
     (case sys_read wake_fd 8 k of
        (Rd_Intr, k') \<Rightarrow> drain_wake wake_fd k'
      | (_, k') \<Rightarrow> k')"
  by pat_completeness auto
termination
  by (relation "measure (\<lambda>(fd, k). length (k_reads k fd))") (auto dest: sys_read_progress [OF sym])

declare drain_wake.simps [simp del]

definition proxy_event :: "tiny_route list \<Rightarrow> u64 \<Rightarrow> nat \<Rightarrow> 'a worker_state \<Rightarrow> 'a worker_state" where
  "proxy_event routes now_ms idx = (\<lambda>(w, e).
     (let slot = w_slots w ! idx in
      case proxy_pump now_ms (sl_hc slot, sl_px slot, e) of
        (io, hc, px, e) \<Rightarrow>
          apply_io routes idx io now_ms
            (put_slot idx (slot\<lparr>sl_hc := hc, sl_px := px, sl_proxying := (px_fd px \<ge> 0)\<rparr>) w, e)))"

definition read_event :: "tiny_route list \<Rightarrow> u64 \<Rightarrow> nat \<Rightarrow> 'a worker_state \<Rightarrow> 'a worker_state" where
  "read_event routes now_ms idx = (\<lambda>(w, e).
     (case http_conn_on_read routes now_ms (w_slots w ! idx, e) of
        (io, slot, e) \<Rightarrow> apply_io routes idx io now_ms (put_slot idx slot w, e)))"

definition write_event :: "tiny_route list \<Rightarrow> u64 \<Rightarrow> nat \<Rightarrow> 'a worker_state \<Rightarrow> 'a worker_state" where
  "write_event routes now_ms idx = (\<lambda>(w, e).
     (case http_conn_on_write now_ms (w_slots w ! idx, e) of
        (io, slot, e) \<Rightarrow> apply_io routes idx io now_ms (put_slot idx slot w, e)))"

definition client_event :: "tiny_route list \<Rightarrow> u64 \<Rightarrow> nat \<Rightarrow> epoll_bit set \<Rightarrow> 'a worker_state \<Rightarrow> 'a worker_state" where
  "client_event routes now_ms idx ev = (\<lambda>(w, e).
     (let phase = (\<lambda>(w, e). hc_phase (sl_hc (w_slots w ! idx)));
          s = (if EPOLLIN \<in> ev \<and> phase (w, e) = PHASE_READ then read_event routes now_ms idx (w, e) else (w, e))
      in if \<not> sl_active (w_slots (fst s) ! idx) then s
         else if EPOLLOUT \<in> ev \<and> phase s \<noteq> PHASE_READ then write_event routes now_ms idx s
         else s))"

text \<open>One entry of the array of events.\<close>

definition worker_event ::
  "tiny_route list \<Rightarrow> int \<Rightarrow> u64 \<Rightarrow> u32 \<times> epoll_bit set \<Rightarrow> 'a worker_state \<Rightarrow> 'a worker_state" where
  "worker_event routes wake_fd now_ms = (\<lambda>(packed, ev) (w, e).
     (if packed = TINY_WORKER_WAKE_IDX then (w, drain_wake wake_fd e)
      else
        (let upstream_ev = (packed AND EP_UPSTREAM \<noteq> 0); idx = unat (packed AND NOT EP_UPSTREAM) in
         if idx \<ge> length (w_slots w) \<or> \<not> sl_active (w_slots w ! idx) then (w, e)
         else if upstream_ev \<or> sl_proxying (w_slots w ! idx) then
           (if \<not> upstream_ev \<and> broken ev then slot_close idx (w, e) else proxy_event routes now_ms idx (w, e))
         else if broken ev then slot_close idx (w, e)
         else client_event routes now_ms idx ev (w, e))))"

section \<open>The loop of the worker\<close>

definition DEADLINE_SWEEP_EVERY :: nat where "DEADLINE_SWEEP_EVERY = 32"

text \<open>What one turn does after \<open>epoll_wait\<close> has returned \<open>evs\<close>; \<open>loop_i\<close> counts the turns.\<close>

definition worker_turn ::
  "tiny_route list \<Rightarrow> int \<Rightarrow> u64 \<Rightarrow> (u32 \<times> epoll_bit set) list \<Rightarrow> nat \<Rightarrow> 'a worker_state \<Rightarrow> 'a worker_state" where
  "worker_turn routes wake_fd now_ms evs loop_i s =
     (let s = fold (worker_event routes wake_fd now_ms) evs s
      in if evs = [] \<or> loop_i mod DEADLINE_SWEEP_EVERY = 0 then sweep_deadlines now_ms s else s)"

definition worker_init :: "tiny_slot list \<Rightarrow> tiny_worker" where
  "worker_init slots = fold free_push (rev [0..<length slots]) \<lparr>w_slots = slots, w_free = [], w_nactive = 0\<rparr>"

definition worker_shutdown :: "'a worker_state \<Rightarrow> 'a worker_state" where
  "worker_shutdown = (\<lambda>(w, e).
     (case fold slot_close [0..<length (w_slots w)] (w, e) of
        (w, e) \<Rightarrow> (w, proxy_pool_clear (static_cache_clear e))))"

end
