(* ===== verification/Worker_Slots.thy ===== *)
theory Worker_Slots
  imports Worker Proxy_Relay
begin

text \<open>
  The bookkeeping of a worker: which slots are in use, the stack of the free ones, and the count.
\<close>

section \<open>The invariant\<close>

definition active_at :: "tiny_worker \<Rightarrow> nat set" where
  "active_at w = {i. i < length (w_slots w) \<and> sl_active (w_slots w ! i)}"

definition worker_ok :: "tiny_worker \<Rightarrow> bool" where
  "worker_ok w = (distinct (w_free w) \<and> set (w_free w) = {..<length (w_slots w)} - active_at w
     \<and> w_nactive w = card (active_at w))"

lemma active_at_bounds: "active_at w \<subseteq> {..<length (w_slots w)}" "finite (active_at w)"
  by (auto simp: active_at_def)

lemma active_at_put [simp]:
  assumes "sl_active sl = sl_active (w_slots w ! idx)"
  shows "active_at (put_slot idx sl w) = active_at w"
proof -
  have "sl_active ((w_slots w)[idx := sl] ! i) = sl_active (w_slots w ! i)" if "i < length (w_slots w)" for i
    using that assms by (cases "i = idx") auto
  then show ?thesis by (auto simp: active_at_def)
qed

lemma worker_ok_put [simp]:
  "sl_active sl = sl_active (w_slots w ! idx) \<Longrightarrow> worker_ok (put_slot idx sl w) = worker_ok w"
  by (simp add: worker_ok_def)

section \<open>Closing\<close>

lemma slot_close_shape:
  assumes "slot_close idx (w, e) = (w', e')" and "idx < length (w_slots w)"
  shows "length (w_slots w') = length (w_slots w) \<and> active_at w' = active_at w - {idx}
    \<and> (sl_active (w_slots w ! idx) \<longrightarrow> w_free w' = w_free w @ [idx] \<and> w_nactive w' = w_nactive w - 1)
    \<and> (\<not> sl_active (w_slots w ! idx) \<longrightarrow> w' = w)"
  using assms
  by (auto simp: slot_close_def free_push_def active_at_def nth_list_update Let_def split: if_splits prod.splits)

lemma slot_close_ok:
  assumes run: "slot_close idx (w, e) = (w', e')" and idx: "idx < length (w_slots w)" and ok: "worker_ok w"
  shows "worker_ok w'"
proof (cases "sl_active (w_slots w ! idx)")
  case True
  note shape = slot_close_shape [OF run idx]
  have mem: "idx \<in> active_at w" using True idx by (simp add: active_at_def)
  then have "card (active_at w - {idx}) = card (active_at w) - 1" by (simp add: active_at_bounds)
  then show ?thesis using shape True ok mem idx by (auto simp: worker_ok_def)
next
  case False
  then show ?thesis using slot_close_shape [OF run idx] ok by simp
qed

definition preserves :: "nat \<Rightarrow> tiny_worker \<Rightarrow> 'a worker_state \<Rightarrow> bool" where
  "preserves idx w s = (length (w_slots (fst s)) = length (w_slots w) \<and> (worker_ok w \<longrightarrow> worker_ok (fst s))
     \<and> active_at (fst s) \<subseteq> active_at w \<and> active_at w \<subseteq> insert idx (active_at (fst s)))"

lemma preserves_refl [simp]: "preserves idx w (w, e)"
  by (auto simp: preserves_def)

lemma preserves_put: "sl_active sl = sl_active (w_slots w ! idx) \<Longrightarrow> preserves idx (put_slot idx sl w) s \<Longrightarrow> preserves idx w s"
  by (simp add: preserves_def)

lemma preserves_close: "idx < length (w_slots w) \<Longrightarrow> preserves idx w (slot_close idx (w, e))"
  using slot_close_shape [of idx w e] slot_close_ok [of idx w e]
  by (cases "slot_close idx (w, e)") (auto simp: preserves_def)

lemma preserves_trans: "preserves idx w (w1, e1) \<Longrightarrow> preserves idx w1 s \<Longrightarrow> preserves idx w s"
  by (auto simp: preserves_def)

section \<open>Handlers\<close>

lemma reuse_keeps:
  assumes "http_conn_reuse routes now (sl, e) = (io, sl', e')"
  shows "sl_active sl' = sl_active sl"
proof -
  obtain hc1 e1 where clean: "http_conn_cleanup (sl_hc sl, e) = (hc1, e1)" by (cases "http_conn_cleanup (sl_hc sl, e)")
  show ?thesis using assms clean
    by (auto simp: http_conn_reuse_def Let_def split: if_splits dest!: try_parse_keeps)
qed

lemma reuse_loop_keeps: "reuse_loop routes now io (sl, e) = (io', sl', e') \<Longrightarrow> sl_active sl' = sl_active sl \<and> io' \<noteq> IO_DONE"
proof (induction routes now io "(sl, e)" arbitrary: sl e rule: reuse_loop.induct)
  case (1 routes now io sl e)
  show ?case
  proof (cases "io = IO_DONE")
    case False
    then show ?thesis using "1.prems" by (subst (asm) reuse_loop.simps) auto
  next
    case True
    obtain io1 sl1 e1 where reuse: "http_conn_reuse routes now (sl, e) = (io1, sl1, e1)"
      by (cases "http_conn_reuse routes now (sl, e)")
    then have "reuse_loop routes now io1 (sl1, e1) = (io', sl', e')"
      using "1.prems" True by (subst (asm) reuse_loop.simps) simp
    from "1.hyps" [OF True reuse [symmetric] refl this] reuse_keeps [OF reuse] show ?thesis by simp
  qed
qed

lemma arm_events_preserves: "idx < length (w_slots w) \<Longrightarrow> preserves idx w (arm_events idx io (w, e))"
  by (auto simp: arm_events_def Let_def preserves_close preserves_put [OF _ preserves_refl] split: prod.split bool.split)

lemma apply_io_preserves:
  assumes "idx < length (w_slots w)"
  shows "preserves idx w (apply_io routes idx io now (w, e))"
proof -
  obtain io' sl e' where loop: "reuse_loop routes now io (w_slots w ! idx, e) = (io', sl, e')"
    by (cases "reuse_loop routes now io (w_slots w ! idx, e)")
  have keep: "sl_active sl = sl_active (w_slots w ! idx)" using reuse_loop_keeps [OF loop] by simp
  have "preserves idx w (apply_io routes idx io now (w, e)) \<longleftrightarrow> preserves idx w
      (if io' = IO_CLOSE then slot_close idx (put_slot idx sl w, e') else if \<not> sl_active sl then (put_slot idx sl w, e')
       else arm_events idx io' (put_slot idx sl w, e'))"
    by (simp add: apply_io_def loop Let_def)
  also have "\<dots>" using assms keep
    by (auto intro!: preserves_put [OF keep] preserves_close arm_events_preserves)
  finally show ?thesis .
qed

lemma on_read_loop_active: "on_read_loop routes now (sl, e) = (io, sl', e') \<Longrightarrow> sl_active sl' = sl_active sl"
proof (induction routes now "(sl, e)" arbitrary: sl e rule: on_read_loop.induct)
  case (1 routes now sl e)
  let ?hc = "sl_hc sl"
  show ?case
  proof (cases "length (hc_buf ?hc) < hc_header_cap ?hc")
    case False
    then have "answer_close RESPONSE_431 431 now (sl, e) = (io, sl', e')"
      using "1.prems" by (subst (asm) on_read_loop.simps) simp
    from answer_close_keeps [OF this] show ?thesis by simp
  next
    case room: True
    obtain a e1 where read: "sys_read (hc_fd ?hc) (hc_header_cap ?hc - length (hc_buf ?hc)) e = (a, e1)"
      by (cases "sys_read (hc_fd ?hc) (hc_header_cap ?hc - length (hc_buf ?hc)) e")
    show ?thesis
    proof (cases a)
      case (Rd bs)
      let ?sl1 = "sl\<lparr>sl_hc := ?hc\<lparr>hc_buf := hc_buf ?hc @ bs, hc_last_active := now\<rparr>\<rparr>"
      obtain rc sl2 e2 where parse: "try_parse_buffer routes now (?sl1, e1) = (rc, sl2, e2)"
        by (cases "try_parse_buffer routes now (?sl1, e1)")
      have keep: "sl_active sl2 = sl_active sl" using try_parse_keeps [OF parse] by simp
      have run: "(if rc \<noteq> IO_WANT_READ then (rc, sl2, e2) else on_read_loop routes now (sl2, e2)) = (io, sl', e')"
        using "1.prems" room read Rd parse by (subst (asm) on_read_loop.simps) (simp add: Let_def)
      show ?thesis
      proof (cases "rc = IO_WANT_READ")
        case True
        with run have "on_read_loop routes now (sl2, e2) = (io, sl', e')" by simp
        from "1.hyps"(1) [OF refl room read [symmetric] Rd parse [symmetric] _ this] True keep show ?thesis by simp
      qed (use run keep in simp)
    next
      case Rd_Intr
      then have "on_read_loop routes now (sl, e1) = (io, sl', e')"
        using "1.prems" room read by (subst (asm) on_read_loop.simps) simp
      from "1.hyps"(2) [OF refl room read [symmetric] Rd_Intr this] show ?thesis .
    qed (use "1.prems" room read in \<open>subst (asm) on_read_loop.simps, simp\<close>)+
  qed
qed

lemma on_read_active: "http_conn_on_read routes now (sl, e) = (io, sl', e') \<Longrightarrow> sl_active sl' = sl_active sl"
  by (auto simp: http_conn_on_read_def split: if_splits prod.splits dest: on_read_loop_active try_parse_keeps)

section \<open>Events\<close>

lemma proxy_event_preserves: "idx < length (w_slots w) \<Longrightarrow> preserves idx w (proxy_event routes now idx (w, e))"
  by (auto simp: proxy_event_def Let_def split: prod.split intro!: preserves_put [OF _ apply_io_preserves])

lemma read_event_preserves: "idx < length (w_slots w) \<Longrightarrow> preserves idx w (read_event routes now idx (w, e))"
  by (auto simp: read_event_def split: prod.split dest: on_read_active intro!: preserves_put [OF _ apply_io_preserves])

lemma write_event_preserves: "idx < length (w_slots w) \<Longrightarrow> preserves idx w (write_event routes now idx (w, e))"
  by (auto simp: write_event_def split: prod.split dest: on_write_keeps intro!: preserves_put [OF _ apply_io_preserves])

lemma client_event_preserves:
  assumes "idx < length (w_slots w)"
  shows "preserves idx w (client_event routes now idx ev (w, e))"
proof -
  define s where "s = (if EPOLLIN \<in> ev \<and> hc_phase (sl_hc (w_slots w ! idx)) = PHASE_READ then read_event routes now idx (w, e) else (w, e))"
  obtain w1 e1 where s1: "s = (w1, e1)" by (cases s)
  have first: "preserves idx w (w1, e1)" using read_event_preserves [OF assms, of routes now e] s1 by (auto simp: s_def split: if_splits)
  then have "preserves idx w1 (write_event routes now idx (w1, e1))"
    using assms by (intro write_event_preserves) (simp add: preserves_def)
  with first have "preserves idx w (write_event routes now idx (w1, e1))" by (rule preserves_trans)
  moreover have "client_event routes now idx ev (w, e) =
      (if \<not> sl_active (w_slots w1 ! idx) then (w1, e1)
       else if EPOLLOUT \<in> ev \<and> hc_phase (sl_hc (w_slots w1 ! idx)) \<noteq> PHASE_READ then write_event routes now idx (w1, e1) else (w1, e1))"
    by (simp add: client_event_def Let_def s_def [symmetric] s1)
  ultimately show ?thesis using first by simp
qed

lemma worker_event_preserves:
  assumes "worker_ok w"
  shows "worker_ok (fst (worker_event routes wake now pe (w, e)))
    \<and> length (w_slots (fst (worker_event routes wake now pe (w, e)))) = length (w_slots w)"
proof -
  obtain packed ev where pe: "pe = (packed, ev)" by (cases pe)
  let ?idx = "unat (packed AND NOT EP_UPSTREAM)"
  show ?thesis
  proof (cases "packed = TINY_WORKER_WAKE_IDX \<or> length (w_slots w) \<le> ?idx")
    case True
    then show ?thesis using assms by (auto simp: pe worker_event_def Let_def)
  next
    case False
    then have idx: "?idx < length (w_slots w)" by simp
    have "preserves ?idx w (worker_event routes wake now pe (w, e))"
      using False preserves_close [OF idx, of e] proxy_event_preserves [OF idx, of routes now e]
        client_event_preserves [OF idx, of routes now ev e] by (simp add: pe worker_event_def Let_def)
    then show ?thesis using assms by (simp add: preserves_def)
  qed
qed

section \<open>Sweeping, accepting and shutting down\<close>

lemma sweep_slot_preserves: "i < length (w_slots w) \<Longrightarrow> preserves i w (sweep_slot now i (w, e))"
  by (simp add: sweep_slot_def Let_def preserves_close)

text \<open>A loop over the slots keeps what every slot keeps.\<close>

lemma fold_slots_keep:
  fixes f :: "nat \<Rightarrow> 'a worker_state \<Rightarrow> 'a worker_state"
  assumes step: "\<And>i w e. i < length (w_slots w) \<Longrightarrow> preserves i w (f i (w, e))"
    and ok: "worker_ok w" and len: "length (w_slots w) = n"
  shows "worker_ok (fst (fold f [0..<n] (w, e))) \<and> length (w_slots (fst (fold f [0..<n] (w, e)))) = n"
proof -
  define P where "P s = (worker_ok (fst s) \<and> length (w_slots (fst s)) = n)" for s :: "'a worker_state"
  have one: "P (f i s)" if "i \<in> set [0..<n]" "P s" for i s
    using step [of i "fst s" "snd s"] that by (cases s) (simp add: P_def preserves_def)
  have "P (fold f [0..<n] (w, e))" by (rule fold_invariant [where Q = "\<lambda>i. i \<in> set [0..<n]"]) (use one ok len in \<open>auto simp: P_def\<close>)
  then show ?thesis by (simp add: P_def)
qed

lemma sweep_ok:
  assumes "worker_ok w"
  shows "worker_ok (fst (sweep_deadlines now (w, e))) \<and> length (w_slots (fst (sweep_deadlines now (w, e)))) = length (w_slots w)"
  using fold_slots_keep [of "sweep_slot now", OF sweep_slot_preserves assms refl, of e] assms
  by (simp add: sweep_deadlines_def)

lemma push_ok:
  assumes "worker_ok w" "w_free w = is @ [i]"
  shows "worker_ok (free_push i (w\<lparr>w_free := is\<rparr>))"
  using assms by (simp add: free_push_def worker_ok_def active_at_def)

lemma take_slot_ok:
  assumes ok: "worker_ok w" and free: "w_free w = is @ [i]" and act: "sl_active sl"
  shows "worker_ok ((put_slot i sl (w\<lparr>w_free := is\<rparr>))\<lparr>w_nactive := w_nactive w + 1\<rparr>)"
proof -
  let ?w = "(put_slot i sl (w\<lparr>w_free := is\<rparr>))\<lparr>w_nactive := w_nactive w + 1\<rparr>"
  have i: "i < length (w_slots w)" "i \<notin> active_at w" "i \<notin> set is"
    using ok free by (auto simp: worker_ok_def)
  have "active_at ?w = insert i (active_at w)"
    using i act by (auto simp: active_at_def nth_list_update)
  then show ?thesis using i ok free by (auto simp: worker_ok_def active_at_bounds)
qed

lemma accept_slot_active [simp]: "sl_active (accept_slot now c slot) = sl_active slot"
  by (simp add: accept_slot_def Let_def)

lemma accept_into_ok:
  assumes ok: "worker_ok w" and free: "w_free w = is @ [i]"
  shows "worker_ok (fst (accept_into routes now c i (w\<lparr>w_free := is\<rparr>, e)))
    \<and> length (w_slots (fst (accept_into routes now c i (w\<lparr>w_free := is\<rparr>, e)))) = length (w_slots w)"
proof -
  let ?w = "w\<lparr>w_free := is\<rparr>" and ?slot = "accept_slot now c (w_slots w ! i)"
  have i: "i < length (w_slots w)" using ok free by (auto simp: worker_ok_def)
  obtain a e1 where epoll: "sys_epoll e = (a, e1)" by (cases "sys_epoll e")
  show ?thesis
  proof (cases a)
    case False
    obtain hc e2 where clean: "http_conn_cleanup (sl_hc ?slot, e1) = (hc, e2)"
      by (cases "http_conn_cleanup (sl_hc ?slot, e1)")
    have "worker_ok (put_slot i (?slot\<lparr>sl_hc := hc\<rparr>) w)" using ok by simp
    from push_ok [OF this] free False show ?thesis
      by (simp add: accept_into_def Let_def epoll clean) (simp add: free_push_def)
  next
    case True
    obtain io slot e2 where read:
      "http_conn_on_read routes now (?slot\<lparr>sl_active := True, sl_armed_io := IO_WANT_READ\<rparr>, e1) = (io, slot, e2)"
      by (cases "http_conn_on_read routes now (?slot\<lparr>sl_active := True, sl_armed_io := IO_WANT_READ\<rparr>, e1)")
    let ?w2 = "(put_slot i slot ?w)\<lparr>w_nactive := w_nactive w + 1\<rparr>"
    have "worker_ok ?w2" using take_slot_ok [OF ok free] on_read_active [OF read] by simp
    moreover have "preserves i ?w2 (apply_io routes i io now (?w2, e2))" by (rule apply_io_preserves) (use i in simp)
    ultimately show ?thesis using True by (simp add: accept_into_def Let_def epoll read preserves_def)
  qed
qed

lemma try_accept_ok:
  assumes run: "try_accept_one routes now (q, w, e) = (again, q', w', e')" and ok: "worker_ok w"
  shows "worker_ok w' \<and> length (w_slots w') = length (w_slots w)"
proof -
  have pop: "free_pop w = (Some (last (w_free w)), w\<lparr>w_free := butlast (w_free w)\<rparr>)"
    "w_free w = butlast (w_free w) @ [last (w_free w)]" if "w_free w \<noteq> []"
    using that by (simp_all add: free_pop_def)
  show ?thesis
  proof (cases "w_free w = []")
    case True
    with run ok show ?thesis by (simp add: try_accept_one_def)
  next
    case False
    note into = accept_into_ok [OF ok pop(2) [OF False]]
    obtain a q1 c where deq: "dequeue_connection q connection0 = (a, q1, c)" by (cases "dequeue_connection q connection0")
    show ?thesis
      using run ok into [of routes now c e] False
      by (simp add: try_accept_one_def deq pop(1) [OF False] split: if_splits bool.splits prod.splits)
  qed
qed

lemma init_shape: "length (w_slots (worker_init slots)) = length slots \<and> w_slots (worker_init slots) = slots
  \<and> w_free (worker_init slots) = rev [0..<length slots] \<and> w_nactive (worker_init slots) = 0"
proof -
  have "fold free_push is w = w\<lparr>w_free := w_free w @ is\<rparr>" for "is" w
    by (induction "is" arbitrary: w) (simp_all add: free_push_def)
  then show ?thesis by (simp add: worker_init_def)
qed

lemma init_ok: "\<forall>sl \<in> set slots. \<not> sl_active sl \<Longrightarrow> worker_ok (worker_init slots)"
  by (auto simp: worker_ok_def init_shape active_at_def)

text \<open>Closing every slot leaves none in use.\<close>

lemma close_all:
  assumes "worker_ok w" and "k \<le> length (w_slots w)"
  shows "case fold slot_close [0..<k] (w, e) of (w', e') \<Rightarrow>
    worker_ok w' \<and> length (w_slots w') = length (w_slots w) \<and> active_at w' = active_at w - {..<k}"
  using assms(2)
proof (induction k)
  case (Suc k)
  obtain w1 e1 where first: "fold slot_close [0..<k] (w, e) = (w1, e1)" by (cases "fold slot_close [0..<k] (w, e)")
  with Suc have ih: "worker_ok w1" "length (w_slots w1) = length (w_slots w)" "active_at w1 = active_at w - {..<k}" "k < length (w_slots w1)"
    by auto
  obtain w2 e2 where last: "slot_close k (w1, e1) = (w2, e2)" by (cases "slot_close k (w1, e1)")
  show ?case
    using slot_close_ok [OF last ih(4) ih(1)] slot_close_shape [OF last ih(4)] ih(2,3)
    by (auto simp: first last lessThan_Suc)
qed (use assms in simp)

lemma shutdown_shape:
  assumes "worker_ok w"
  shows "worker_ok (fst (worker_shutdown (w, e))) \<and> active_at (fst (worker_shutdown (w, e))) = {}
    \<and> length (w_slots (fst (worker_shutdown (w, e)))) = length (w_slots w)"
  using close_all [OF assms order_refl, of e] active_at_bounds(1) [of w]
  by (auto simp: worker_shutdown_def split: prod.split)

section \<open>Runs of a worker\<close>

text \<open>
  What a worker does, in any order, while the world changes around it: other threads work on the
  queue, and kernel and clients give any answers.
\<close>

inductive worker_step ::
  "tiny_route list \<Rightarrow> int \<Rightarrow> connection_queue \<times> 'a worker_state \<Rightarrow> connection_queue \<times> 'a worker_state \<Rightarrow> bool"
  for routes wake where
  world: "worker_step routes wake (q, w, e) (q', w, e')"
| accept: "try_accept_one routes now (q, w, e) = (again, s) \<Longrightarrow> worker_step routes wake (q, w, e) s"
| event: "worker_event routes wake now pe (w, e) = s \<Longrightarrow> worker_step routes wake (q, w, e) (q, s)"
| sweep: "sweep_deadlines now (w, e) = s \<Longrightarrow> worker_step routes wake (q, w, e) (q, s)"

inductive_cases worker_stepE: "worker_step routes wake s s'"

lemma worker_step_ok:
  assumes "worker_step routes wake s s'" and "worker_ok (fst (snd s))"
  shows "worker_ok (fst (snd s')) \<and> length (w_slots (fst (snd s'))) = length (w_slots (fst (snd s)))"
  using assms(1)
proof (rule worker_stepE)
  fix q w e q1 e1
  assume "s = (q, w, e)" "s' = (q1, w, e1)"
  then show ?thesis using assms(2) by simp
next
  fix now q w e again
  assume "try_accept_one routes now (q, w, e) = (again, s')" "s = (q, w, e)"
  then show ?thesis using assms(2) by (cases s') (auto dest: try_accept_ok)
next
  fix now pe w e q
  assume "s = (q, w, e)" "s' = (q, worker_event routes wake now pe (w, e))"
  then show ?thesis using assms(2) worker_event_preserves [of w routes wake now pe e] by simp
next
  fix now w e q
  assume "s = (q, w, e)" "s' = (q, sweep_deadlines now (w, e))"
  then show ?thesis using assms(2) sweep_ok [of w now e] by simp
qed

lemma worker_run_ok:
  assumes "(worker_step routes wake)\<^sup>*\<^sup>* s s'" and "worker_ok (fst (snd s))"
  shows "worker_ok (fst (snd s')) \<and> length (w_slots (fst (snd s'))) = length (w_slots (fst (snd s)))"
  using assms(1)
proof (induction rule: rtranclp_induct)
  case (step s1 s2)
  from worker_step_ok [OF step.hyps(2)] step.IH show ?case by simp
qed (use assms(2) in simp)

text \<open>A turn of the loop is such a run.\<close>

lemma worker_turn_run: "(worker_step routes wake)\<^sup>*\<^sup>* (q, s) (q, worker_turn routes wake now evs i s)"
proof -
  have event: "worker_step routes wake (q, s) (q, worker_event routes wake now pe s)" for pe s
    by (cases s) (auto intro: worker_step.event)
  have "(worker_step routes wake)\<^sup>*\<^sup>* (q, s) (q, fold (worker_event routes wake now) evs s)"
  proof (induction evs arbitrary: s)
    case (Cons pe evs)
    show ?case unfolding fold_Cons comp_def by (rule converse_rtranclp_into_rtranclp [OF event Cons.IH])
  qed simp
  moreover have "worker_step routes wake (q, s) (q, sweep_deadlines now s)" for s
    by (cases s) (auto intro: worker_step.sweep)
  ultimately show ?thesis unfolding worker_turn_def Let_def by (cases "evs = [] \<or> i mod DEADLINE_SWEEP_EVERY = 0") (simp_all only: if_True if_False, rule rtranclp.rtrancl_into_rtrancl)
qed

text \<open>The loop that accepts: it empties the queue or the stack.\<close>

lemma try_accept_queue:
  assumes "queue_ok q" and "try_accept_one routes now (q, w, e) = (again, q', w', e')"
  shows "queue_ok q' \<and> queue_size q' \<le> queue_size q \<and> (again \<longrightarrow> queue_size q' < queue_size q)
    \<and> (\<not> again \<longrightarrow> q' = q \<and> w' = w \<and> (w_free w = [] \<or> queue_items q = []))"
proof (cases "w_free w = [] \<or> queue_items q = []")
  case True
  show ?thesis
  proof (cases "w_free w = []")
    case False
    with True have "queue_items q = []" by simp
    then have "queue_size q = 0" by (metis length_queue_items list.size(3))
    from dequeue_empty [OF assms(1) this] False \<open>queue_items q = []\<close> assms show ?thesis
      by (simp add: try_accept_one_def)
  qed (use assms in \<open>simp add: try_accept_one_def\<close>)
next
  case False
  then obtain x xs where items: "queue_items q = x # xs" by (cases "queue_items q") auto
  from dequeue_some [OF assms(1) this, of connection0] obtain q1 c where
    deq: "dequeue_connection q connection0 = (True, q1, c)" "queue_ok q1" "queue_items q1 = xs" by blast
  have "queue_size q1 < queue_size q" using items deq(3) by (metis length_queue_items length_Cons lessI)
  then show ?thesis using assms(2) False deq
    by (simp add: try_accept_one_def split: if_splits option.splits prod.splits)
qed

text \<open>
  C35. In every run of a worker, from its start with unused slots, whatever clients, kernel and the
  other threads do and in whatever order connections, events and deadlines come: the stack of free
  slots holds exactly the slots that are not in use, each once, so it never outgrows its array and
  no slot is lost or given to two connections; \<open>nactive\<close>, on which the timeout of \<open>epoll_wait\<close> and
  the sweep depend, is the number of slots in use. The shutdown that ends the run frees all slots.
\<close>

theorem worker_slots_accounted:
  assumes start: "\<forall>sl \<in> set slots. \<not> sl_active sl"
    and run: "(worker_step routes wake)\<^sup>*\<^sup>* (q, worker_init slots, e) (q', w, e')"
  shows "distinct (w_free w) \<and> set (w_free w) = {i. i < length slots \<and> \<not> sl_active (w_slots w ! i)}
    \<and> w_nactive w = card {i. i < length slots \<and> sl_active (w_slots w ! i)}
    \<and> length (w_free w) + w_nactive w = length slots
    \<and> (case worker_shutdown (w, e') of (w', _) \<Rightarrow> w_nactive w' = 0 \<and> length (w_free w') = length slots
         \<and> (\<forall>sl \<in> set (w_slots w'). \<not> sl_active sl))"
proof -
  have count: "length (w_free v) + w_nactive v = length (w_slots v)" if ok: "worker_ok v" for v
  proof -
    have "length (w_free v) = card (set (w_free v))" using ok by (metis distinct_card worker_ok_def)
    also have "\<dots> = card {..<length (w_slots v)} - card (active_at v)"
      using ok by (simp add: worker_ok_def card_Diff_subset active_at_bounds)
    finally show ?thesis
      using ok card_mono [OF _ active_at_bounds(1) [of v]] by (simp add: worker_ok_def)
  qed
  from worker_run_ok [OF run] init_ok [OF start]
  have ok: "worker_ok w" and len: "length (w_slots w) = length slots" by (simp_all add: init_shape)
  obtain w' e1 where down: "worker_shutdown (w, e') = (w', e1)" by (cases "worker_shutdown (w, e')")
  from shutdown_shape [OF ok, of e'] have ok': "worker_ok w'" "active_at w' = {}" "length (w_slots w') = length slots"
    by (simp_all add: down len)
  from ok'(2) have "\<forall>sl \<in> set (w_slots w'). \<not> sl_active sl" by (auto simp: active_at_def in_set_conv_nth)
  moreover have "w_nactive w' = 0" using ok' by (simp add: worker_ok_def)
  moreover have "length (w_free w') = length slots" using count [OF ok'(1)] ok'(3) calculation(2) by simp
  moreover have "set (w_free w) = {i. i < length slots \<and> \<not> sl_active (w_slots w ! i)}"
    "w_nactive w = card {i. i < length slots \<and> sl_active (w_slots w ! i)}" "distinct (w_free w)"
    using ok by (auto simp: worker_ok_def active_at_def len)
  ultimately show ?thesis using count [OF ok] len by (simp add: down)
qed

text \<open>
  C36. \<open>while (try_accept_one(...))\<close> ends, on any queue that is well formed, whatever the requests of
  the new connections and the answers of the kernel: and it ends only when the queue is empty or
  every slot of the worker is in use, so a worker does not go to sleep on a connection it could take.
\<close>

theorem accept_loop_returns:
  assumes "queue_ok q"
  shows "\<exists>q' w' e'. accept_loop routes now (q, w, e) = Some (q', w', e') \<and> queue_ok q'
    \<and> (w_free w' = [] \<or> queue_items q' = [])"
  using assms
proof (induction "queue_size q" arbitrary: q w e rule: less_induct)
  case less
  obtain again q1 w1 e1 where run: "try_accept_one routes now (q, w, e) = (again, q1, w1, e1)"
    by (cases "try_accept_one routes now (q, w, e)")
  note step = try_accept_queue [OF less.prems run]
  show ?case
  proof (cases again)
    case True
    with less.hyps [of q1 w1 e1] step run show ?thesis by (subst accept_loop.simps) simp
  next
    case False
    with step less.prems run show ?thesis by (subst accept_loop.simps) simp
  qed
qed

text \<open>One slot, one connection waiting, its client silent.\<close>

definition idle_slot :: tiny_slot where
  "idle_slot = \<lparr>sl_active = False, sl_armed_io = IO_DONE, sl_proxying = False, sl_hc = http_conn0, sl_px = px_conn0\<rparr>"

definition one_waiting :: connection_queue where
  "one_waiting = fst (snd (enqueue_connection (queue_init 2) (sample_conn 5)))"

lemma one_waiting_ok: "queue_ok one_waiting" "queue_items one_waiting = [sample_info 5]"
proof -
  have "\<exists>k < 32. (2 :: u32) = 2 ^ k" by (rule exI [of _ 1]) simp
  note init = queue_init_ok [OF this]
  then have "queue_size (queue_init 2) = 0" by (metis length_queue_items list.size(3))
  moreover have "q_capacity (queue_init 2) = 2" by (simp add: queue_init_def)
  ultimately show "queue_ok one_waiting" "queue_items one_waiting = [sample_info 5]"
    using enqueue_room [of "queue_init 2" "sample_conn 5"] init by (auto simp: one_waiting_def)
qed

lemma silent_read:
  assumes "hc_phase (sl_hc sl) = PHASE_READ" "length (hc_buf (sl_hc sl)) < hc_header_cap (sl_hc sl)" "k_reads e (hc_fd (sl_hc sl)) = []"
    "hc_buf (sl_hc sl) = []" "now < hc_deadline (sl_hc sl)"
  shows "http_conn_on_read routes now (sl, e) = (IO_WANT_READ, sl, e)"
  using assms by (simp add: http_conn_on_read_def on_read_loop.simps sys_read_def)

lemma reuse_loop_idle: "io \<noteq> IO_DONE \<Longrightarrow> reuse_loop routes now io (sl, e) = (io, sl, e)"
  by (simp add: reuse_loop.simps)

lemma silent_accept:
  "\<exists>q w e. try_accept_one [] 7 (one_waiting, worker_init [idle_slot], proxy_env0) = (True, q, w, e)
    \<and> w_free w = [] \<and> w_nactive w = 1 \<and> length (w_slots w) = 1 \<and> sl_active (w_slots w ! 0)"
  by (simp add: one_waiting_def enqueue_connection_def queue_init_def queue_slot_def connection0_def
      connection_copy_payload_def sample_conn_def sample_info_def conn_info.defs Let_def try_accept_one_def
      worker_init_def free_push_def free_pop_def dequeue_connection_def accept_into_def accept_slot_def idle_slot_def
      http_conn_prepare_def reset_request_state_def proxy_env0_def sys_epoll_def http_conn0_def
      silent_read apply_io_def reuse_loop_idle arm_events_def evals
      TINY_READ_TIMEOUT_MS_def TINY_HEADER_SIZE_def)

lemma accept_loop_returns_witness:
  "\<exists>q' w' e'. accept_loop [] 7 (one_waiting, worker_init [idle_slot], proxy_env0) = Some (q', w', e')
    \<and> (w_free w' = [] \<or> queue_items q' = [])"
  using accept_loop_returns [OF one_waiting_ok(1), of "[]" 7 "worker_init [idle_slot]" proxy_env0] by blast

lemma worker_slots_accounted_witness:
  "\<exists>q w e. (worker_step [] 3)\<^sup>*\<^sup>* (one_waiting, worker_init [idle_slot], proxy_env0) (q, w, e)
    \<and> w_nactive w = 1 \<and> {i. i < 1 \<and> \<not> sl_active (w_slots w ! i)} = {}
    \<and> length (w_free (fst (worker_shutdown (w, e)))) = 1"
proof -
  from silent_accept obtain q w e where
    acc: "try_accept_one [] 7 (one_waiting, worker_init [idle_slot], proxy_env0) = (True, q, w, e)"
      "w_free w = []" "w_nactive w = 1" by blast
  have run: "(worker_step [] 3)\<^sup>*\<^sup>* (one_waiting, worker_init [idle_slot], proxy_env0) (q, w, e)"
    by (rule r_into_rtranclp) (rule worker_step.accept [OF acc(1)])
  have "\<forall>sl \<in> set [idle_slot]. \<not> sl_active sl" by (simp add: idle_slot_def)
  from worker_slots_accounted [OF this run] have
    "set (w_free w) = {i. i < 1 \<and> \<not> sl_active (w_slots w ! i)}" "length (w_free (fst (worker_shutdown (w, e)))) = 1"
    by (auto split: prod.splits)
  with acc run show ?thesis by (intro exI [of _ q] exI [of _ w] exI [of _ e]) simp
qed

section \<open>An event that comes too late\<close>

text \<open>
  Two events of one batch may concern one slot. When the first of them ends the exchange, the upstream
  connection is parked or closed, \<open>px.fd\<close> is -1, and the slot goes on with its next request. The event
  of the upstream that follows then closes the client's connection.
\<close>

lemma late_upstream_dispatch:
  assumes ev: "packed \<noteq> TINY_WORKER_WAKE_IDX" "packed AND EP_UPSTREAM \<noteq> 0" "unat (packed AND NOT EP_UPSTREAM) = idx"
    and slot: "idx < length (w_slots w)" "sl_active (w_slots w ! idx)"
  shows "worker_event routes wake now (packed, bits) (w, e) = proxy_event routes now idx (w, e)"
proof -
  have inside: "\<not> length (w_slots w) \<le> idx" using slot(1) by simp
  show ?thesis
    by (simp only: worker_event_def prod.case Let_def ev slot inside if_True if_False simp_thms not_False_eq_True)
qed

lemma late_upstream_event:
  assumes ev: "packed \<noteq> TINY_WORKER_WAKE_IDX" "packed AND EP_UPSTREAM \<noteq> 0" "unat (packed AND NOT EP_UPSTREAM) = idx"
    and slot: "idx < length (w_slots w)" "sl_active (w_slots w ! idx)" "px_fd (sl_px (w_slots w ! idx)) < 0"
    and run: "worker_event routes wake now (packed, bits) (w, e) = (w', e')"
  shows "\<not> sl_active (w_slots w' ! idx) \<and> w_free w' = w_free w @ [idx]"
proof -
  let ?w = "put_slot idx ((w_slots w ! idx)\<lparr>sl_proxying := False\<rparr>) w"
  have "proxy_event routes now idx (w, e) = slot_close idx (?w, e)"
    using slot by (simp add: proxy_event_def proxy_pump_def apply_io_def reuse_loop_idle Let_def)
  with run late_upstream_dispatch [OF ev slot(1,2), of routes wake now bits e]
  have "slot_close idx (?w, e) = (w', e')" by argo
  note shape = slot_close_shape [OF this, simplified, OF slot(1)]
  have "w_free w' = w_free w @ [idx]" using shape slot(1,2) by simp
  moreover have "idx \<notin> active_at w'" "length (w_slots w') = length (w_slots w)" using shape by simp_all
  ultimately show ?thesis using slot(1) by (simp add: active_at_def)
qed

end
