(* ===== verification/Runtime.thy ===== *)
theory Runtime
  imports Routes Worker
begin

text \<open>
  Start and end of the server, \<^verbatim>\<open>src/runtime.c\<close>: the pools, the listener, the threads, and the loop
  that accepts connections. The answers of the kernel and of \<open>pthread_create\<close> are inputs, and so are
  the sizes of the C structures; mappings and descriptors are logged, so that leaks are visible.
\<close>

section \<open>State\<close>

text \<open>The address to listen on; one with a colon is an IPv6 address.\<close>

definition TINY_BIND :: string where "TINY_BIND = ''::''"

datatype family = AF_INET | AF_INET6

definition bind_family :: "string \<Rightarrow> family" where
  "bind_family addr = (if CHR '':'' \<in> set addr then AF_INET6 else AF_INET)"

text \<open>\<open>sizeof\<close> of the three structures the pools hold, which the compiler chooses.\<close>

record struct_sizes =
  so_worker :: u64
  so_slot :: u64
  so_connection :: u64

text \<open>
  The process outside \<open>tiny_runtime\<close>. \<open>sy_limit\<close> is the answer of \<open>getrlimit\<close> (soft and hard limit),
  \<open>sy_maps\<close> the addresses the coming \<open>mmap\<close> calls return, 0 for a failure. \<open>sy_wakes\<close> counts the
  writes to the event descriptor, \<open>sy_joined\<close> the threads that were joined.
\<close>

record run_sys =
  sy_limit :: "(u64 \<times> u64) option"
  sy_setlimit :: bool
  sy_maps :: "u64 list"
  sy_eventfd :: int
  sy_socket :: "family \<Rightarrow> int"
  sy_pton :: "family \<Rightarrow> string \<Rightarrow> bool"
  sy_bind :: bool
  sy_listen :: bool
  sy_mapped :: "(u64 \<times> u64) list"
  sy_unmapped :: "(u64 \<times> u64) list"
  sy_opened :: "int list"
  sy_closed :: "int list"
  sy_wakes :: nat
  sy_joined :: nat
  sy_policy :: static_policy
  sy_routes :: routes_state

text \<open>
  \<open>rn_workers\<close>, \<open>rn_slots\<close>, \<open>rn_bump_pool\<close> and \<open>rn_queue_data\<close> are the addresses of the pools, 0 for
  \<open>NULL\<close>; \<open>rn_slot_pool\<close> is the contents of the slots. Worker \<open>i\<close> has the slots from \<open>i * 128\<close> on.
\<close>

record tiny_runtime =
  rn_root :: "byte list"
  rn_port :: u16
  rn_workers :: u64
  rn_slots :: u64
  rn_bump_pool :: u64
  rn_queue_data :: u64
  rn_slot_pool :: "tiny_slot list"
  rn_queue :: connection_queue
  rn_workers_bytes :: u64
  rn_slots_bytes :: u64
  rn_bump_bytes :: u64
  rn_queue_bytes :: u64
  rn_listen_fd :: int
  rn_wake_fd :: int
  rn_root_fd :: int
  rn_workers_started :: nat
  rn_stop :: bool
  rn_stats_pending :: bool

definition worker_slots :: "tiny_runtime \<Rightarrow> nat \<Rightarrow> tiny_slot list" where
  "worker_slots rt i = take TINY_CONNS_PER_WORKER (drop (i * TINY_CONNS_PER_WORKER) (rn_slot_pool rt))"

section \<open>Pools\<close>

definition mmap_pool :: "u64 \<Rightarrow> run_sys \<Rightarrow> u64 \<times> run_sys" where
  "mmap_pool sz s =
     (case sy_maps s of
        [] \<Rightarrow> (0, s)
      | p # ps \<Rightarrow> (p, s\<lparr>sy_maps := ps, sy_mapped := sy_mapped s @ (if p \<noteq> 0 then [(p, sz)] else [])\<rparr>))"

definition munmap_pool :: "u64 \<Rightarrow> u64 \<Rightarrow> run_sys \<Rightarrow> run_sys" where
  "munmap_pool p sz s = (if p \<noteq> 0 \<and> sz \<noteq> 0 then s\<lparr>sy_unmapped := sy_unmapped s @ [(p, sz)]\<rparr> else s)"

definition tiny_runtime_notify :: "tiny_runtime \<Rightarrow> run_sys \<Rightarrow> run_sys" where
  "tiny_runtime_notify rt s = (if rn_wake_fd rt < 0 then s else s\<lparr>sy_wakes := sy_wakes s + 1\<rparr>)"

definition close_fd :: "int \<Rightarrow> run_sys \<Rightarrow> run_sys" where
  "close_fd fd s = s\<lparr>sy_closed := sy_closed s @ [fd]\<rparr>"

text \<open>Descriptors for every slot: the client, the upstream and a file; the infinite limit is the largest word.\<close>

definition nofile_need :: u64 where
  "nofile_need = of_nat TINY_WORKERS * of_nat TINY_CONNS_PER_WORKER * 3 + of_nat TINY_QUEUE_SIZE
     + of_nat TINY_WORKERS * 2 + 64"

definition check_nofile :: "run_sys \<Rightarrow> bool" where
  "check_nofile s =
     (case sy_limit s of
        None \<Rightarrow> False
      | Some (soft, hard) \<Rightarrow>
          if soft \<ge> nofile_need then True
          else if hard \<noteq> - 1 \<and> nofile_need > hard then False
          else sy_setlimit s)"

section \<open>The listener\<close>

text \<open>
  Both families take the same steps, with other constants. \<open>SO_REUSEADDR\<close> and \<open>IPV6_V6ONLY\<close> have no
  answer the code looks at.
\<close>

definition open_listener :: "tiny_runtime \<Rightarrow> run_sys \<Rightarrow> bool \<times> tiny_runtime \<times> run_sys" where
  "open_listener rt s =
     (let fam = bind_family TINY_BIND; fd = sy_socket s fam in
      if fd < 0 then (False, rt, s)
      else
        let s = s\<lparr>sy_opened := sy_opened s @ [fd]\<rparr> in
        if \<not> sy_pton s fam TINY_BIND then (False, rt, close_fd fd s)
        else if \<not> sy_bind s then (False, rt, close_fd fd s)
        else if \<not> sy_listen s then (False, rt, close_fd fd s)
        else (True, rt\<lparr>rn_listen_fd := fd\<rparr>, s))"

section \<open>Slots\<close>

text \<open>Memory that \<open>memset\<close> has cleared.\<close>

definition http_conn_zero :: http_conn where
  "http_conn_zero = \<lparr>hc_conn = connection0, hc_arena = \<lparr>bp_offset = 0, bp_size = 0, bp_mem = 0\<rparr>, hc_buf = [], hc_header_cap = 0,
     hc_read_timeout = 0, hc_send_timeout = 0, hc_keepalive = 0, hc_req = http_request0, hc_phase = PHASE_READ,
     hc_send_body = False, hc_cork_on = False, hc_keep = False, hc_file_owned = False, hc_status = 0, hc_deadline = 0,
     hc_last_active = 0, hc_fixed = [], hc_fixed_off = 0, hc_out_hdr = [], hc_out_hdr_off = 0, hc_file_fd = 0,
     hc_file_size = 0, hc_file_off = 0\<rparr>"

definition proxy_conn_zero :: proxy_conn where
  "proxy_conn_zero = \<lparr>chunk_state = CH_SIZE, saw_digit = False, chunk_size = 0, px_fd = 0, px_phase = PX_NONE,
     px_armed = IO_DONE, px_in_epoll = False, px_cont_off = 0, px_flags = {}, px_status = 0, px_up_addr = [], px_hdr = [],
     px_hdr_off = 0, px_buf = [], px_buf_off = 0, px_body_off = 0, px_body_end = 0, px_body_left = 0, px_resp_left = 0\<rparr>"

text \<open>Slot \<open>bump_i\<close> of the pool, with its piece of the memory for arenas.\<close>

definition init_slot :: "u64 \<Rightarrow> nat \<Rightarrow> tiny_slot" where
  "init_slot bump_pool bump_i =
     \<lparr>sl_active = False, sl_armed_io = IO_DONE, sl_proxying = False,
      sl_hc = http_conn_zero\<lparr>hc_arena := bump_bind (bump_pool + of_nat bump_i * of_nat TINY_BUMP_SIZE) (of_nat TINY_BUMP_SIZE),
        hc_file_fd := - 1, hc_conn := (hc_conn http_conn_zero)\<lparr>c_fd := - 1\<rparr>\<rparr>,
      sl_px = proxy_conn_reset proxy_conn_zero\<rparr>"

section \<open>Start and end\<close>

text \<open>The structure that \<open>memset\<close> has cleared, with the fields set before the first check.\<close>

definition runtime0 :: "tiny_site \<Rightarrow> tiny_runtime" where
  "runtime0 site = \<lparr>rn_root = [], rn_port = site_port site, rn_workers = 0, rn_slots = 0, rn_bump_pool = 0, rn_queue_data = 0,
     rn_slot_pool = [], rn_queue = \<lparr>q_data = [], q_capacity = 0, q_head = 0, q_tail = 0\<rparr>, rn_workers_bytes = 0,
     rn_slots_bytes = 0, rn_bump_bytes = 0, rn_queue_bytes = 0, rn_listen_fd = - 1, rn_wake_fd = - 1, rn_root_fd = - 1,
     rn_workers_started = 0, rn_stop = False, rn_stats_pending = False\<rparr>"

definition tiny_runtime_destroy :: "tiny_runtime \<Rightarrow> run_sys \<Rightarrow> tiny_runtime \<times> run_sys" where
  "tiny_runtime_destroy rt s =
     (let rt = rt\<lparr>rn_stop := True\<rparr>;
          s = tiny_runtime_notify rt s;
          (rt, s) = (if rn_workers rt \<noteq> 0 \<and> rn_workers_started rt > 0
            then (rt\<lparr>rn_workers_started := 0\<rparr>, s\<lparr>sy_joined := sy_joined s + rn_workers_started rt\<rparr>) else (rt, s));
          (rt, s) = (if rn_listen_fd rt \<ge> 0 then (rt\<lparr>rn_listen_fd := - 1\<rparr>, close_fd (rn_listen_fd rt) s) else (rt, s));
          (rt, s) = (if rn_wake_fd rt \<ge> 0 then (rt\<lparr>rn_wake_fd := - 1\<rparr>, close_fd (rn_wake_fd rt) s) else (rt, s));
          s = s\<lparr>sy_routes := routes_shutdown (sy_routes s)\<rparr>;
          s = munmap_pool (rn_queue_data rt) (rn_queue_bytes rt) s;
          s = munmap_pool (rn_bump_pool rt) (rn_bump_bytes rt) s;
          s = munmap_pool (rn_slots rt) (rn_slots_bytes rt) s;
          s = munmap_pool (rn_workers rt) (rn_workers_bytes rt) s
      in (rt\<lparr>rn_queue_data := 0, rn_bump_pool := 0, rn_slots := 0, rn_workers := 0\<rparr>, s))"

text \<open>A failure after the pools: all is given back.\<close>

definition init_fail :: "tiny_runtime \<Rightarrow> run_sys \<Rightarrow> bool \<times> tiny_runtime \<times> run_sys" where
  "init_fail rt s = (case tiny_runtime_destroy rt s of (rt, s) \<Rightarrow> (False, rt, s))"

text \<open>The sizes of the pools; \<open>None\<close> when one of the products overflows.\<close>

definition pool_sizes :: "struct_sizes \<Rightarrow> tiny_runtime \<Rightarrow> tiny_runtime option" where
  "pool_sizes so rt =
     (case tiny_size_mul (of_nat TINY_WORKERS) (of_nat TINY_CONNS_PER_WORKER) of
        None \<Rightarrow> None
      | Some nslots \<Rightarrow>
          (case (tiny_size_mul nslots (so_slot so), tiny_size_mul nslots (of_nat TINY_BUMP_SIZE),
               tiny_size_mul (of_nat TINY_WORKERS) (so_worker so), tiny_size_mul (of_nat TINY_QUEUE_SIZE) (so_connection so)) of
             (Some slots, Some bump, Some workers, Some queue) \<Rightarrow>
               Some (rt\<lparr>rn_slots_bytes := slots, rn_bump_bytes := bump, rn_workers_bytes := workers, rn_queue_bytes := queue\<rparr>)
           | _ \<Rightarrow> None))"

text \<open>The four \<open>mmap\<close> calls; all are made before the first result is looked at.\<close>

definition map_pools :: "tiny_runtime \<Rightarrow> run_sys \<Rightarrow> tiny_runtime \<times> run_sys" where
  "map_pools rt s =
     (case mmap_pool (rn_workers_bytes rt) s of (workers, s) \<Rightarrow>
      case mmap_pool (rn_slots_bytes rt) s of (slots, s) \<Rightarrow>
      case mmap_pool (rn_bump_bytes rt) s of (bump, s) \<Rightarrow>
      case mmap_pool (rn_queue_bytes rt) s of (queue, s) \<Rightarrow>
        (rt\<lparr>rn_workers := workers, rn_slots := slots, rn_bump_pool := bump, rn_queue_data := queue\<rparr>, s))"

definition init_pools :: "tiny_runtime \<Rightarrow> tiny_runtime" where
  "init_pools rt = rt\<lparr>rn_queue := queue_init (of_nat TINY_QUEUE_SIZE),
     rn_slot_pool := map (init_slot (rn_bump_pool rt)) [0..<TINY_WORKERS * TINY_CONNS_PER_WORKER]\<rparr>"

text \<open>The event descriptor and the listener, then the part from the routes on, then the
  whole. The site is there: \<open>main\<close>, the only caller, passes the address of its own.\<close>

definition init_sockets :: "tiny_runtime \<Rightarrow> run_sys \<Rightarrow> bool \<times> tiny_runtime \<times> run_sys" where
  "init_sockets rt s =
     (let rt = rt\<lparr>rn_wake_fd := sy_eventfd s\<rparr> in
      if rn_wake_fd rt < 0 then init_fail rt s
      else
        (case open_listener rt (s\<lparr>sy_opened := sy_opened s @ [rn_wake_fd rt]\<rparr>) of
           (False, rt, s) \<Rightarrow> init_fail rt s
         | (True, rt, s) \<Rightarrow> (True, rt, s)))"

definition init_routes ::
  "(byte list \<Rightarrow> file_kind option) \<Rightarrow> tiny_site \<Rightarrow> tiny_runtime \<Rightarrow> run_sys \<Rightarrow> bool \<times> tiny_runtime \<times> run_sys" where
  "init_routes stat_of site rt s =
     (let s = s\<lparr>sy_policy := \<lparr>allow_dotfiles = TINY_ALLOW_DOTFILES, allow_symlinks = TINY_ALLOW_SYMLINKS\<rparr>\<rparr> in
      case routes_init stat_of (Some site) (sy_routes s) of
        (Inl _, st) \<Rightarrow> init_fail rt (s\<lparr>sy_routes := st\<rparr>)
      | (Inr _, st) \<Rightarrow>
          (let docroot = routes_docroot st
           in init_sockets (rt\<lparr>rn_root := (if docroot \<noteq> [] then docroot else bytes ''(none)'')\<rparr>) (s\<lparr>sy_routes := st\<rparr>)))"

definition tiny_runtime_init ::
  "struct_sizes \<Rightarrow> (byte list \<Rightarrow> file_kind option) \<Rightarrow> tiny_site \<Rightarrow> run_sys \<Rightarrow> bool \<times> tiny_runtime \<times> run_sys" where
  "tiny_runtime_init so stat_of site s =
     (if \<not> check_nofile s then (False, runtime0 site, s)
      else
        (case pool_sizes so (runtime0 site) of
           None \<Rightarrow> (False, runtime0 site, s)
         | Some rt \<Rightarrow>
             (case map_pools rt s of
                (rt, s) \<Rightarrow>
                  (if rn_workers rt = 0 \<or> rn_slots rt = 0 \<or> rn_bump_pool rt = 0 \<or> rn_queue_data rt = 0 then init_fail rt s
                   else init_routes stat_of site (init_pools rt) s))))"

section \<open>Running\<close>

text \<open>One \<open>pthread_create\<close> after the other, with the answers in the list.\<close>

fun start_workers :: "nat \<Rightarrow> bool list \<Rightarrow> tiny_runtime \<times> run_sys \<Rightarrow> bool \<times> tiny_runtime \<times> run_sys" where
  "start_workers i [] (rt, s) = (True, rt, s)"
| "start_workers i (ok # oks) (rt, s) =
     (if ok then start_workers (i + 1) oks (rt\<lparr>rn_workers_started := i + 1\<rparr>, s)
      else (let rt = rt\<lparr>rn_workers_started := i, rn_stop := True\<rparr> in (False, rt, tiny_runtime_notify rt s)))"

text \<open>The values of \<open>status\<close> one worker shows; \<open>None\<close> when it never says more than 0.\<close>

fun await_worker :: "int list \<Rightarrow> bool option" where
  "await_worker [] = None"
| "await_worker (st # sts) = (if st = 1 then Some True else if st < 0 then Some False else await_worker sts)"

fun await_workers :: "int list list \<Rightarrow> tiny_runtime \<times> run_sys \<Rightarrow> bool option \<times> tiny_runtime \<times> run_sys" where
  "await_workers [] (rt, s) = (Some True, rt, s)"
| "await_workers (sts # rest) (rt, s) =
     (case await_worker sts of
        None \<Rightarrow> (None, rt, s)
      | Some True \<Rightarrow> await_workers rest (rt, s)
      | Some False \<Rightarrow> (let rt = rt\<lparr>rn_stop := True\<rparr> in (Some False, rt, tiny_runtime_notify rt s)))"

text \<open>
  \<open>tiny_run\<close> up to the accept loop: \<open>Some False\<close> is the return value 1. There is an answer and a list
  of states for each of the \<open>TINY_WORKERS\<close> threads.
\<close>

definition tiny_run_start ::
  "bool list \<Rightarrow> int list list \<Rightarrow> tiny_runtime \<times> run_sys \<Rightarrow> bool option \<times> tiny_runtime \<times> run_sys" where
  "tiny_run_start creates statuses = (\<lambda>(rt, s).
     (case start_workers 0 creates (rt, s) of
        (False, rt, s) \<Rightarrow> (Some False, rt, s)
      | (True, rt, s) \<Rightarrow> await_workers statuses (rt, s)))"

text \<open>
  The peer of a connection as \<open>accept4\<close> reports it: the bytes of the address, in network order, and
  the port, as a number. \<open>memcpy\<close> into a \<open>uint64_t\<close> puts the first byte lowest, as on every target
  the server is built for.
\<close>

datatype sockaddr = In4 "byte list" u16 | In6 "byte list" u16 | Other_Family

definition le_word :: "byte list \<Rightarrow> u64" where
  "le_word bs = foldr (\<lambda>b w. push_bit 8 w OR ucast b) bs 0"

definition accepted_connection :: "u64 \<Rightarrow> int \<Rightarrow> sockaddr \<Rightarrow> connection" where
  "accepted_connection accept_time cd ca =
     (let (ip0, ip1, port, flags) =
        (case ca of
           In4 a port \<Rightarrow> (le_word (take 4 a), 0, port, 1)
         | In6 a port \<Rightarrow> (le_word (take 8 a), le_word (take 8 (drop 8 a)), port, 2)
         | Other_Family \<Rightarrow> (0, 0, 0, 0))
      in \<lparr>c_accept_time = accept_time, c_ip0 = ip0, c_ip1 = ip1, c_fd = cd, c_port = port, c_flags = flags, c_ready = 0\<rparr>)"

datatype accept_answer = Accepted int sockaddr u64 | Accept_Intr | Accept_Err

text \<open>One turn of the accept loop; the third field of \<open>Accepted\<close> is the clock.\<close>

definition accept_turn :: "accept_answer \<Rightarrow> tiny_runtime \<times> run_sys \<Rightarrow> tiny_runtime \<times> run_sys" where
  "accept_turn a = (\<lambda>(rt, s).
     (let rt = (if rn_stats_pending rt then rt\<lparr>rn_stats_pending := False\<rparr> else rt) in
      case a of
        Accept_Intr \<Rightarrow> (rt, s)
      | Accept_Err \<Rightarrow> (rt, s)
      | Accepted cd ca accept_time \<Rightarrow>
          (let s = s\<lparr>sy_opened := sy_opened s @ [cd]\<rparr> in
           case enqueue_connection (rn_queue rt) (accepted_connection accept_time cd ca) of
             (False, q, closed) \<Rightarrow> (rt\<lparr>rn_queue := q\<rparr>, s\<lparr>sy_closed := sy_closed s @ closed\<rparr>)
           | (True, q, closed) \<Rightarrow>
               (let rt = rt\<lparr>rn_queue := q\<rparr> in (rt, tiny_runtime_notify rt (s\<lparr>sy_closed := sy_closed s @ closed\<rparr>))))))"

section \<open>The whole server\<close>

text \<open>
  \<open>main\<close>: \<open>load\<close> is the result of reading the site file, \<open>log_ok\<close> whether the logger started. The
  result is the exit code and what is left of the process; \<open>None\<close> stands for a server that runs on,
  with the runtime it runs in: its accept loop ends only when a worker fails to start. The logger is
  left out.
\<close>

definition tiny_main ::
  "struct_sizes \<Rightarrow> (byte list \<Rightarrow> file_kind option) \<Rightarrow> nat \<Rightarrow> site_error + tiny_site \<Rightarrow> bool \<Rightarrow> bool list \<Rightarrow> int list list
    \<Rightarrow> run_sys \<Rightarrow> int option \<times> run_sys" where
  "tiny_main so stat_of argc load log_ok creates statuses s =
     (if argc \<noteq> 2 then (Some 1, s)
      else
        (case load of
           Inl _ \<Rightarrow> (Some 1, s)
         | Inr site \<Rightarrow>
             (if \<not> log_ok then (Some 1, s)
              else
                (case tiny_runtime_init so stat_of site s of
                   (False, rt, s) \<Rightarrow> (Some 1, s)
                 | (True, rt, s) \<Rightarrow>
                     (case tiny_run_start creates statuses (rt, s) of
                        (Some False, rt, s) \<Rightarrow> (case tiny_runtime_destroy rt s of (rt, s) \<Rightarrow> (Some 1, s))
                      | (_, rt, s) \<Rightarrow> (None, s))))))"

end
