(* ===== verification/Runtime_Facts.thy ===== *)
theory Runtime_Facts
  imports Runtime
begin

text \<open>
  What start and end of the server guarantee: nothing leaks, the workers begin with empty slots and
  arenas of their own, and every accepted connection is queued or closed.
\<close>

section \<open>Nothing leaks\<close>

text \<open>What a runtime owns: its pools, with their sizes, and two descriptors.\<close>

definition owned_pools :: "tiny_runtime \<Rightarrow> (u64 \<times> u64) list" where
  "owned_pools rt = filter (\<lambda>(p, _). p \<noteq> 0)
     [(rn_workers rt, rn_workers_bytes rt), (rn_slots rt, rn_slots_bytes rt),
      (rn_bump_pool rt, rn_bump_bytes rt), (rn_queue_data rt, rn_queue_bytes rt)]"

definition owned_fds :: "tiny_runtime \<Rightarrow> int list" where
  "owned_fds rt = filter (\<lambda>fd. fd \<ge> 0) [rn_listen_fd rt, rn_wake_fd rt]"

definition accounted :: "tiny_runtime \<Rightarrow> run_sys \<Rightarrow> bool" where
  "accounted rt s = (mset (sy_mapped s) = mset (sy_unmapped s) + mset (owned_pools rt)
     \<and> mset (sy_opened s) = mset (sy_closed s) + mset (owned_fds rt) \<and> fds_balanced (sy_routes s))"

definition released :: "run_sys \<Rightarrow> bool" where
  "released s = (mset (sy_mapped s) = mset (sy_unmapped s) \<and> mset (sy_opened s) = mset (sy_closed s)
     \<and> mset (rt_opened (sy_routes s)) = mset (rt_closed (sy_routes s)) \<and> owned (sy_routes s) = [])"

definition pools_sized :: "tiny_runtime \<Rightarrow> bool" where
  "pools_sized rt = (rn_workers_bytes rt \<noteq> 0 \<and> rn_slots_bytes rt \<noteq> 0 \<and> rn_bump_bytes rt \<noteq> 0 \<and> rn_queue_bytes rt \<noteq> 0)"

text \<open>Each system call changes its log only.\<close>

definition pool_log :: "u64 \<Rightarrow> u64 \<Rightarrow> (u64 \<times> u64) multiset" where
  "pool_log p sz = (if p \<noteq> 0 then {#(p, sz)#} else {#})"

lemma mset_owned_pools: "mset (owned_pools rt) = pool_log (rn_workers rt) (rn_workers_bytes rt)
   + pool_log (rn_slots rt) (rn_slots_bytes rt) + pool_log (rn_bump_pool rt) (rn_bump_bytes rt)
   + pool_log (rn_queue_data rt) (rn_queue_bytes rt)"
  by (simp add: owned_pools_def pool_log_def)

lemma munmap_fields [simp]:
  "sy_mapped (munmap_pool p sz s) = sy_mapped s" "sy_opened (munmap_pool p sz s) = sy_opened s"
  "sy_closed (munmap_pool p sz s) = sy_closed s" "sy_routes (munmap_pool p sz s) = sy_routes s"
  by (simp_all add: munmap_pool_def)

lemma munmap_log: "sz \<noteq> 0 \<Longrightarrow> mset (sy_unmapped (munmap_pool p sz s)) = mset (sy_unmapped s) + pool_log p sz"
  by (simp add: munmap_pool_def pool_log_def)

lemma notify_fields [simp]:
  "sy_mapped (tiny_runtime_notify rt s) = sy_mapped s" "sy_opened (tiny_runtime_notify rt s) = sy_opened s"
  "sy_unmapped (tiny_runtime_notify rt s) = sy_unmapped s"
  "sy_closed (tiny_runtime_notify rt s) = sy_closed s" "sy_routes (tiny_runtime_notify rt s) = sy_routes s"
  by (simp_all add: tiny_runtime_notify_def)

lemma close_fd_fields [simp]:
  "sy_mapped (close_fd fd s) = sy_mapped s" "sy_opened (close_fd fd s) = sy_opened s"
  "sy_unmapped (close_fd fd s) = sy_unmapped s"
  "sy_closed (close_fd fd s) = sy_closed s @ [fd]" "sy_routes (close_fd fd s) = sy_routes s"
  by (simp_all add: close_fd_def)

lemma mmap_log:
  assumes "mmap_pool sz s = (p, s')"
  shows "mset (sy_mapped s') = mset (sy_mapped s) + pool_log p sz \<and> sy_unmapped s' = sy_unmapped s
    \<and> sy_opened s' = sy_opened s \<and> sy_closed s' = sy_closed s \<and> sy_routes s' = sy_routes s"
  using assms by (auto simp: mmap_pool_def pool_log_def split: list.splits)

lemma destroy_releases:
  assumes "accounted rt s" and "pools_sized rt"
  shows "released (snd (tiny_runtime_destroy rt s)) \<and> owned_pools (fst (tiny_runtime_destroy rt s)) = []
    \<and> owned_fds (fst (tiny_runtime_destroy rt s)) = []"
proof -
  have "fds_balanced (routes_shutdown (sy_routes s)) \<and> owned (routes_shutdown (sy_routes s)) = []"
    using routes_shutdown_balanced assms by (simp add: accounted_def)
  then show ?thesis using assms
    by (simp add: tiny_runtime_destroy_def Let_def accounted_def released_def pools_sized_def munmap_log
        fds_balanced_def mset_owned_pools)
      (auto simp: owned_pools_def owned_fds_def)
qed

lemma size_mul_nonzero:
  assumes "tiny_size_mul a b = Some c" and "a \<noteq> 0" and "b \<noteq> 0"
  shows "c \<noteq> 0"
proof -
  have "unat c = unat a * unat b" using tiny_size_mul_exact [of a b c] assms(1) by simp
  moreover have "0 < unat a" "0 < unat b" using assms by (simp_all add: unat_gt_0)
  ultimately show ?thesis by (metis mult_eq_0_iff not_gr_zero unat_0)
qed

lemma pool_sizes_sized:
  assumes "pool_sizes so rt = Some rt'" and "so_worker so \<noteq> 0" "so_slot so \<noteq> 0" "so_connection so \<noteq> 0"
  shows "pools_sized rt'"
proof -
  have "tiny_size_mul (of_nat TINY_WORKERS) (of_nat TINY_CONNS_PER_WORKER) = Some 768"
    by (simp add: tiny_size_mul_def TINY_WORKERS_def TINY_CONNS_PER_WORKER_def)
  then show ?thesis using assms
    by (auto simp: pool_sizes_def pools_sized_def TINY_WORKERS_def TINY_BUMP_SIZE_def TINY_QUEUE_SIZE_def
        dest: size_mul_nonzero split: option.splits)
qed

lemma pool_sizes_keeps:
  "pool_sizes so rt = Some rt' \<Longrightarrow> rn_listen_fd rt' = rn_listen_fd rt \<and> rn_wake_fd rt' = rn_wake_fd rt"
  by (auto simp: pool_sizes_def split: option.splits)

lemma map_pools_accounted:
  assumes run: "map_pools rt s = (rt', s')" and "released s" "fds_balanced (sy_routes s)"
    and "rn_listen_fd rt = - 1" "rn_wake_fd rt = - 1" "pools_sized rt"
  shows "accounted rt' s' \<and> pools_sized rt' \<and> rn_listen_fd rt' = - 1 \<and> rn_wake_fd rt' = - 1"
proof -
  obtain p1 s1 where 1: "mmap_pool (rn_workers_bytes rt) s = (p1, s1)" by fastforce
  obtain p2 s2 where 2: "mmap_pool (rn_slots_bytes rt) s1 = (p2, s2)" by fastforce
  obtain p3 s3 where 3: "mmap_pool (rn_bump_bytes rt) s2 = (p3, s3)" by fastforce
  obtain p4 s4 where 4: "mmap_pool (rn_queue_bytes rt) s3 = (p4, s4)" by fastforce
  have "rt' = rt\<lparr>rn_workers := p1, rn_slots := p2, rn_bump_pool := p3, rn_queue_data := p4\<rparr>" "s' = s4"
    using run by (simp_all add: map_pools_def 1 2 3 4)
  with mmap_log [OF 1] mmap_log [OF 2] mmap_log [OF 3] mmap_log [OF 4] assms(2-) show ?thesis
    by (simp add: accounted_def released_def mset_owned_pools owned_fds_def pools_sized_def)
qed

lemma init_pools_fields: "owned_pools (init_pools rt) = owned_pools rt" "owned_fds (init_pools rt) = owned_fds rt"
  "pools_sized (init_pools rt) = pools_sized rt" "rn_listen_fd (init_pools rt) = rn_listen_fd rt"
  by (simp_all add: init_pools_def owned_pools_def owned_fds_def pools_sized_def)

lemma init_fail_releases:
  assumes "init_fail rt s = (ok, rt', s')" and "accounted rt s" and "pools_sized rt"
  shows "\<not> ok \<and> released s'"
  using assms(1) destroy_releases [OF assms(2,3)] by (auto simp: init_fail_def split: prod.splits)

lemma open_listener_accounted:
  assumes run: "open_listener rt s = (ok, rt', s')" and "accounted rt s" "rn_listen_fd rt = - 1" "pools_sized rt"
  shows "accounted rt' s' \<and> pools_sized rt'"
  using assms
  by (auto simp: open_listener_def Let_def accounted_def owned_fds_def mset_owned_pools pools_sized_def split: if_splits)

lemma init_sockets_accounted:
  assumes run: "init_sockets rt s = (ok, rt', s')" and acc: "accounted rt s" "pools_sized rt"
    and fds: "rn_listen_fd rt = - 1" "rn_wake_fd rt = - 1"
  shows "if ok then accounted rt' s' \<and> pools_sized rt' else released s'"
proof -
  let ?rt = "rt\<lparr>rn_wake_fd := sy_eventfd s\<rparr>" and ?s = "s\<lparr>sy_opened := sy_opened s @ [sy_eventfd s]\<rparr>"
  have sized: "pools_sized ?rt" using acc by (simp add: pools_sized_def)
  show ?thesis
  proof (cases "sy_eventfd s < 0")
    case True
    then have "init_fail ?rt s = (ok, rt', s')" using run by (simp add: init_sockets_def Let_def)
    moreover have "accounted ?rt s" using acc fds True by (simp add: accounted_def mset_owned_pools owned_fds_def)
    ultimately show ?thesis using init_fail_releases [of ?rt s ok rt' s'] sized by simp
  next
    case False
    obtain up rt1 s1 where listener: "open_listener ?rt ?s = (up, rt1, s1)" by (cases "open_listener ?rt ?s")
    have "accounted ?rt ?s" using acc fds False by (simp add: accounted_def mset_owned_pools owned_fds_def)
    then have acc1: "accounted rt1 s1 \<and> pools_sized rt1"
      by (rule open_listener_accounted [OF listener]) (use fds sized in simp_all)
    have "(if up then (True, rt1, s1) else init_fail rt1 s1) = (ok, rt', s')"
      using run False listener by (simp add: init_sockets_def Let_def split: bool.splits)
    then show ?thesis using acc1 init_fail_releases [of rt1 s1 ok rt' s'] by (cases up) auto
  qed
qed

lemma init_routes_accounted:
  assumes run: "init_routes stat_of site rt s = (ok, rt', s')" and acc: "accounted rt s" "pools_sized rt"
    and fds: "rn_listen_fd rt = - 1" "rn_wake_fd rt = - 1"
  shows "if ok then accounted rt' s' \<and> pools_sized rt' else released s'"
proof -
  let ?s = "s\<lparr>sy_policy := \<lparr>allow_dotfiles = TINY_ALLOW_DOTFILES, allow_symlinks = TINY_ALLOW_SYMLINKS\<rparr>\<rparr>"
  obtain R st where routes: "routes_init stat_of (Some site) (sy_routes s) = (R, st)" by fastforce
  have "fds_balanced st" using routes_init_balanced [OF _ routes] acc by (simp add: accounted_def)
  then have acc': "accounted rt (?s\<lparr>sy_routes := st\<rparr>)" using acc by (simp add: accounted_def)
  show ?thesis
  proof (cases R)
    case (Inl err)
    with run routes have "init_fail rt (?s\<lparr>sy_routes := st\<rparr>) = (ok, rt', s')" by (simp add: init_routes_def Let_def)
    from init_fail_releases [OF this acc' acc(2)] show ?thesis by simp
  next
    case (Inr u)
    let ?rt = "rt\<lparr>rn_root := (if routes_docroot st \<noteq> [] then routes_docroot st else bytes ''(none)'')\<rparr>"
    from Inr run routes have "init_sockets ?rt (?s\<lparr>sy_routes := st\<rparr>) = (ok, rt', s')" by (simp add: init_routes_def Let_def)
    then show ?thesis
      by (rule init_sockets_accounted) (use acc acc' fds in \<open>simp_all add: accounted_def mset_owned_pools owned_fds_def pools_sized_def\<close>)
  qed
qed

lemma init_accounted:
  assumes run: "tiny_runtime_init so stat_of site s = (ok, rt', s')"
    and s: "released s" "fds_balanced (sy_routes s)"
    and so: "so_worker so \<noteq> 0" "so_slot so \<noteq> 0" "so_connection so \<noteq> 0"
  shows "if ok then accounted rt' s' \<and> pools_sized rt' else released s'"
proof (cases "check_nofile s")
  case True
  note limit = True
  show ?thesis
  proof (cases "pool_sizes so (runtime0 site)")
    case None
    then show ?thesis using run s limit by (simp add: tiny_runtime_init_def)
  next
    case (Some rt1)
    obtain rt2 s2 where maps: "map_pools rt1 s = (rt2, s2)" by fastforce
    have acc: "accounted rt2 s2 \<and> pools_sized rt2 \<and> rn_listen_fd rt2 = - 1 \<and> rn_wake_fd rt2 = - 1"
      by (rule map_pools_accounted [OF maps s])
        (use pool_sizes_sized [OF Some so] pool_sizes_keeps [OF Some] in \<open>simp_all add: runtime0_def\<close>)
    have step: "(if rn_workers rt2 = 0 \<or> rn_slots rt2 = 0 \<or> rn_bump_pool rt2 = 0 \<or> rn_queue_data rt2 = 0 then init_fail rt2 s2
        else init_routes stat_of site (init_pools rt2) s2) = (ok, rt', s')"
      using run limit Some maps by (simp add: tiny_runtime_init_def)
    have pools: "accounted (init_pools rt2) s2" "rn_wake_fd (init_pools rt2) = - 1"
      using acc by (simp_all add: accounted_def init_pools_fields) (simp add: init_pools_def)
    show ?thesis
    proof (cases "rn_workers rt2 = 0 \<or> rn_slots rt2 = 0 \<or> rn_bump_pool rt2 = 0 \<or> rn_queue_data rt2 = 0")
      case True
      with step have "init_fail rt2 s2 = (ok, rt', s')" by simp
      from init_fail_releases [OF this] acc show ?thesis by simp
    next
      case False
      with step have "init_routes stat_of site (init_pools rt2) s2 = (ok, rt', s')" by simp
      then show ?thesis
        by (rule init_routes_accounted) (use acc pools in \<open>simp_all add: init_pools_fields\<close>)
    qed
  qed
qed (use run s in \<open>simp add: tiny_runtime_init_def\<close>)

lemma start_workers_accounted:
  "start_workers i oks (rt, s) = (ok, rt', s') \<Longrightarrow> accounted rt s \<Longrightarrow> pools_sized rt \<Longrightarrow>
    accounted rt' s' \<and> pools_sized rt' \<and> (rn_workers rt' = rn_workers rt)
    \<and> sy_joined s' = sy_joined s \<and> (rn_workers_started rt = i \<longrightarrow> rn_workers_started rt' = i + length (takeWhile id oks))"
  by (induction i oks "(rt, s)" arbitrary: rt s rule: start_workers.induct)
    (auto simp: Let_def accounted_def mset_owned_pools owned_fds_def pools_sized_def tiny_runtime_notify_def split: if_splits)

lemma await_workers_accounted:
  "await_workers stss (rt, s) = (r, rt', s') \<Longrightarrow> accounted rt s \<Longrightarrow> pools_sized rt \<Longrightarrow>
    accounted rt' s' \<and> pools_sized rt' \<and> rn_workers rt' = rn_workers rt \<and> sy_joined s' = sy_joined s
    \<and> rn_workers_started rt' = rn_workers_started rt"
  by (induction stss "(rt, s)" arbitrary: rt s rule: await_workers.induct)
    (auto simp: Let_def accounted_def mset_owned_pools owned_fds_def pools_sized_def tiny_runtime_notify_def
      split: option.splits bool.splits if_splits)

lemma init_ok_fields:
  assumes run: "tiny_runtime_init so stat_of site s = (True, rt', s')"
  shows "rn_workers rt' \<noteq> 0 \<and> rn_workers_started rt' = 0"
  using assms
  by (auto simp: tiny_runtime_init_def init_routes_def init_sockets_def init_fail_def open_listener_def map_pools_def
      init_pools_def pool_sizes_def runtime0_def Let_def split: if_splits option.splits prod.splits sum.splits bool.splits)

lemma destroy_joins:
  "sy_joined (snd (tiny_runtime_destroy rt s)) =
    sy_joined s + (if rn_workers rt \<noteq> 0 then rn_workers_started rt else 0)"
proof -
  have "sy_joined (munmap_pool p sz s) = sy_joined s" "sy_joined (close_fd fd s) = sy_joined s"
    "sy_joined (tiny_runtime_notify rt s) = sy_joined s" for p sz fd rt s
    by (simp_all add: munmap_pool_def close_fd_def tiny_runtime_notify_def)
  then show ?thesis by (simp add: tiny_runtime_destroy_def Let_def)
qed

text \<open>
  C38. The start of the server leaks nothing, whichever step fails and however: when
  \<open>tiny_runtime_init\<close> returns -1, every mapping it made is unmapped and every descriptor it opened is
  closed, once each, those of the routes included. When it succeeds, \<open>tiny_runtime_destroy\<close> does so
  after \<open>tiny_run\<close> has started some or all of the workers, and joins exactly those that were started.
\<close>

theorem runtime_gives_back:
  assumes init: "tiny_runtime_init so stat_of site s = (ok, rt1, s1)"
    and start: "tiny_run_start creates statuses (rt1, s1) = (r, rt2, s2)"
    and fresh: "released s" "fds_balanced (sy_routes s)"
    and so: "so_worker so \<noteq> 0" "so_slot so \<noteq> 0" "so_connection so \<noteq> 0"
  shows "if ok then released (snd (tiny_runtime_destroy rt2 s2))
      \<and> sy_joined (snd (tiny_runtime_destroy rt2 s2)) = sy_joined s1 + length (takeWhile id creates)
    else released s1"
proof (cases ok)
  case True
  then have acc: "accounted rt1 s1" "pools_sized rt1" using init_accounted [OF init fresh so] by simp_all
  have fields: "rn_workers rt1 \<noteq> 0" "rn_workers_started rt1 = 0"
    using init_ok_fields [of so stat_of site s rt1 s1] init True by simp_all
  obtain up rt s0 where spawn: "start_workers 0 creates (rt1, s1) = (up, rt, s0)" by (cases "start_workers 0 creates (rt1, s1)")
  note sp = start_workers_accounted [OF spawn acc]
  have "accounted rt2 s2 \<and> pools_sized rt2 \<and> rn_workers rt2 = rn_workers rt \<and> sy_joined s2 = sy_joined s0
    \<and> rn_workers_started rt2 = rn_workers_started rt"
  proof (cases up)
    case True
    then have "await_workers statuses (rt, s0) = (r, rt2, s2)" using start spawn by (simp add: tiny_run_start_def)
    then show ?thesis by (rule await_workers_accounted) (use sp in simp_all)
  next
    case False
    then show ?thesis using start spawn sp by (simp add: tiny_run_start_def)
  qed
  with destroy_releases [of rt2 s2] sp fields True show ?thesis by (simp add: destroy_joins)
qed (use init_accounted [OF init fresh so] in simp)

text \<open>The first page of the address space is not mapped; a process that owns nothing.\<close>

definition sample_sizes :: struct_sizes where
  "sample_sizes = \<lparr>so_worker = 128, so_slot = 40960, so_connection = 40\<rparr>"

definition sample_sys :: run_sys where
  "sample_sys = \<lparr>sy_limit = Some (4096, 1048576), sy_setlimit = True, sy_maps = [0x10000, 0x100000, 0x4000000, 0x8000000],
     sy_eventfd = 3, sy_socket = (\<lambda>_. 4), sy_pton = (\<lambda>_ _. True), sy_bind = True, sy_listen = True, sy_mapped = [], sy_unmapped = [],
     sy_opened = [], sy_closed = [], sy_wakes = 0, sy_joined = 0,
     sy_policy = \<lparr>allow_dotfiles = False, allow_symlinks = False\<rparr>, sy_routes = sample_routes_state [7, 8]\<rparr>"

lemma sample_routes_init:
  "\<exists>st. routes_init (\<lambda>_. Some Directory) (Some sample_site) (sample_routes_state [7, 8]) = (Inr (), st)"
  by (simp add: routes_init_def routes_shutdown_def static_shutdown_def install_route_def install_entry_def
      install_dir_def static_init_def do_open_def sample_routes_state_def sample_site_def sample_route_def
      dir_fds_def ensure_dir_slash_def tiny_route0_def bytes_def Let_def TINY_PREFIX_MAX_def evals)

lemma sample_sizes_fit: "\<exists>rt. pool_sizes sample_sizes (runtime0 sample_site) = Some rt \<and> rn_workers_bytes rt = 768
  \<and> rn_slots_bytes rt = 31457280 \<and> rn_bump_bytes rt = 9437184 \<and> rn_queue_bytes rt = 40960"
  by (simp add: pool_sizes_def sample_sizes_def tiny_size_mul_def TINY_WORKERS_def TINY_CONNS_PER_WORKER_def
      TINY_BUMP_SIZE_def TINY_QUEUE_SIZE_def)

lemma sample_init: "\<exists>rt s. tiny_runtime_init sample_sizes (\<lambda>_. Some Directory) sample_site sample_sys = (True, rt, s)
  \<and> sy_mapped s = [(0x10000, 768), (0x100000, 31457280), (0x4000000, 9437184), (0x8000000, 40960)] \<and> sy_joined s = 0"
proof -
  from sample_sizes_fit obtain rt where rt: "pool_sizes sample_sizes (runtime0 sample_site) = Some rt"
    "rn_workers_bytes rt = 768" "rn_slots_bytes rt = 31457280" "rn_bump_bytes rt = 9437184" "rn_queue_bytes rt = 40960" by blast
  from sample_routes_init obtain st where
    st: "routes_init (\<lambda>_. Some Directory) (Some sample_site) (sample_routes_state [7, 8]) = (Inr (), st)" by blast
  have "check_nofile sample_sys" by (simp add: check_nofile_def sample_sys_def nofile_need_def TINY_WORKERS_def
        TINY_CONNS_PER_WORKER_def TINY_QUEUE_SIZE_def)
  with rt st show ?thesis
    by (simp add: tiny_runtime_init_def map_pools_def mmap_pool_def init_routes_def init_sockets_def open_listener_def
        init_pools_def sample_sys_def Let_def)
qed

lemma runtime_gives_back_witness:
  "\<exists>rt1 s1 rt2 s2. tiny_runtime_init sample_sizes (\<lambda>_. Some Directory) sample_site sample_sys = (True, rt1, s1)
    \<and> tiny_run_start [True, True, False] [] (rt1, s1) = (Some False, rt2, s2)
    \<and> released (snd (tiny_runtime_destroy rt2 s2)) \<and> sy_joined (snd (tiny_runtime_destroy rt2 s2)) = 2"
proof -
  from sample_init obtain rt1 s1 where
    init: "tiny_runtime_init sample_sizes (\<lambda>_. Some Directory) sample_site sample_sys = (True, rt1, s1)" "sy_joined s1 = 0"
    by blast
  obtain rt2 s2 where start: "tiny_run_start [True, True, False] [] (rt1, s1) = (Some False, rt2, s2)"
    by (simp add: tiny_run_start_def Let_def)
  have "released sample_sys" "fds_balanced (sy_routes sample_sys)"
    "so_worker sample_sizes \<noteq> 0" "so_slot sample_sizes \<noteq> 0" "so_connection sample_sizes \<noteq> 0"
    by (simp_all add: released_def sample_sys_def sample_routes_state_def owned_def dir_fds_def fds_balanced_def sample_sizes_def)
  from runtime_gives_back [OF init(1) start this] init start show ?thesis by auto
qed

section \<open>What the workers start from\<close>

lemma init_ok_state:
  assumes "tiny_runtime_init so stat_of site s = (True, rt, s')"
  shows "rn_slot_pool rt = map (init_slot (rn_bump_pool rt)) [0..<TINY_WORKERS * TINY_CONNS_PER_WORKER]
    \<and> rn_queue rt = queue_init (of_nat TINY_QUEUE_SIZE) \<and> rn_bump_pool rt \<noteq> 0
    \<and> tiny_size_mul 768 (of_nat TINY_BUMP_SIZE) = Some (rn_bump_bytes rt)"
proof -
  have "tiny_size_mul (of_nat TINY_WORKERS) (of_nat TINY_CONNS_PER_WORKER) = Some 768"
    by (simp add: tiny_size_mul_def TINY_WORKERS_def TINY_CONNS_PER_WORKER_def)
  then show ?thesis using assms
    by (auto simp: tiny_runtime_init_def init_routes_def init_sockets_def init_fail_def open_listener_def map_pools_def
        init_pools_def pool_sizes_def runtime0_def Let_def split: if_splits option.splits prod.splits sum.splits bool.splits)
qed

text \<open>The addresses an arena may hand out.\<close>

definition arena_range :: "tiny_slot \<Rightarrow> nat set" where
  "arena_range sl = {unat (bp_mem (hc_arena (sl_hc sl)))..<unat (bp_mem (hc_arena (sl_hc sl))) + unat (bp_size (hc_arena (sl_hc sl)))}"

lemma init_slot_range:
  assumes "unat pool + n * TINY_BUMP_SIZE \<le> 2 ^ 64" and "i < n" and "0 < unat pool"
  shows "arena_range (init_slot pool i) = {unat pool + i * TINY_BUMP_SIZE..<unat pool + (i + 1) * TINY_BUMP_SIZE}"
proof -
  have size: "TINY_BUMP_SIZE = 12288" by (simp add: TINY_BUMP_SIZE_def)
  have lt: "unat pool + i * TINY_BUMP_SIZE < 2 ^ 64" using assms by (simp add: size)
  have "pool + of_nat i * of_nat TINY_BUMP_SIZE = (of_nat (unat pool + i * TINY_BUMP_SIZE) :: u64)" by simp
  also have "unat \<dots> = unat pool + i * TINY_BUMP_SIZE"
    using lt unfolding unat_of_nat by (simp only: len_num0 len_num1 len_bit0 len_bit1) simp
  finally have "unat (pool + of_nat i * of_nat TINY_BUMP_SIZE) = unat pool + i * TINY_BUMP_SIZE" .
  moreover have "unat pool + (i + 1) * TINY_BUMP_SIZE = unat pool + i * TINY_BUMP_SIZE + TINY_BUMP_SIZE" by simp
  moreover have "unat (of_nat TINY_BUMP_SIZE :: u64) = TINY_BUMP_SIZE" by (simp add: size)
  moreover have "bp_mem (hc_arena (sl_hc (init_slot pool i))) = pool + of_nat i * of_nat TINY_BUMP_SIZE"
    "bp_size (hc_arena (sl_hc (init_slot pool i))) = of_nat TINY_BUMP_SIZE"
    by (simp_all add: init_slot_def bump_bind_def)
  ultimately show ?thesis by (simp only: arena_range_def)
qed

text \<open>
  C39. The state a successful \<open>tiny_runtime_init\<close> leaves is the one the other components start from:
  the queue is empty and well formed; each worker has its own \<open>TINY_CONNS_PER_WORKER\<close> slots, unused,
  without a client, an upstream or a file; and the arenas of all slots of all workers are
  \<open>TINY_BUMP_SIZE\<close> bytes each, inside the mapped pool, and pairwise disjoint, so that no two requests
  share memory. (\<open>mmap\<close> is relied on not to hand out a region that wraps around.)
\<close>

theorem runtime_start_state:
  assumes init: "tiny_runtime_init so stat_of site s = (True, rt, s')"
    and fresh: "released s" "fds_balanced (sy_routes s)"
    and so: "so_worker so \<noteq> 0" "so_slot so \<noteq> 0" "so_connection so \<noteq> 0"
    and maps: "\<forall>(p, sz) \<in> set (sy_mapped s'). unat p + unat sz \<le> 2 ^ 64"
  shows "queue_ok (rn_queue rt) \<and> queue_items (rn_queue rt) = []
    \<and> (\<forall>i < TINY_WORKERS. length (worker_slots rt i) = TINY_CONNS_PER_WORKER
         \<and> (\<forall>sl \<in> set (worker_slots rt i). \<not> sl_active sl \<and> hc_fd (sl_hc sl) < 0 \<and> px_fd (sl_px sl) < 0 \<and> hc_file_fd (sl_hc sl) < 0))
    \<and> concat (map (worker_slots rt) [0..<TINY_WORKERS]) = rn_slot_pool rt
    \<and> (\<forall>sl \<in> set (rn_slot_pool rt). card (arena_range sl) = TINY_BUMP_SIZE
         \<and> arena_range sl \<subseteq> {unat (rn_bump_pool rt)..<unat (rn_bump_pool rt) + unat (rn_bump_bytes rt)})
    \<and> (\<forall>i j. i < j \<longrightarrow> j < length (rn_slot_pool rt) \<longrightarrow>
         arena_range (rn_slot_pool rt ! i) \<inter> arena_range (rn_slot_pool rt ! j) = {})"
proof -
  note st = init_ok_state [OF init]
  let ?n = "TINY_WORKERS * TINY_CONNS_PER_WORKER" and ?pool = "rn_bump_pool rt"
  have n: "?n = 768" "TINY_WORKERS = 6" "TINY_CONNS_PER_WORKER = 128" "TINY_BUMP_SIZE = 12288"
    by (simp_all add: TINY_WORKERS_def TINY_CONNS_PER_WORKER_def TINY_BUMP_SIZE_def)
  have bytes: "unat (rn_bump_bytes rt) = 768 * 12288"
    using st tiny_size_mul_exact [of 768 "of_nat TINY_BUMP_SIZE" "rn_bump_bytes rt"] by (simp add: n)
  have "accounted rt s'" using init_accounted [OF init fresh so] by simp
  then have "(?pool, rn_bump_bytes rt) \<in># mset (sy_mapped s')"
    using st by (simp add: accounted_def owned_pools_def)
  with maps have fits: "unat ?pool + ?n * TINY_BUMP_SIZE \<le> 2 ^ 64" by (auto simp: bytes n)
  have pos: "0 < unat ?pool" using st by (simp add: unat_gt_0)
  note range = init_slot_range [OF fits _ pos]
  have queue: "queue_ok (rn_queue rt) \<and> queue_items (rn_queue rt) = []"
  proof -
    have "\<exists>k < 32. of_nat TINY_QUEUE_SIZE = (2 ^ k :: u32)" by (rule exI [of _ 10]) (simp add: TINY_QUEUE_SIZE_def)
    from queue_init_ok [OF this] st show ?thesis by simp
  qed
  have len: "length (rn_slot_pool rt) = ?n" using st by simp
  have unused: "\<not> sl_active sl \<and> hc_fd (sl_hc sl) < 0 \<and> px_fd (sl_px sl) < 0 \<and> hc_file_fd (sl_hc sl) < 0"
    if "sl \<in> set (rn_slot_pool rt)" for sl
    using that st by (auto simp: init_slot_def proxy_conn_reset_def)
  have own: "length (worker_slots rt i) = TINY_CONNS_PER_WORKER \<and> set (worker_slots rt i) \<subseteq> set (rn_slot_pool rt)"
    if "i < TINY_WORKERS" for i
    using that len by (auto simp: worker_slots_def n dest: in_set_takeD in_set_dropD)
  have parts: "concat (map (worker_slots rt) [0..<k]) = take (k * TINY_CONNS_PER_WORKER) (rn_slot_pool rt)" for k
    by (induction k) (simp_all add: worker_slots_def take_add [symmetric] add.commute)
  have all: "arena_range sl \<subseteq> {unat ?pool..<unat ?pool + unat (rn_bump_bytes rt)} \<and> card (arena_range sl) = TINY_BUMP_SIZE"
    if "sl \<in> set (rn_slot_pool rt)" for sl
  proof -
    from that st obtain i where i: "i < ?n" "sl = init_slot ?pool i" by auto
    show ?thesis using i(1) unfolding i(2) range [OF i(1)] bytes n by auto
  qed
  have disjoint: "arena_range (rn_slot_pool rt ! i) \<inter> arena_range (rn_slot_pool rt ! j) = {}" if "i < j" "j < length (rn_slot_pool rt)" for i j
  proof -
    have ij: "i < ?n" "j < ?n" using that len by simp_all
    then have "rn_slot_pool rt ! i = init_slot ?pool i" "rn_slot_pool rt ! j = init_slot ?pool j" using st by simp_all
    moreover have "(i + 1) * TINY_BUMP_SIZE \<le> j * TINY_BUMP_SIZE" using that by (intro mult_le_mono1) simp
    ultimately show ?thesis using range [OF ij(1)] range [OF ij(2)] by auto
  qed
  show ?thesis
    using queue own unused all disjoint parts [of TINY_WORKERS] len by auto
qed

lemma runtime_start_state_witness:
  "\<exists>rt s. tiny_runtime_init sample_sizes (\<lambda>_. Some Directory) sample_site sample_sys = (True, rt, s)
    \<and> queue_ok (rn_queue rt) \<and> arena_range (rn_slot_pool rt ! 0) \<inter> arena_range (rn_slot_pool rt ! 767) = {}"
proof -
  from sample_init obtain rt s where
    init: "tiny_runtime_init sample_sizes (\<lambda>_. Some Directory) sample_site sample_sys = (True, rt, s)" and
    mapped: "sy_mapped s = [(0x10000, 768), (0x100000, 31457280), (0x4000000, 9437184), (0x8000000, 40960)]" by blast
  have "released sample_sys" "fds_balanced (sy_routes sample_sys)"
    "so_worker sample_sizes \<noteq> 0" "so_slot sample_sizes \<noteq> 0" "so_connection sample_sizes \<noteq> 0"
    by (simp_all add: released_def sample_sys_def sample_routes_state_def owned_def dir_fds_def fds_balanced_def sample_sizes_def)
  moreover have "\<forall>(p, sz) \<in> set (sy_mapped s). unat p + unat sz \<le> 2 ^ 64" by (simp add: mapped)
  moreover have "length (rn_slot_pool rt) = 768"
    using init_ok_state [OF init] by (simp add: TINY_WORKERS_def TINY_CONNS_PER_WORKER_def)
  ultimately show ?thesis using runtime_start_state [OF init] init by (intro exI [of _ rt] exI [of _ s]) simp
qed

section \<open>Accepting connections\<close>

text \<open>The bytes of a word, lowest first, and the peer a queued connection stands for.\<close>

definition le_bytes :: "nat \<Rightarrow> u64 \<Rightarrow> byte list" where
  "le_bytes n w = map (\<lambda>i. ucast (drop_bit (8 * i) w)) [0..<n]"

definition peer_of :: "conn_info \<Rightarrow> sockaddr" where
  "peer_of c =
     (if c_flags c = 1 then In4 (le_bytes 4 (c_ip0 c)) (c_port c)
      else if c_flags c = 2 then In6 (le_bytes 8 (c_ip0 c) @ le_bytes 8 (c_ip1 c)) (c_port c)
      else Other_Family)"

definition sockaddr_ok :: "sockaddr \<Rightarrow> bool" where
  "sockaddr_ok ca = (case ca of In4 a _ \<Rightarrow> length a = 4 | In6 a _ \<Rightarrow> length a = 16 | Other_Family \<Rightarrow> True)"

lemma le_bytes_le_word: "length bs \<le> 8 \<Longrightarrow> le_bytes (length bs) (le_word bs) = bs"
proof (induction bs)
  case (Cons b bs)
  have "le_bytes (Suc n) (push_bit 8 w OR ucast b) = b # le_bytes n w" if "n < 8" for n and w :: u64
  proof -
    have head: "ucast (push_bit 8 w OR ucast b :: u64) = b" by (rule bit_word_eqI) (auto simp: bit_simps)
    have "ucast (drop_bit (8 * Suc i) (push_bit 8 w OR ucast b :: u64)) = (ucast (drop_bit (8 * i) w) :: byte)" if "i < n" for i
      using that \<open>n < 8\<close> by (intro bit_word_eqI) (auto simp: bit_simps dest: bit_imp_le_length)
    then show ?thesis using head by (simp add: le_bytes_def map_upt_Suc del: upt_Suc)
  qed
  with Cons show ?case by (simp add: le_word_def)
qed (simp add: le_bytes_def)

lemma peer_of_accepted:
  assumes "sockaddr_ok ca"
  shows "peer_of (payload (accepted_connection now cd ca)) = ca \<and> c_fd (payload (accepted_connection now cd ca)) = cd
    \<and> c_accept_time (payload (accepted_connection now cd ca)) = now"
  using assms
proof -
  have "le_bytes 4 (le_word a) = a" if "length a = 4" for a using le_bytes_le_word [of a] that by simp
  moreover have "le_bytes 8 (le_word a) = a" if "length a = 8" for a using le_bytes_le_word [of a] that by simp
  ultimately show ?thesis using assms
    by (cases ca) (simp_all add: accepted_connection_def payload_def conn_info.defs peer_of_def sockaddr_ok_def)
qed

text \<open>
  C40. One turn of the accept loop disposes of the accepted descriptor in exactly one way. When the
  queue has room, the connection joins its end with the descriptor, the time, and the family, address
  and port that \<open>accept4\<close> reported, all of them readable from the stored words, and the workers are
  woken; when it is full, the descriptor is closed and nothing else happens. No other turn touches
  queue or descriptors.
\<close>

theorem accept_turn_disposes:
  assumes queue: "queue_ok (rn_queue rt)" and fd: "0 \<le> cd" "0 \<le> rn_wake_fd rt" and peer: "sockaddr_ok ca"
    and turn: "accept_turn (Accepted cd ca now) (rt, s) = (rt', s')"
  shows "queue_ok (rn_queue rt') \<and> sy_opened s' = sy_opened s @ [cd]
    \<and> (if length (queue_items (rn_queue rt)) < queue_cap (rn_queue rt)
       then \<exists>c. queue_items (rn_queue rt') = queue_items (rn_queue rt) @ [c] \<and> c_fd c = cd \<and> peer_of c = ca
           \<and> c_accept_time c = now \<and> sy_closed s' = sy_closed s \<and> sy_wakes s' = sy_wakes s + 1
       else queue_items (rn_queue rt') = queue_items (rn_queue rt) \<and> sy_closed s' = sy_closed s @ [cd] \<and> sy_wakes s' = sy_wakes s)"
proof -
  let ?c = "accepted_connection now cd ca"
  note info = peer_of_accepted [OF peer, of now cd]
  have fdc: "c_fd ?c = cd" by (cases ca) (simp_all add: accepted_connection_def)
  define rt0 where "rt0 = (if rn_stats_pending rt then rt\<lparr>rn_stats_pending := False\<rparr> else rt)"
  have rt0: "rn_queue rt0 = rn_queue rt" "rn_wake_fd rt0 = rn_wake_fd rt" by (simp_all add: rt0_def)
  note turn' = turn [unfolded accept_turn_def prod.case rt0_def [symmetric]]
  show ?thesis
  proof (cases "queue_size (rn_queue rt) < unat (q_capacity (rn_queue rt))")
    case True
    from enqueue_room [OF queue True, of ?c] obtain q where
      q: "enqueue_connection (rn_queue rt) ?c = (True, q, [])" "queue_ok q" "queue_items q = queue_items (rn_queue rt) @ [payload ?c]"
      by blast
    then have "rt' = rt0\<lparr>rn_queue := q\<rparr>" "s' = s\<lparr>sy_opened := sy_opened s @ [cd], sy_wakes := sy_wakes s + 1\<rparr>"
      using turn' fd rt0 by (auto simp: Let_def tiny_runtime_notify_def)
    with q True info show ?thesis by (auto simp: queue_cap_def)
  next
    case False
    then have "queue_size (rn_queue rt) = unat (q_capacity (rn_queue rt))" using queue by (simp add: queue_ok_def)
    from enqueue_full [OF queue this, of ?c] have "rt' = rt0\<lparr>rn_queue := rn_queue rt\<rparr>"
      "s' = s\<lparr>sy_opened := sy_opened s @ [cd], sy_closed := sy_closed s @ [cd]\<rparr>"
      using turn' fd rt0 fdc by (auto simp: Let_def)
    with False queue show ?thesis by (simp add: queue_cap_def)
  qed
qed

lemma accept_turn_disposes_witness:
  "\<exists>rt s rt' s'. accept_turn (Accepted 9 (In4 [127, 0, 0, 1] 4711) 7) (rt, s) = (rt', s')
    \<and> map peer_of (queue_items (rn_queue rt')) = [In4 [127, 0, 0, 1] 4711] \<and> sy_wakes s' = 1"
proof -
  let ?rt = "(runtime0 sample_site)\<lparr>rn_queue := queue_init 2, rn_wake_fd := 3\<rparr>"
  have "\<exists>k < 32. (2 :: u32) = 2 ^ k" by (rule exI [of _ 1]) simp
  note init = queue_init_ok [OF this]
  obtain rt' s' where turn: "accept_turn (Accepted 9 (In4 [127, 0, 0, 1] 4711) 7) (?rt, sample_sys) = (rt', s')"
    by (cases "accept_turn (Accepted 9 (In4 [127, 0, 0, 1] 4711) 7) (?rt, sample_sys)")
  have "length (queue_items (queue_init 2)) < queue_cap (queue_init 2)"
    using init by (simp add: queue_cap_def) (simp add: queue_init_def)
  with accept_turn_disposes [OF _ _ _ _ turn] init turn show ?thesis
    by (intro exI [of _ ?rt] exI [of _ sample_sys] exI [of _ rt'] exI [of _ s']) (auto simp: sockaddr_ok_def sample_sys_def)
qed

end
