(* ===== verification/Log_Writer.thy ===== *)
theory Log_Writer
  imports Log_Queue
begin

text \<open>
  The life of the logger of \<^verbatim>\<open>src/logger.c\<close>: start, the loop of its thread, and shutdown. What
  \<open>fwrite\<close> has taken and \<open>fflush\<close> has not yet passed on is kept apart (\<^verbatim>\<open>stdio\<close> may write it earlier).
  Calls of \<open>tiny_log\<close> and rounds of the thread come in any order, each as a whole.
\<close>

definition LOG_FLUSH_EVERY :: nat where "LOG_FLUSH_EVERY = 32"

text \<open>\<open>lw_entry\<close> and \<open>lw_since\<close> are the locals \<open>l\<close> and \<open>since_flush\<close> of the thread.\<close>

record log_writer =
  lw_queue :: log_queue
  lw_run :: bool
  lw_started :: bool
  lw_entry :: log_entry
  lw_since :: nat
  lw_pending :: "byte list"
  lw_out :: "byte list"

definition log_fflush :: "log_writer \<Rightarrow> log_writer" where
  "log_fflush w = w\<lparr>lw_out := lw_out w @ lw_pending w, lw_pending := []\<rparr>"

text \<open>The argument says whether \<open>pthread_create\<close> succeeds; the thread starts with cleared locals.\<close>

definition log_init :: "bool \<Rightarrow> log_writer \<Rightarrow> bool \<times> log_writer" where
  "log_init created w =
     (let w = w\<lparr>lw_run := True, lw_started := False\<rparr> in
      if \<not> created then (False, w) else (True, w\<lparr>lw_started := True, lw_entry := log_entry0, lw_since := 0\<rparr>))"

text \<open>One round of \<open>while (logger_run)\<close>.\<close>

definition logger_round :: "log_writer \<Rightarrow> log_writer" where
  "logger_round w =
     (case dequeue_log (lw_queue w) (lw_entry w) of
        Some (True, q, l) \<Rightarrow>
          (let w = w\<lparr>lw_queue := q, lw_entry := l, lw_pending := lw_pending w @ take (unat (le_len l)) (le_message l),
                 lw_since := lw_since w + 1\<rparr>
           in if lw_since w \<ge> LOG_FLUSH_EVERY then (log_fflush w)\<lparr>lw_since := 0\<rparr> else w)
      | _ \<Rightarrow> if lw_since w > 0 then (log_fflush w)\<lparr>lw_since := 0\<rparr> else w)"

text \<open>
  The thread after \<open>logger_run\<close> has become 0, and \<open>log_shutdown\<close>, which waits for it. The last loop
  takes out at most as many entries as the queue can hold.
\<close>

definition logger_end :: "log_writer \<Rightarrow> log_writer" where
  "logger_end w =
     (case logger_drain (unat LOG_QUEUE_SIZE) (lw_queue w) (lw_entry w) of
        (text, q) \<Rightarrow> log_fflush (w\<lparr>lw_queue := q, lw_pending := lw_pending w @ text\<rparr>))"

definition log_shutdown :: "log_writer \<Rightarrow> log_writer" where
  "log_shutdown w = (if \<not> lw_started w then w else (logger_end (w\<lparr>lw_run := False\<rparr>))\<lparr>lw_started := False\<rparr>)"

section \<open>Runs\<close>

text \<open>A call of \<open>tiny_log\<close> with the text \<open>vsnprintf\<close> makes, or a round of the thread.\<close>

datatype log_event = Say log_level "byte list option" | Round

definition log_do :: "log_event \<Rightarrow> log_writer \<Rightarrow> log_writer" where
  "log_do ev w = (case ev of Say level t \<Rightarrow> w\<lparr>lw_queue := tiny_log (lw_queue w) level t\<rparr> | Round \<Rightarrow> logger_round w)"

text \<open>The text a call adds to the output: none when the queue is full, and at most 159 bytes.\<close>

definition log_said :: "log_event \<Rightarrow> log_writer \<Rightarrow> byte list" where
  "log_said ev w =
     (case ev of Say _ (Some t) \<Rightarrow> if log_size (lw_queue w) < 128 then take (LOG_MESSAGE_SIZE - 1) t else [] | _ \<Rightarrow> [])"

fun log_run :: "log_event list \<Rightarrow> log_writer \<Rightarrow> byte list \<times> log_writer" where
  "log_run [] w = ([], w)"
| "log_run (ev # evs) w = (case log_run evs (log_do ev w) of (said, w') \<Rightarrow> (log_said ev w @ said, w'))"

definition writer_ok :: "log_writer \<Rightarrow> bool" where
  "writer_ok w = (log_ok (lw_queue w) \<and> length (le_message (lw_entry w)) = LOG_MESSAGE_SIZE \<and> lw_since w < LOG_FLUSH_EVERY
     \<and> (lw_since w = 0 \<longrightarrow> lw_pending w = []))"

text \<open>All text on its way: written, in the buffer, in the queue.\<close>

definition log_text :: "log_writer \<Rightarrow> byte list" where
  "log_text w = lw_out w @ lw_pending w @ concat (map snd (log_items (lw_queue w)))"

lemma tiny_log_effect:
  assumes "log_ok q"
  shows "log_ok (tiny_log q level t) \<and> concat (map snd (log_items (tiny_log q level t))) = concat (map snd (log_items q)) @
    (case t of Some s \<Rightarrow> if log_size q < 128 then take (LOG_MESSAGE_SIZE - 1) s else [] | None \<Rightarrow> [])"
proof (cases t)
  case (Some s)
  obtain l where l: "log_entry_of level (Some s) = Some l" by (simp add: log_entry_of_def)
  show ?thesis
  proof (cases "log_size q < 128")
    case True
    from enqueue_log_room [OF assms this log_entry_of_ok [OF l]] log_entry_of_value [OF l] Some l True
    show ?thesis by (auto simp: tiny_log_def)
  next
    case False
    then have "enqueue_log q l = (False, q)" using log_full_iff [of q] by (simp add: enqueue_log_def)
    with Some l False assms show ?thesis by (simp add: tiny_log_def)
  qed
qed (use assms in \<open>simp add: tiny_log_def log_entry_of_def\<close>)

lemma logger_round_effect:
  assumes "writer_ok w"
  shows "writer_ok (logger_round w) \<and> log_text (logger_round w) = log_text w \<and> lw_started (logger_round w) = lw_started w
    \<and> (log_items (lw_queue w) = [] \<longrightarrow> lw_pending (logger_round w) = [])"
proof (cases "log_items (lw_queue w)")
  case Nil
  then have "log_size (lw_queue w) = 0" by (metis length_log_items list.size(3))
  then have "lq_tail (lw_queue w) - lq_head (lw_queue w) = 0" by (simp add: log_size_def unat_eq_zero)
  then have "dequeue_log (lw_queue w) (lw_entry w) = Some (False, lw_queue w, lw_entry w)" by (simp add: dequeue_log_def)
  then show ?thesis using assms by (auto simp: logger_round_def writer_ok_def log_text_def log_fflush_def LOG_FLUSH_EVERY_def)
next
  case (Cons v vs)
  have "log_ok (lw_queue w)" "length (le_message (lw_entry w)) = LOG_MESSAGE_SIZE" using assms by (simp_all add: writer_ok_def)
  from dequeue_log_some [OF this(1) Cons this(2)] obtain q l where
    d: "dequeue_log (lw_queue w) (lw_entry w) = Some (True, q, l)" "log_value l = v" "entry_ok l" "log_ok q" "log_items q = vs"
    by blast
  have "take (unat (le_len l)) (le_message l) = snd v" using d(2) by (auto simp: log_value_def)
  with d Cons assms show ?thesis
    by (auto simp: logger_round_def Let_def writer_ok_def log_text_def log_fflush_def entry_ok_def)
qed

lemma log_do_effect:
  assumes "writer_ok w"
  shows "writer_ok (log_do ev w) \<and> log_text (log_do ev w) = log_text w @ log_said ev w \<and> lw_started (log_do ev w) = lw_started w"
proof (cases ev)
  case (Say level t)
  then show ?thesis using tiny_log_effect [of "lw_queue w" level t] assms
    by (simp add: log_do_def log_said_def writer_ok_def log_text_def)
qed (use logger_round_effect [OF assms] in \<open>simp add: log_do_def log_said_def\<close>)

lemma log_run_effect:
  "log_run evs w = (said, w') \<Longrightarrow> writer_ok w \<Longrightarrow> writer_ok w' \<and> log_text w' = log_text w @ said \<and> lw_started w' = lw_started w"
proof (induction evs arbitrary: w said)
  case (Cons ev evs)
  obtain rest where rest: "log_run evs (log_do ev w) = (rest, w')" "said = log_said ev w @ rest"
    using Cons.prems(1) by (auto split: prod.splits)
  from Cons.IH [OF rest(1)] log_do_effect [OF Cons.prems(2), of ev] rest(2) show ?case by simp
qed simp

lemma logger_end_effect:
  assumes "writer_ok w"
  shows "lw_out (logger_end w) = log_text w \<and> lw_pending (logger_end w) = [] \<and> log_items (lw_queue (logger_end w)) = []"
proof -
  have "log_size (lw_queue w) \<le> unat LOG_QUEUE_SIZE" using assms by (simp add: writer_ok_def log_ok_def LOG_QUEUE_SIZE_def)
  with logger_drain_all [of "lw_queue w" "lw_entry w"] assms obtain q where
    "logger_drain (unat LOG_QUEUE_SIZE) (lw_queue w) (lw_entry w) = (concat (map snd (log_items (lw_queue w))), q)" "log_items q = []"
    by (auto simp: writer_ok_def)
  then show ?thesis by (simp add: logger_end_def log_fflush_def log_text_def)
qed

definition log_writer0 :: log_writer where
  "log_writer0 = \<lparr>lw_queue = log_queue0, lw_run = True, lw_started = False, lw_entry = log_entry0, lw_since = 0,
     lw_pending = [], lw_out = []\<rparr>"

text \<open>
  C37. The log is complete. However calls of \<open>tiny_log\<close> and rounds of the logger thread alternate
  after \<open>log_init\<close>: the text flushed, then the text in the buffer, then the text in the queue are
  exactly the accepted messages (the queue was not full; 159 bytes each), in order; a round that
  finds the queue empty leaves nothing in the buffer; and after \<open>log_shutdown\<close> all of it has been flushed.
\<close>

theorem log_complete:
  assumes init: "log_init True log_writer0 = (True, w0)" and run: "log_run evs w0 = (said, w)"
  shows "log_text w = said \<and> lw_out (log_shutdown w) = said \<and> lw_pending (log_shutdown w) = []
    \<and> log_items (lw_queue (log_shutdown w)) = []
    \<and> (log_items (lw_queue w) = [] \<longrightarrow> lw_out (logger_round w) = said)"
proof -
  have w0: "writer_ok w0" "log_text w0 = []" "lw_started w0"
    using init log_queue0_ok by (auto simp: log_init_def Let_def log_writer0_def writer_ok_def log_text_def log_entry0_def LOG_FLUSH_EVERY_def)
  from log_run_effect [OF run w0(1)] w0 have w: "writer_ok w" "log_text w = said" "lw_started w" by simp_all
  have "writer_ok (w\<lparr>lw_run := False\<rparr>)" "log_text (w\<lparr>lw_run := False\<rparr>) = said"
    using w by (simp_all add: writer_ok_def log_text_def)
  from logger_end_effect [OF this(1)] this(2) have
    "lw_out (log_shutdown w) = said \<and> lw_pending (log_shutdown w) = [] \<and> log_items (lw_queue (log_shutdown w)) = []"
    using w(3) by (simp add: log_shutdown_def)
  moreover have "log_items (lw_queue (logger_round w)) = []" if "log_items (lw_queue w) = []"
  proof -
    have "log_size (lw_queue w) = 0" using that by (metis length_log_items list.size(3))
    then have "lq_tail (lw_queue w) - lq_head (lw_queue w) = 0" by (simp add: log_size_def unat_eq_zero)
    then have "dequeue_log (lw_queue w) (lw_entry w) = Some (False, lw_queue w, lw_entry w)" by (simp add: dequeue_log_def)
    then show ?thesis using that by (simp add: logger_round_def log_fflush_def)
  qed
  ultimately show ?thesis using logger_round_effect [OF w(1)] w(2) by (auto simp: log_text_def)
qed

lemma log_complete_witness:
  "\<exists>w0 w. log_init True log_writer0 = (True, w0)
    \<and> log_run [Say INFO (Some [65]), Round, Say ERROR None] w0 = ([65], w) \<and> lw_out (log_shutdown w) = [65]"
proof -
  obtain w0 where init: "log_init True log_writer0 = (True, w0)" "lw_queue w0 = log_queue0"
    by (simp add: log_init_def log_writer0_def)
  have "log_size log_queue0 = 0" using log_queue0_ok(2) by (metis length_log_items list.size(3))
  then obtain w where run: "log_run [Say INFO (Some [65]), Round, Say ERROR None] w0 = ([65], w)"
    using init(2) by (simp add: log_said_def LOG_MESSAGE_SIZE_def split: prod.splits)
  from log_complete [OF init(1) run] init(1) run show ?thesis by blast
qed

end
