(* ===== verification/Stats.thy ===== *)
theory Stats
  imports Tiny_Prelude
begin

text \<open>
  The counters of \<^verbatim>\<open>src/stats.c\<close>, in a build with \<open>TINY_STATS\<close>; without it the calls are empty. Each
  addition is atomic, and the order of additions does not matter, so the model runs one after the other.
\<close>

datatype stat_id = STAT_ACCEPT | STAT_QUEUE_DROP | STAT_CONN_OPEN | STAT_CONN_CLOSE | STAT_RESP_TOTAL | STAT_RESP_2XX
  | STAT_RESP_3XX | STAT_RESP_4XX | STAT_RESP_5XX | STAT_TIMEOUT | STAT_EAGAIN_READ | STAT_EAGAIN_WRITE | STAT_NS_READ
  | STAT_NS_READ_N | STAT_NS_BEGIN | STAT_NS_BEGIN_N | STAT_NS_WRITE_HDR | STAT_NS_WRITE_HDR_N | STAT_NS_SENDFILE
  | STAT_NS_SENDFILE_N | STAT_NS_TOTAL | STAT_NS_TOTAL_N

type_synonym counts = "stat_id \<Rightarrow> u64"

definition stats_init :: counts where "stats_init = (\<lambda>_. 0)"

definition stats_add :: "stat_id \<Rightarrow> u64 \<Rightarrow> counts \<Rightarrow> counts" where
  "stats_add i n g = g(i := g i + n)"

definition stats_note_status :: "u16 \<Rightarrow> counts \<Rightarrow> counts" where
  "stats_note_status code g =
     (let g = stats_add STAT_RESP_TOTAL 1 g in
      if code \<ge> 200 \<and> code < 300 then stats_add STAT_RESP_2XX 1 g
      else if code \<ge> 300 \<and> code < 400 then stats_add STAT_RESP_3XX 1 g
      else if code \<ge> 400 \<and> code < 500 then stats_add STAT_RESP_4XX 1 g
      else if code \<ge> 500 \<and> code < 600 then stats_add STAT_RESP_5XX 1 g
      else g)"

text \<open>\<open>STAT_TIME_END\<close>: the time since \<open>start\<close>, which wraps around with the clock, and one more sample.\<close>

definition stat_time_end :: "stat_id \<Rightarrow> stat_id \<Rightarrow> u64 \<Rightarrow> u64 \<Rightarrow> counts \<Rightarrow> counts" where
  "stat_time_end i n start now g = stats_add n 1 (stats_add i (now - start) g)"

text \<open>The order of two additions does not matter.\<close>

lemma stats_add_commute: "stats_add i n (stats_add j m g) = stats_add j m (stats_add i n g)"
  by (rule ext) (simp add: stats_add_def add.commute add.left_commute)

text \<open>The total is the sum of the four classes when every status noted is from 200 to 599.\<close>

definition class_sum :: "counts \<Rightarrow> u64" where
  "class_sum g = g STAT_RESP_2XX + g STAT_RESP_3XX + g STAT_RESP_4XX + g STAT_RESP_5XX"

lemma note_status_total:
  assumes "200 \<le> code" "code < 600"
  shows "stats_note_status code g STAT_RESP_TOTAL - class_sum (stats_note_status code g) = g STAT_RESP_TOTAL - class_sum g"
proof -
  have "code < 300 \<or> 300 \<le> code \<and> code < 400 \<or> 400 \<le> code \<and> code < 500 \<or> 500 \<le> code" by auto
  then show ?thesis using assms
    by (auto simp: stats_note_status_def stats_add_def class_sum_def Let_def not_less)
qed

lemma statuses_total:
  "\<forall>code \<in> set codes. 200 \<le> code \<and> code < 600 \<Longrightarrow>
    fold stats_note_status codes stats_init STAT_RESP_TOTAL = class_sum (fold stats_note_status codes stats_init)"
proof (induction codes rule: rev_induct)
  case (snoc code codes)
  then show ?case using note_status_total [of code "fold stats_note_status codes stats_init"] by simp
qed (simp add: stats_init_def class_sum_def)

end
