(* ===== verification/Spec2Isabelle.thy ===== *)
theory Spec2Isabelle
  imports Config Http_Types Http_Parser Http_Parser_Facts Http_Grammar Http_Accepted Allocator Ring Conn_Queue
    Conn_Queue_Steps Log_Queue Url_Path Site_Config Routes Proxy_Chunk Kernel
    Proxy_Headers Proxy_Forward File_Cache Path_Table Cache_Holds
    Static_Serve Static_Send Static_Open Proxy_Pool Proxy_Pump Proxy_Relay Proxy_Budget Proxy_Faults Proxy_Response Conn_Keeps Http_Conn Http_Faults Worker Worker_Slots
    Runtime Runtime_Facts Log_Writer Stats
begin

text \<open>
  A model of the web server \<^verbatim>\<open>tiny\<close>, file by file, with the theorems that make its parts correct.

  \<^bold>\<open>The program.\<close> The main thread accepts connections and puts them into a ring (\<^verbatim>\<open>connection.c\<close>); each
  worker (\<^verbatim>\<open>worker.c\<close>) takes them out into its slots and drives every slot from one epoll loop. A slot
  reads a request head (\<^verbatim>\<open>http.c\<close>), parses it (\<^verbatim>\<open>http_parser.c\<close>), looks up a route (\<^verbatim>\<open>routes.c\<close>) and
  either serves a file (\<^verbatim>\<open>static.c\<close>), from its own cache of open files, or relays the exchange to an
  upstream (\<^verbatim>\<open>proxy.c\<close>). Memory of a slot comes from a bump allocator (\<^verbatim>\<open>allocator.c\<close>); log lines pass
  through a ring of their own (\<^verbatim>\<open>logger.c\<close>). A site file says which routes there are.

  \<^bold>\<open>The theories.\<close> All sources are below \<^verbatim>\<open>src/src/\<close>; a definition has the name of the C function,
  record fields have the names of the struct fields behind a short prefix.

  \<^item> \<open>Tiny_Prelude\<close>: bytes, literals, the collection \<open>evals\<close> of equations that evaluate the model on
    concrete input. \<open>Config\<close>: \<^verbatim>\<open>config.h\<close>.
  \<^item> \<open>Http_Types\<close>, \<open>Http_Parser\<close> (\<^verbatim>\<open>http.h\<close>, \<^verbatim>\<open>http_parser.c\<close>): the parser on a byte list and a length, with
    slices as 16-bit words. \<open>Http_Parser_Facts\<close> shows that the verdict does not depend on bytes behind
    the length, that it is stable when more bytes arrive (but for a bare line feed) and that all slices lie
    in the buffer. \<open>Http_Grammar\<close> has an abstract request with its rendering and shows that the parser
    computes its meaning; \<open>Http_Accepted\<close> is the converse: the bytes of an accepted request are of the
    grammar, and the parsed request says what they say.
  \<^item> \<open>Allocator\<close> (\<^verbatim>\<open>allocator.c\<close>): blocks are aligned, inside the arena and disjoint, wrap-around included.
  \<^item> \<open>Ring\<close>: the arithmetic of ring indices and the locale of a bounded queue. \<open>Conn_Queue\<close> and
    \<open>Log_Queue\<close> interpret it for the sequential operations; \<open>Conn_Queue_Steps\<close> interleaves the atomic
    steps of \<open>dequeue_connection\<close> and \<open>enqueue_connection\<close>: under which condition nothing is lost or
    delivered twice, and a run of the code that breaks it.
  \<^item> \<open>Url_Path\<close> (\<^verbatim>\<open>static.c\<close>): decoding, normalising and typing of request paths, each against a reference
    definition.
  \<^item> \<open>Site_Config\<close>, \<open>Routes\<close> (\<^verbatim>\<open>routes.c\<close>): the site file, the checks on it, the set-up of directories
    and upstreams with its failure paths, and the choice of a route.
  \<^item> \<open>Kernel\<close>: the system calls as scripts of answers, one list per descriptor, and the logs of what was
    sent and closed; the record of a connection (\<^verbatim>\<open>http.h\<close>) and the send loop that four functions share.
  \<^item> \<open>File_Cache\<close>, \<open>Path_Table\<close>, \<open>Cache_Holds\<close> (\<^verbatim>\<open>static.c\<close>): the cache of open files as a finite map and
    as a counter of holders. \<open>Static_Serve\<close>, \<open>Static_Open\<close>, \<open>Static_Send\<close>: from a request path to the
    bytes on the wire.
  \<^item> \<open>Proxy_Chunk\<close>, \<open>Proxy_Headers\<close>, \<open>Proxy_Forward\<close>, \<open>Proxy_Pool\<close>, \<open>Proxy_Pump\<close>, \<open>Proxy_Relay\<close>
    (\<^verbatim>\<open>proxy.c\<close>): the chunked framing, the rewriting of both heads, the pool of idle upstreams (a locale
    of its contract), the phases of an exchange, and runs of it: the request reaches the upstream exactly. \<open>Proxy_Budget\<close>: how many rounds one call of
    \<open>proxy_pump\<close> may take. \<open>Proxy_Response\<close>: the
    response reaches the client exactly. \<open>Proxy_Faults\<close>: three exchanges that go wrong.
  \<^item> \<open>Conn_Keeps\<close>, \<open>Http_Conn\<close> (\<^verbatim>\<open>http.c\<close>, the dispatch of \<^verbatim>\<open>routes.c\<close>): reading, parsing and answering
    requests, and going on to the next one; a handler leaves buffer and parsed request as they were.
    \<open>Http_Faults\<close>: a request that is dispatched twice.
  \<^item> \<open>Worker\<close> (\<^verbatim>\<open>worker.c\<close>): slots, accepting, events, deadlines and shutdown of one worker.
    \<open>Worker_Slots\<close>: which slots are in use, through every run of a worker, and that accepting ends.
  \<^item> \<open>Runtime\<close> (\<^verbatim>\<open>runtime.c\<close>, \<^verbatim>\<open>main.c\<close>): limits, pools, listener, threads, the accept loop, destruction.
    \<open>Runtime_Facts\<close>: nothing leaks whichever step fails, the workers start with slots and arenas of their
    own, and an accepted connection is queued or closed.
  \<^item> \<open>Log_Writer\<close> (\<^verbatim>\<open>logger.c\<close>): the thread of the logger; nothing accepted is lost. \<open>Stats\<close> (\<^verbatim>\<open>stats.c\<close>).

  \<^bold>\<open>Conventions.\<close> Machine integers are words of their width where the code relies on it, and \<open>nat\<close> where
  a bound keeps them small (slot numbers of a worker, positions of the interleaved queue). A buffer with a length is the list of the bytes in use. Errors are values: a
  sum with the error on the left, or an option. The answers of the kernel are finite scripts, and a script
  that is used up answers \<open>EAGAIN\<close>; the loops that repeat a call after \<open>EINTR\<close> are total functions for that
  reason only, as the code has no bound for them either. For the loop of \<open>proxy_pump\<close>, which has a budget
  of 16, \<open>Proxy_Budget\<close> has a bound that does not depend on the scripts: a call makes at most 17 rounds
  that move data and at most 9969 rounds in all, not counting one for each read of the upstream that a
  signal interrupts.

  \<^bold>\<open>Not modelled.\<close> Signal masks and handlers, the creation of a worker's epoll descriptor and of the
  memory behind its free stack, the formats of log lines, the dump of the counters with its
  floating-point averages, the usage text, and the test client \<^verbatim>\<open>client.c\<close>, which is not part of the
  server; the \<open>EPOLL_CTL_DEL\<close> of \<open>proxy_close\<close>, whose result is ignored, and the guard of
  \<open>worker_init\<close> against more than 65535 slots (there are 128). The answers of \<open>stat\<close> are scripted
  without the path they were asked for. The calls of the log and of the counters are left out of the other components: no decision
  depends on them. Only the connection queue has a model of its interleaved atomic steps; the log queue
  and the counters run one call after the other.
\<close>

end
